(* ===== verification/Rust_Prelude.thy ===== *)
theory Rust_Prelude
  imports Main "HOL-Library.Word"
begin

unbundle bit_operations_syntax

text \<open>
  The vocabulary every component shares: Rust's fixed-width integers as words, with the
  checked and saturating operators of the standard library; results as sums; bitmaps stored in
  arrays of words (\<open>words[i / 64] |= 1 << (i % 64)\<close>); and two interfaces, \<open>index_set\<close> for any
  container of small indices and \<open>invariant_machine\<close> for any transition system with an
  inductive invariant.

  Conventions. \<open>u16\<close>, \<open>u32\<close>, \<open>u64\<close>, \<open>u128\<close> are words of that width, so \<open>+\<close> and \<open>-\<close> wrap
  exactly as \<open>wrapping_add\<close> and \<open>wrapping_sub\<close> do. A \<open>usize\<close> that indexes or measures an
  array is a \<open>nat\<close>: each one is bounded by the length of an array, far below the width.
  \<open>Result<T, E>\<close> is \<open>'e + 't\<close> with \<open>Inl\<close> for \<open>Err\<close>. A method on \<open>&mut self\<close> takes the state
  and returns the new one, beside its result.
\<close>

section \<open>Types\<close>

type_synonym u8 = "8 word"
type_synonym u16 = "16 word"
type_synonym u32 = "32 word"
type_synonym u64 = "64 word"
type_synonym u128 = "128 word"
type_synonym i64 = "64 word"

named_theorems rust_arith \<open>readings of the checked and saturating operators in nat\<close>

section \<open>Checked and saturating arithmetic\<close>

definition checked_add :: "'a::len word \<Rightarrow> 'a word \<Rightarrow> 'a word option" where
  "checked_add a b = (if unat a + unat b < 2 ^ LENGTH('a) then Some (a + b) else None)"

definition checked_sub :: "'a::len word \<Rightarrow> 'a word \<Rightarrow> 'a word option" where
  "checked_sub a b = (if b \<le> a then Some (a - b) else None)"

definition checked_mul :: "'a::len word \<Rightarrow> 'a word \<Rightarrow> 'a word option" where
  "checked_mul a b = (if unat a * unat b < 2 ^ LENGTH('a) then Some (a * b) else None)"

definition saturating_add :: "'a::len word \<Rightarrow> 'a word \<Rightarrow> 'a word" where
  "saturating_add a b = (if unat a + unat b < 2 ^ LENGTH('a) then a + b else - 1)"

definition saturating_sub :: "'a::len word \<Rightarrow> 'a word \<Rightarrow> 'a word" where
  "saturating_sub a b = (if b \<le> a then a - b else 0)"

definition div_ceil :: "'a::len word \<Rightarrow> 'a word \<Rightarrow> 'a word" where
  "div_ceil a b = (if a mod b = 0 then a div b else a div b + 1)"

definition trailing_zeros :: "'a::len word \<Rightarrow> nat" where
  "trailing_zeros w = length (takeWhile (\<lambda>n. \<not> bit w n) [0..<LENGTH('a)])"

definition count_ones :: "'a::len word \<Rightarrow> nat" where
  "count_ones w = length (filter (bit w) [0..<LENGTH('a)])"

definition ok_or :: "'a option \<Rightarrow> 'e \<Rightarrow> 'e + 'a" where
  "ok_or x e = (case x of None \<Rightarrow> Inl e | Some v \<Rightarrow> Inr v)"

lemma ok_or_simps [simp]:
  "ok_or None e = Inl e" "ok_or (Some v) e = Inr v"
  by (simp_all add: ok_or_def)

lemma unat_inject: "unat a = unat b \<longleftrightarrow> a = (b :: 'a::len word)"
  by (simp add: word_unat_eq_iff)

lemma unat_add_nowrap:
  "unat a + unat b < 2 ^ LENGTH('a) \<Longrightarrow> unat (a + b) = unat a + unat (b :: 'a::len word)"
  by (simp add: unat_word_ariths)

lemma unat_sub_nowrap: "b \<le> a \<Longrightarrow> unat (a - b) = unat a - unat (b :: 'a::len word)"
  by (simp add: unat_sub)

lemma unat_mult_nowrap:
  "unat a * unat b < 2 ^ LENGTH('a) \<Longrightarrow> unat (a * b) = unat a * unat (b :: 'a::len word)"
  by (simp add: unat_word_ariths)

lemma unat_minus_one_word_nat: "unat (- 1 :: 'a::len word) = 2 ^ LENGTH('a) - 1"
  by (simp add: unsigned_minus_1_eq_mask mask_eq_exp_minus_1)

lemma unat_plus_one: "p \<noteq> - 1 \<Longrightarrow> unat (p + 1 :: 'a::len word) = Suc (unat p)"
proof -
  assume "p \<noteq> - 1"
  then have "unat p \<noteq> 2 ^ LENGTH('a) - 1"
    using unat_minus_one_word_nat unat_inject by metis
  moreover have "unat p < 2 ^ LENGTH('a)"
    by (rule unsigned_less)
  ultimately have "Suc (unat p) < 2 ^ LENGTH('a)"
    by linarith
  then show ?thesis
    using unat_add_nowrap [of p 1] by simp
qed

lemma word_le_max [simp]: "(w :: 'a::len word) \<le> - 1"
  by simp

lemma unat_lt_pow [simp]: "unat (w :: 'a::len word) < 2 ^ LENGTH('a)"
  by (rule unsigned_less)

lemma checked_add_Some [rust_arith]:
  "checked_add a b = Some c \<longleftrightarrow>
     unat a + unat b < 2 ^ LENGTH('a) \<and> unat (c :: 'a::len word) = unat a + unat b"
  by (auto simp: checked_add_def unat_add_nowrap simp: word_unat_eq_iff)

lemma checked_add_None [rust_arith]:
  "checked_add a (b :: 'a::len word) = None \<longleftrightarrow> 2 ^ LENGTH('a) \<le> unat a + unat b"
  by (auto simp: checked_add_def)

lemma checked_sub_Some [rust_arith]:
  "checked_sub a b = Some c \<longleftrightarrow>
     unat b \<le> unat a \<and> unat (c :: 'a::len word) = unat a - unat b"
  by (auto simp: checked_sub_def unat_sub_nowrap word_le_nat_alt simp: word_unat_eq_iff)

lemma checked_sub_None [rust_arith]:
  "checked_sub a (b :: 'a::len word) = None \<longleftrightarrow> unat a < unat b"
  by (auto simp: checked_sub_def word_le_nat_alt)

lemma checked_mul_Some [rust_arith]:
  "checked_mul a b = Some c \<longleftrightarrow>
     unat a * unat b < 2 ^ LENGTH('a) \<and> unat (c :: 'a::len word) = unat a * unat b"
  by (auto simp: checked_mul_def unat_mult_nowrap simp: word_unat_eq_iff)

lemma checked_mul_None [rust_arith]:
  "checked_mul a (b :: 'a::len word) = None \<longleftrightarrow> 2 ^ LENGTH('a) \<le> unat a * unat b"
  by (auto simp: checked_mul_def)

lemma unat_saturating_add [rust_arith]:
  "unat (saturating_add a (b :: 'a::len word)) = min (unat a + unat b) (2 ^ LENGTH('a) - 1)"
  by (auto simp: saturating_add_def unat_add_nowrap unat_minus_one_word_nat min_def)

lemma unat_saturating_sub [rust_arith]:
  "unat (saturating_sub a (b :: 'a::len word)) = unat a - unat b"
  by (auto simp: saturating_sub_def unat_sub_nowrap word_le_nat_alt)

lemma unat_div_word: "unat (a div b) = unat a div unat (b :: 'a::len word)"
  by (rule unat_div_distrib)

lemma unat_mod_word: "unat (a mod b) = unat a mod unat (b :: 'a::len word)"
  by (rule unat_mod_distrib)

lemma unat_ucast_up:
  "LENGTH('a) \<le> LENGTH('b) \<Longrightarrow> unat (ucast (w :: 'a::len word) :: 'b::len word) = unat w"
proof -
  assume "LENGTH('a) \<le> LENGTH('b)"
  then have "(2 :: nat) ^ LENGTH('a) \<le> 2 ^ LENGTH('b)" by simp
  then have "unat w < 2 ^ LENGTH('b)" using unat_lt_pow [of w] by linarith
  then show ?thesis by (simp add: unsigned_ucast_eq take_bit_nat_eq_self)
qed

lemma unat_div_ceil: "unat (b :: 'a::len word) \<noteq> 0 \<Longrightarrow> unat (div_ceil a b) = (unat a + unat b - 1) div unat b"
proof -
  assume b: "unat b \<noteq> 0"
  have step: "unat (a div b + 1) = unat a div unat b + 1" if "a mod b \<noteq> 0"
  proof -
    have "unat a mod unat b \<noteq> 0" using that by (simp add: unat_mod_word [symmetric] unat_eq_0)
    then have "unat a div unat b < unat a"
      using b by (metis bot_nat_0.not_eq_extremum div_less_dividend div_by_1 mod_by_1 linorder_neqE_nat
          less_one mod_0 mod_less)
    then have "unat a div unat b + 1 < 2 ^ LENGTH('a)"
      using unat_lt_pow [of a] by linarith
    then show ?thesis by (simp add: unat_word_ariths unat_div_word)
  qed
  have "(x + n - 1) div n = (if x mod n = 0 then x div n else x div n + 1)" if "n \<noteq> 0" for x n :: nat
  proof -
    have "x = x mod n + x div n * n" by simp
    then have "x + n - 1 = (x mod n + n - 1) + x div n * n" using that by linarith
    moreover have "((x mod n + n - 1) + x div n * n) div n = x div n + (x mod n + n - 1) div n"
      by (rule div_mult_self1 [OF that])
    moreover have "(x mod n + n - 1) div n = (if x mod n = 0 then 0 else 1)"
    proof (cases "x mod n = 0")
      case False
      moreover have "x mod n < n" using that by simp
      ultimately have "(x mod n + n - 1) div n = 1" by (intro div_nat_eqI) simp_all
      with False show ?thesis by simp
    qed (use that in simp)
    ultimately show ?thesis by simp
  qed
  then show ?thesis
    using b step by (auto simp: div_ceil_def unat_div_word unat_mod_word unat_eq_0 simp flip: unat_eq_0)
qed

section \<open>Searching slices\<close>

text \<open>\<open>iter().position\<close>, \<open>iter().flatten\<close> over an array of options, and \<open>min_by_key\<close>.\<close>

fun position :: "('a \<Rightarrow> bool) \<Rightarrow> 'a list \<Rightarrow> nat option" where
  "position P [] = None"
| "position P (x # xs) = (if P x then Some 0 else map_option Suc (position P xs))"

definition flatten :: "'a option list \<Rightarrow> 'a list" where
  "flatten xs = map the (filter (\<lambda>x. x \<noteq> None) xs)"

fun min_by_key :: "('a \<Rightarrow> 'k::linorder) \<Rightarrow> 'a list \<Rightarrow> 'a option" where
  "min_by_key key [] = None"
| "min_by_key key (x # xs) =
     (case min_by_key key xs of
        None \<Rightarrow> Some x
      | Some y \<Rightarrow> Some (if key y < key x then y else x))"

lemma position_None: "position P xs = None \<longleftrightarrow> (\<forall>x\<in>set xs. \<not> P x)"
  by (induction xs) auto

lemma position_Some:
  "position P xs = Some i \<longleftrightarrow> i < length xs \<and> P (xs ! i) \<and> (\<forall>j < i. \<not> P (xs ! j))"
proof (induction xs arbitrary: i)
  case (Cons x xs)
  show ?case
    by (cases i) (auto simp: Cons nth_Cons less_Suc_eq_0_disj split: nat.splits)
qed simp

lemma position_SomeD: "position P xs = Some i \<Longrightarrow> i < length xs \<and> P (xs ! i)"
  by (simp add: position_Some)

lemma set_flatten: "set (flatten xs) = {x. Some x \<in> set xs}"
  by (force simp: flatten_def)

lemma flatten_simps [simp]:
  "flatten [] = []" "flatten (None # xs) = flatten xs" "flatten (Some x # xs) = x # flatten xs"
  by (simp_all add: flatten_def)

lemma flatten_replicate_None [simp]: "flatten (replicate n None) = []"
  by (simp add: flatten_def)

lemma flatten_map_Some [simp]: "flatten (map Some xs) = xs"
  by (induction xs) simp_all

lemma flatten_append [simp]: "flatten (xs @ ys) = flatten xs @ flatten ys"
  by (simp add: flatten_def)

text \<open>An update of one cell, seen through \<open>flatten\<close>.\<close>

lemma flatten_update:
  assumes "i < length xs"
  obtains ys zs where "flatten xs = ys @ flatten [xs ! i] @ zs"
    "\<And>x. flatten (xs[i := x]) = ys @ flatten [x] @ zs"
proof
  show "flatten xs = flatten (take i xs) @ flatten [xs ! i] @ flatten (drop (Suc i) xs)"
    using arg_cong [OF id_take_nth_drop [OF assms], of flatten] by (simp flip: flatten_append)
  show "flatten (xs[i := x]) = flatten (take i xs) @ flatten [x] @ flatten (drop (Suc i) xs)" for x
    using upd_conv_take_nth_drop [OF assms, of x] by (simp flip: flatten_append)
qed

lemma min_by_key_None: "min_by_key key xs = None \<longleftrightarrow> xs = []"
  by (cases xs) (auto split: option.splits)

lemma min_by_key_Some:
  "min_by_key key xs = Some x \<Longrightarrow> x \<in> set xs \<and> (\<forall>y\<in>set xs. key x \<le> key y)"
proof (induction xs arbitrary: x)
  case (Cons z zs)
  show ?case
  proof (cases "min_by_key key zs")
    case None
    then show ?thesis using Cons.prems by (auto simp: min_by_key_None)
  next
    case (Some y)
    then show ?thesis
      using Cons.IH [OF Some] Cons.prems by (force split: if_splits)
  qed
qed simp

text \<open>\<open>enumerate().max_by_key\<close>: the index of the last greatest element.\<close>

fun max_index :: "('a \<Rightarrow> 'k::linorder) \<Rightarrow> 'a list \<Rightarrow> nat option" where
  "max_index key [] = None"
| "max_index key (x # xs) =
     (case max_index key xs of
        None \<Rightarrow> Some 0
      | Some j \<Rightarrow> Some (if key x \<le> key (xs ! j) then Suc j else 0))"

lemma max_index_None: "max_index key xs = None \<longleftrightarrow> xs = []"
  by (cases xs) (auto split: option.splits)

lemma max_index_Some:
  "max_index key xs = Some i \<Longrightarrow> i < length xs \<and> (\<forall>x\<in>set xs. key x \<le> key (xs ! i))"
proof (induction xs arbitrary: i)
  case (Cons x xs)
  show ?case
  proof (cases "max_index key xs")
    case None
    then show ?thesis using Cons.prems by (auto simp: max_index_None)
  next
    case (Some j)
    then show ?thesis using Cons.IH [OF Some] Cons.prems by (force split: if_splits)
  qed
qed simp

section \<open>Scanning the bits of a word\<close>

lemma trailing_zeros_lt: "w \<noteq> 0 \<Longrightarrow> trailing_zeros (w :: 'a::len word) < LENGTH('a)"
proof -
  assume "w \<noteq> 0"
  then obtain n where n: "n < LENGTH('a)" "bit w n"
    by (metis bit_imp_le_length bit_eqI bit_0_eq bot_apply bot_bool_def)
  then have "takeWhile (\<lambda>n. \<not> bit w n) [0..<LENGTH('a)] \<noteq> [0..<LENGTH('a)]"
    by (auto simp: takeWhile_eq_all_conv)
  then show ?thesis
    unfolding trailing_zeros_def
    by (metis diff_zero length_takeWhile_le length_upt order_le_less takeWhile_eq_take take_all_iff order.refl)
qed

lemma trailing_zeros_bit: "w \<noteq> 0 \<Longrightarrow> bit w (trailing_zeros (w :: 'a::len word))"
  using nth_length_takeWhile [of "\<lambda>n. \<not> bit w n" "[0..<LENGTH('a)]"] trailing_zeros_lt [of w]
  by (simp add: trailing_zeros_def)

lemma trailing_zeros_least: "k < trailing_zeros w \<Longrightarrow> \<not> bit (w :: 'a::len word) k"
proof -
  let ?p = "\<lambda>n. \<not> bit w n"
  assume k: "k < trailing_zeros w"
  then have "takeWhile ?p [0..<LENGTH('a)] ! k \<in> set (takeWhile ?p [0..<LENGTH('a)])"
    by (simp add: trailing_zeros_def)
  moreover have "takeWhile ?p [0..<LENGTH('a)] ! k = k"
    using k length_takeWhile_le [of ?p "[0..<LENGTH('a)]"]
    by (simp add: trailing_zeros_def takeWhile_nth)
  ultimately show ?thesis
    by (metis set_takeWhileD)
qed

lemma clear_lowest_bit:
  assumes "w \<noteq> (0 :: 'a::len word)"
  shows "w AND (w - 1) = unset_bit (trailing_zeros w) w"
proof -
  let ?t = "trailing_zeros w" and ?u = "unset_bit (trailing_zeros w) w"
  have t: "bit w ?t" "?t < LENGTH('a)" and low: "\<And>k. k < ?t \<Longrightarrow> \<not> bit w k"
    using assms by (simp_all add: trailing_zeros_bit trailing_zeros_lt trailing_zeros_least)
  have "w = ?u OR push_bit ?t 1"
    by (rule bit_eqI) (use t in \<open>auto simp: bit_simps\<close>)
  also have "\<dots> = ?u + 2 ^ ?t"
    by (subst disjunctive_add [symmetric]) (auto simp: bit_simps push_bit_eq_mult)
  finally have "w - 1 = ?u + mask ?t"
    by (simp add: mask_eq_exp_minus_1)
  also have "\<dots> = ?u OR mask ?t"
    by (rule disjunctive_add) (use low in \<open>auto simp: bit_simps\<close>)
  finally show ?thesis
    by - (rule bit_eqI, use low in \<open>auto simp: bit_simps\<close>)
qed

lemma clear_lowest_bit_less: "w \<noteq> (0 :: 'a::len word) \<Longrightarrow> unat (w AND (w - 1)) < unat w"
proof -
  assume w: "w \<noteq> 0"
  have "w AND (w - 1) \<le> w - 1" by (rule word_and_le1)
  also have "w - 1 < w" using w by (simp add: word_less_nat_alt unat_minus_one unat_gt_0)
  finally show ?thesis by (simp add: word_less_nat_alt)
qed

text \<open>
  The loop \<open>while w != 0 { bit = w.trailing_zeros(); w &= w - 1; ... }\<close>: the bits it visits, in
  order.
\<close>

function bits_of :: "'a::len word \<Rightarrow> nat list" where
  "bits_of w = (if w = 0 then [] else trailing_zeros w # bits_of (w AND (w - 1)))"
  by pat_completeness auto
termination
  by (relation "measure unat") (auto simp: clear_lowest_bit_less)

declare bits_of.simps [simp del]

lemma set_bits_of: "set (bits_of w) = {n. bit w n}"
proof (induction w rule: bits_of.induct)
  case (1 w)
  show ?case
  proof (cases "w = 0")
    case False
    have "set (bits_of w) = insert (trailing_zeros w) {n. bit (unset_bit (trailing_zeros w) w) n}"
      using 1 False by (simp add: bits_of.simps [of w] clear_lowest_bit)
    then show ?thesis
      using trailing_zeros_bit [OF False] by (auto simp: bit_simps bit_imp_le_length)
  qed (simp add: bits_of.simps)
qed

lemma sorted_bits_of: "sorted_wrt (<) (bits_of w)"
proof (induction w rule: bits_of.induct)
  case (1 w)
  show ?case
  proof (cases "w = 0")
    case False
    have "trailing_zeros w < n" if "n \<in> set (bits_of (w AND (w - 1)))" for n
      using that False trailing_zeros_least [of n w]
      by (cases n "trailing_zeros w" rule: linorder_cases)
        (auto simp: set_bits_of clear_lowest_bit bit_simps)
    with 1 False show ?thesis
      by (auto simp: bits_of.simps [of w])
  qed (simp add: bits_of.simps)
qed

lemma bits_of_eq_filter: "bits_of (w :: 'a::len word) = filter (bit w) [0..<LENGTH('a)]"
proof (rule strict_sorted_equal)
  show "set (bits_of w) = set (filter (bit w) [0..<LENGTH('a)])"
    by (auto simp: set_bits_of bit_imp_le_length)
qed (simp_all add: sorted_bits_of sorted_wrt_filter)

lemma length_bits_of: "length (bits_of w) = count_ones w"
  by (simp add: bits_of_eq_filter count_ones_def)

section \<open>Bitmaps in arrays of words\<close>

definition bitmap_test :: "'a::len word list \<Rightarrow> nat \<Rightarrow> bool" where
  "bitmap_test ws i \<longleftrightarrow> ws ! (i div LENGTH('a)) AND push_bit (i mod LENGTH('a)) 1 \<noteq> 0"

definition bitmap_set :: "'a::len word list \<Rightarrow> nat \<Rightarrow> 'a word list" where
  "bitmap_set ws i =
     ws[i div LENGTH('a) := ws ! (i div LENGTH('a)) OR push_bit (i mod LENGTH('a)) 1]"

definition bitmap_clear :: "'a::len word list \<Rightarrow> nat \<Rightarrow> 'a word list" where
  "bitmap_clear ws i =
     ws[i div LENGTH('a) := ws ! (i div LENGTH('a)) AND NOT (push_bit (i mod LENGTH('a)) 1)]"

definition bitmap_bits :: "'a::len word list \<Rightarrow> nat" where
  "bitmap_bits ws = length ws * LENGTH('a)"

lemma and_push_bit_one: "n < LENGTH('a) \<Longrightarrow> (w :: 'a::len word) AND push_bit n 1 \<noteq> 0 \<longleftrightarrow> bit w n"
  using bit_eq_iff [of "w AND push_bit n 1" 0] by (auto simp: bit_simps)

lemma bitmap_index_lt: "i < bitmap_bits ws \<Longrightarrow> i div LENGTH('a) < length (ws :: 'a::len word list)"
  by (simp add: bitmap_bits_def less_mult_imp_div_less)

lemma bitmap_test_bit:
  "bitmap_test ws i \<longleftrightarrow> bit (ws ! (i div LENGTH('a))) (i mod LENGTH('a))"
  for ws :: "'a::len word list"
  unfolding bitmap_test_def by (rule and_push_bit_one) simp

lemma length_bitmap_ops [simp]:
  "length (bitmap_set ws i) = length ws" "length (bitmap_clear ws i) = length ws"
  by (simp_all add: bitmap_set_def bitmap_clear_def)

lemma div_mod_eq_iff: "i = j \<longleftrightarrow> i div n = j div n \<and> i mod n = j mod (n :: nat)"
  by (metis div_mult_mod_eq)

lemma bitmap_test_set:
  assumes "i < bitmap_bits ws"
  shows "bitmap_test (bitmap_set ws i) j \<longleftrightarrow> i = j \<or> bitmap_test (ws :: 'a::len word list) j"
  using bitmap_index_lt [OF assms] div_mod_eq_iff [of i j "LENGTH('a)"]
  by (auto simp: bitmap_test_bit bitmap_set_def nth_list_update bit_simps)

lemma bitmap_test_clear:
  assumes "i < bitmap_bits ws"
  shows "bitmap_test (bitmap_clear ws i) j \<longleftrightarrow> i \<noteq> j \<and> bitmap_test (ws :: 'a::len word list) j"
  using bitmap_index_lt [OF assms] div_mod_eq_iff [of i j "LENGTH('a)"]
  by (auto simp: bitmap_test_bit bitmap_clear_def nth_list_update bit_simps)

lemma bitmap_test_zero_word:
  "i < length ws \<Longrightarrow>
     bitmap_test (ws[i := 0]) j \<longleftrightarrow> j div LENGTH('a) \<noteq> i \<and> bitmap_test (ws :: 'a::len word list) j"
  by (auto simp: bitmap_test_bit nth_list_update)

lemma bitmap_bits_ops [simp]:
  "bitmap_bits (bitmap_set ws i) = bitmap_bits ws" "bitmap_bits (bitmap_clear ws i) = bitmap_bits ws"
  by (simp_all add: bitmap_bits_def)

lemma bitmap_test_Cons:
  "bitmap_test (w # ws) i \<longleftrightarrow>
     (if i < LENGTH('a) then bit w i else bitmap_test ws (i - LENGTH('a)))"
  for ws :: "'a::len word list"
proof (cases "i < LENGTH('a)")
  case False
  then have "i div LENGTH('a) = Suc ((i - LENGTH('a)) div LENGTH('a))"
    and "i mod LENGTH('a) = (i - LENGTH('a)) mod LENGTH('a)"
    by (simp_all add: le_div_geq le_mod_geq)
  with False show ?thesis by (simp add: bitmap_test_bit)
qed (simp add: bitmap_test_bit)

lemma bitmap_set_Cons:
  "{i. i < bitmap_bits (w # ws) \<and> bitmap_test (w # ws) i} =
     {i. bit w i} \<union> (\<lambda>i. i + LENGTH('a)) ` {i. i < bitmap_bits ws \<and> bitmap_test ws i}"
  for ws :: "'a::len word list"
proof (intro set_eqI)
  fix i
  have "i < LENGTH('a) \<or> (\<exists>j. i = j + LENGTH('a))"
    by (metis le_add_diff_inverse2 not_le)
  then show "i \<in> {i. i < bitmap_bits (w # ws) \<and> bitmap_test (w # ws) i} \<longleftrightarrow>
      i \<in> {i. bit w i} \<union> (\<lambda>i. i + LENGTH('a)) ` {i. i < bitmap_bits ws \<and> bitmap_test ws i}"
    by (auto simp: bitmap_test_Cons bitmap_bits_def dest: bit_imp_le_length)
qed

lemma all_zero_words:
  "list_all (\<lambda>w. w = 0) ws \<longleftrightarrow> {i. i < bitmap_bits ws \<and> bitmap_test ws i} = {}"
  for ws :: "'a::len word list"
proof (induction ws)
  case (Cons w ws)
  have "w = 0 \<longleftrightarrow> {i. bit w i} = {}"
    using bit_eq_iff [of w 0] by (auto dest: bit_imp_le_length)
  with Cons show ?case
    by (simp only: bitmap_set_Cons list.pred_inject Un_empty image_is_empty)
qed (simp add: bitmap_bits_def)

lemma card_bits: "card {i. bit w i} = count_ones (w :: 'a::len word)"
proof -
  have "{i. bit w i} = set (filter (bit w) [0..<LENGTH('a)])"
    by (auto simp: bit_imp_le_length)
  also have "card \<dots> = count_ones w"
    unfolding count_ones_def by (rule distinct_card) simp
  finally show ?thesis .
qed

lemma sum_count_ones_eq_card:
  "sum_list (map count_ones ws) = card {i. i < bitmap_bits ws \<and> bitmap_test ws i}"
  for ws :: "'a::len word list"
proof (induction ws)
  case (Cons w ws)
  have "finite {i. bit w i}"
    by (rule finite_subset [of _ "{..<LENGTH('a)}"]) (auto simp: bit_imp_le_length)
  moreover have "{i. bit w i} \<inter> (\<lambda>i. i + LENGTH('a)) ` {i. i < bitmap_bits ws \<and> bitmap_test ws i} = {}"
    by (auto dest: bit_imp_le_length)
  ultimately show ?case
    using Cons.IH by (simp add: bitmap_set_Cons card_Un_disjoint card_bits card_image)
qed (simp add: bitmap_bits_def)

text \<open>The first set bit of a bitmap, found word by word.\<close>

fun scan_words :: "nat \<Rightarrow> 'a::len word list \<Rightarrow> nat option" where
  "scan_words i [] = None"
| "scan_words i (w # ws) =
     (if w \<noteq> 0 then Some (i * LENGTH('a) + trailing_zeros w) else scan_words (Suc i) ws)"

lemma scan_words_Min:
  "scan_words i ws =
     (if {j. j < bitmap_bits ws \<and> bitmap_test ws j} = {} then None
      else Some (i * LENGTH('a) + Min {j. j < bitmap_bits ws \<and> bitmap_test ws j}))"
  for ws :: "'a::len word list"
proof (induction ws arbitrary: i)
  case (Cons w ws)
  define S where "S = {j. j < bitmap_bits ws \<and> bitmap_test ws j}"
  define T where "T = {j. j < bitmap_bits (w # ws) \<and> bitmap_test (w # ws) j}"
  have T: "T = {j. bit w j} \<union> (\<lambda>j. j + LENGTH('a)) ` S" and fin: "finite S" "finite T"
    using bitmap_set_Cons [of w ws] by (simp_all add: T_def S_def)
  have "scan_words i (w # ws) = (if T = {} then None else Some (i * LENGTH('a) + Min T))"
  proof (cases "w = 0")
    case True
    have "Min T = Min S + LENGTH('a)" if "S \<noteq> {}"
      using that True fin mono_Min_commute [of "\<lambda>j. j + LENGTH('a)" S] by (simp add: T mono_def)
    then show ?thesis
      using True Cons.IH [of "Suc i", folded S_def]
      by (cases "S = {}") (simp_all add: T algebra_simps)
  next
    case False
    have "Min T = trailing_zeros w"
    proof (rule Min_eqI [OF fin(2)])
      show "trailing_zeros w \<le> y" if "y \<in> T" for y
        using that trailing_zeros_least [of y w] trailing_zeros_lt [OF False]
        by (auto simp: T not_less [symmetric])
      show "trailing_zeros w \<in> T"
        using trailing_zeros_bit [OF False] by (simp add: T)
    qed
    moreover have "T \<noteq> {}"
      using trailing_zeros_bit [OF False] by (auto simp: T)
    ultimately show ?thesis using False by simp
  qed
  then show ?case by (simp only: T_def)
qed (simp add: bitmap_bits_def)

lemma bitmap_test_map_not:
  "j < bitmap_bits ws \<Longrightarrow> bitmap_test (map NOT ws) j \<longleftrightarrow> \<not> bitmap_test ws j"
  for ws :: "'a::len word list"
  using bitmap_index_lt [of j ws] by (simp add: bitmap_test_bit bit_simps)

lemma scan_words_not_Min:
  "scan_words 0 (map NOT ws) =
     (if {j. j < bitmap_bits ws \<and> \<not> bitmap_test ws j} = {} then None
      else Some (Min {j. j < bitmap_bits ws \<and> \<not> bitmap_test ws j}))"
  for ws :: "'a::len word list"
proof -
  have "bitmap_bits (map NOT ws) = bitmap_bits ws"
    by (simp add: bitmap_bits_def)
  then have "{j. j < bitmap_bits (map NOT ws) \<and> bitmap_test (map NOT ws) j} =
      {j. j < bitmap_bits ws \<and> \<not> bitmap_test ws j}"
    by (auto simp: bitmap_test_map_not)
  then show ?thesis by (simp only: scan_words_Min) simp
qed

section \<open>Containers of indices\<close>

text \<open>
  What a client of a bitmap relies on, whatever the width of its words: membership, insertion
  and removal of indices below a capacity that no operation changes.
\<close>

locale index_set =
  fixes mem :: "'s \<Rightarrow> nat \<Rightarrow> bool"
    and ins :: "'s \<Rightarrow> nat \<Rightarrow> 's"
    and del :: "'s \<Rightarrow> nat \<Rightarrow> 's"
    and cap :: "'s \<Rightarrow> nat"
  assumes mem_ins: "i < cap s \<Longrightarrow> j < cap s \<Longrightarrow> mem (ins s i) j \<longleftrightarrow> i = j \<or> mem s j"
    and mem_del: "i < cap s \<Longrightarrow> j < cap s \<Longrightarrow> mem (del s i) j \<longleftrightarrow> i \<noteq> j \<and> mem s j"
    and cap_ins: "cap (ins s i) = cap s"
    and cap_del: "cap (del s i) = cap s"
begin

definition members :: "'s \<Rightarrow> nat set" where
  "members s = {i. i < cap s \<and> mem s i}"

definition free_count :: "'s \<Rightarrow> nat" where
  "free_count s = card {i. i < cap s \<and> \<not> mem s i}"

lemma finite_members: "finite (members s)"
  by (simp add: members_def)

lemma members_iff: "i < cap s \<Longrightarrow> i \<in> members s \<longleftrightarrow> mem s i"
  by (simp add: members_def)

lemma members_ins: "i < cap s \<Longrightarrow> members (ins s i) = insert i (members s)"
  by (auto simp: members_def mem_ins cap_ins)

lemma members_del: "i < cap s \<Longrightarrow> members (del s i) = members s - {i}"
  by (auto simp: members_def mem_del cap_del)

lemma free_count_ins:
  assumes "i < cap s" "\<not> mem s i"
  shows "free_count s = Suc (free_count (ins s i))"
proof -
  have "{j. j < cap s \<and> \<not> mem s j} = insert i {j. j < cap (ins s i) \<and> \<not> mem (ins s i) j}"
    using assms by (auto simp: mem_ins cap_ins)
  then show ?thesis
    using assms by (simp add: free_count_def mem_ins)
qed

lemma free_count_del:
  assumes "i < cap s" "mem s i"
  shows "free_count (del s i) = Suc (free_count s)"
proof -
  have "{j. j < cap (del s i) \<and> \<not> mem (del s i) j} = insert i {j. j < cap s \<and> \<not> mem s j}"
    using assms by (auto simp: mem_del cap_del)
  then show ?thesis
    using assms by (simp add: free_count_def)
qed

lemma free_count_zero: "free_count s = 0 \<longleftrightarrow> (\<forall>i < cap s. mem s i)"
  by (auto simp: free_count_def)

lemma ins_del_cancel: "i < cap s \<Longrightarrow> \<not> mem s i \<Longrightarrow> members (del (ins s i) i) = members s"
  by (auto simp: members_def mem_del mem_ins cap_ins cap_del)

end

interpretation word_bitmap: index_set bitmap_test bitmap_set bitmap_clear bitmap_bits
  by unfold_locales (simp_all add: bitmap_test_set bitmap_test_clear)

section \<open>Transition systems with an inductive invariant\<close>

locale invariant_machine =
  fixes start :: "'s \<Rightarrow> bool"
    and step :: "'s \<Rightarrow> 's \<Rightarrow> bool"
    and inv :: "'s \<Rightarrow> bool"
  assumes start_inv: "start s \<Longrightarrow> inv s"
    and step_inv: "inv s \<Longrightarrow> step s t \<Longrightarrow> inv t"
begin

lemma steps_inv: "step\<^sup>*\<^sup>* s t \<Longrightarrow> inv s \<Longrightarrow> inv t"
  by (induction rule: rtranclp_induct) (auto intro: step_inv)

lemma reachable_inv: "start s \<Longrightarrow> step\<^sup>*\<^sup>* s t \<Longrightarrow> inv t"
  using start_inv steps_inv by blast

end

end
