(* ===== verification/Cpu_Mask.thy ===== *)
theory Cpu_Mask
  imports Rust_Prelude
begin

unbundle bit_operations_syntax

text \<open>
  Dense CPU indices and the 256-bit CPU masks of the scheduler core
  (\<open>huesos-sched/src/lib.rs\<close>, \<open>CpuIndex\<close> and \<open>CpuMask\<close>). A mask is four 64-bit words; the
  lemmas show that it implements the algebra of sets of CPU indices.
\<close>

section \<open>Dense CPU indices\<close>

definition MAX_CPUS :: nat where
  [simp]: "MAX_CPUS = 256"

datatype cpu_index = CpuIndex (cpu_raw: u16)

definition cpu_index_new :: "nat \<Rightarrow> cpu_index option" where
  "cpu_index_new index = (if index < MAX_CPUS then Some (CpuIndex (of_nat index)) else None)"

definition as_usize :: "cpu_index \<Rightarrow> nat" where
  "as_usize cpu = unat (cpu_raw cpu)"

text \<open>The field is private and \<open>CpuIndex::new\<close> is the only constructor: every index is below the bound.\<close>

definition cpu_valid :: "cpu_index \<Rightarrow> bool" where
  "cpu_valid cpu \<longleftrightarrow> as_usize cpu < MAX_CPUS"

lemma as_usize_new: "n < MAX_CPUS \<Longrightarrow> as_usize (CpuIndex (of_nat n)) = n"
  by (simp add: as_usize_def unat_of_nat)

lemma cpu_index_new_Some: "cpu_index_new n = Some c \<longleftrightarrow> n < MAX_CPUS \<and> as_usize c = n"
  by (cases c) (auto simp: cpu_index_new_def as_usize_def unat_of_nat word_unat_eq_iff)

lemma as_usize_inject: "as_usize c = as_usize d \<longleftrightarrow> c = d"
  by (cases c; cases d) (simp add: as_usize_def unat_inject)

section \<open>Masks\<close>

record cpu_mask =
  cm_words :: "u64 list"

definition cpu_mask_empty :: cpu_mask where
  "cpu_mask_empty = \<lparr>cm_words = replicate (MAX_CPUS div 64) 0\<rparr>"

definition cpu_mask_full :: cpu_mask where
  "cpu_mask_full = \<lparr>cm_words = replicate (MAX_CPUS div 64) (- 1)\<rparr>"

definition cpu_mask_one :: "cpu_index \<Rightarrow> cpu_mask" where
  "cpu_mask_one cpu =
     cpu_mask_empty\<lparr>cm_words :=
       (cm_words cpu_mask_empty)[as_usize cpu div 64 := push_bit (as_usize cpu mod 64) 1]\<rparr>"

definition cpu_mask_insert :: "cpu_mask \<Rightarrow> cpu_index \<Rightarrow> cpu_mask" where
  "cpu_mask_insert m cpu =
     m\<lparr>cm_words := (cm_words m)[as_usize cpu div 64 :=
        cm_words m ! (as_usize cpu div 64) OR push_bit (as_usize cpu mod 64) 1]\<rparr>"

definition cpu_mask_remove :: "cpu_mask \<Rightarrow> cpu_index \<Rightarrow> cpu_mask" where
  "cpu_mask_remove m cpu =
     m\<lparr>cm_words := (cm_words m)[as_usize cpu div 64 :=
        cm_words m ! (as_usize cpu div 64) AND NOT (push_bit (as_usize cpu mod 64) 1)]\<rparr>"

definition cpu_mask_contains :: "cpu_mask \<Rightarrow> cpu_index \<Rightarrow> bool" where
  "cpu_mask_contains m cpu \<longleftrightarrow>
     cm_words m ! (as_usize cpu div 64) AND push_bit (as_usize cpu mod 64) 1 \<noteq> 0"

definition cpu_mask_count :: "cpu_mask \<Rightarrow> nat" where
  "cpu_mask_count m = sum_list (map count_ones (cm_words m))"

definition cpu_mask_is_empty :: "cpu_mask \<Rightarrow> bool" where
  "cpu_mask_is_empty m \<longleftrightarrow> list_all (\<lambda>w. w = 0) (cm_words m)"

definition cpu_mask_intersection :: "cpu_mask \<Rightarrow> cpu_mask \<Rightarrow> cpu_mask" where
  "cpu_mask_intersection m n = \<lparr>cm_words = map2 (AND) (cm_words m) (cm_words n)\<rparr>"

definition cpu_mask_union :: "cpu_mask \<Rightarrow> cpu_mask \<Rightarrow> cpu_mask" where
  "cpu_mask_union m n = \<lparr>cm_words = map2 (OR) (cm_words m) (cm_words n)\<rparr>"

fun cpu_mask_first_from :: "nat \<Rightarrow> u64 list \<Rightarrow> cpu_index option" where
  "cpu_mask_first_from word_index [] = None"
| "cpu_mask_first_from word_index (word # words) =
     (if word \<noteq> 0 then cpu_index_new (word_index * 64 + trailing_zeros word)
      else cpu_mask_first_from (Suc word_index) words)"

definition cpu_mask_first :: "cpu_mask \<Rightarrow> cpu_index option" where
  "cpu_mask_first m = cpu_mask_first_from 0 (cm_words m)"

definition cpu_mask_wf :: "cpu_mask \<Rightarrow> bool" where
  "cpu_mask_wf m \<longleftrightarrow> length (cm_words m) = MAX_CPUS div 64"

definition cpus :: "cpu_mask \<Rightarrow> nat set" where
  "cpus m = {i. i < bitmap_bits (cm_words m) \<and> bitmap_test (cm_words m) i}"

section \<open>Masks as sets\<close>

lemma cpu_mask_insert_bitmap: "cm_words (cpu_mask_insert m c) = bitmap_set (cm_words m) (as_usize c)"
  by (simp add: cpu_mask_insert_def bitmap_set_def)

lemma cpu_mask_remove_bitmap: "cm_words (cpu_mask_remove m c) = bitmap_clear (cm_words m) (as_usize c)"
  by (simp add: cpu_mask_remove_def bitmap_clear_def)

lemma cpu_mask_contains_bitmap: "cpu_mask_contains m c \<longleftrightarrow> bitmap_test (cm_words m) (as_usize c)"
  by (simp add: cpu_mask_contains_def bitmap_test_def)

lemma cpu_mask_bits [simp]: "cpu_mask_wf m \<Longrightarrow> bitmap_bits (cm_words m) = 256"
  by (simp add: cpu_mask_wf_def bitmap_bits_def)

interpretation mask_set: index_set
  "\<lambda>m i. cpu_mask_contains m (CpuIndex (of_nat i))"
  "\<lambda>m i. cpu_mask_insert m (CpuIndex (of_nat i))"
  "\<lambda>m i. cpu_mask_remove m (CpuIndex (of_nat i))"
  "\<lambda>m. min MAX_CPUS (bitmap_bits (cm_words m))"
  by unfold_locales
    (simp_all add: cpu_mask_insert_bitmap cpu_mask_remove_bitmap cpu_mask_contains_bitmap
      as_usize_def unat_of_nat bitmap_test_set bitmap_test_clear)

lemma cpus_eq_members: "cpu_mask_wf m \<Longrightarrow> cpus m = mask_set.members m"
  unfolding cpus_def mask_set.members_def
  by (auto simp: cpu_mask_contains_bitmap as_usize_def unat_of_nat)

lemma cpu_mask_wf_ops [simp]:
  "cpu_mask_wf cpu_mask_empty" "cpu_mask_wf cpu_mask_full" "cpu_mask_wf (cpu_mask_one c)"
  "cpu_mask_wf (cpu_mask_insert m c) = cpu_mask_wf m"
  "cpu_mask_wf (cpu_mask_remove m c) = cpu_mask_wf m"
  by (simp_all add: cpu_mask_wf_def cpu_mask_empty_def cpu_mask_full_def cpu_mask_one_def
      cpu_mask_insert_def cpu_mask_remove_def)

lemma cpu_mask_wf_map2 [simp]:
  "cpu_mask_wf m \<Longrightarrow> cpu_mask_wf n \<Longrightarrow> cpu_mask_wf (cpu_mask_union m n)"
  "cpu_mask_wf m \<Longrightarrow> cpu_mask_wf n \<Longrightarrow> cpu_mask_wf (cpu_mask_intersection m n)"
  by (simp_all add: cpu_mask_wf_def cpu_mask_union_def cpu_mask_intersection_def)

lemma new_of_valid: "cpu_valid c \<Longrightarrow> CpuIndex (of_nat (as_usize c)) = c"
  by (cases c) (simp add: as_usize_def)

lemma cpus_insert:
  "cpu_mask_wf m \<Longrightarrow> cpu_valid c \<Longrightarrow> cpus (cpu_mask_insert m c) = insert (as_usize c) (cpus m)"
  using mask_set.members_ins [of "as_usize c" m]
  by (simp add: cpus_eq_members cpu_valid_def new_of_valid)

lemma cpus_remove:
  "cpu_mask_wf m \<Longrightarrow> cpu_valid c \<Longrightarrow> cpus (cpu_mask_remove m c) = cpus m - {as_usize c}"
  using mask_set.members_del [of "as_usize c" m]
  by (simp add: cpus_eq_members cpu_valid_def new_of_valid)

lemma contains_iff_cpus:
  "cpu_mask_wf m \<Longrightarrow> cpu_valid c \<Longrightarrow> cpu_mask_contains m c \<longleftrightarrow> as_usize c \<in> cpus m"
  by (simp add: cpus_def cpu_mask_contains_bitmap cpu_valid_def)

lemma word_index_lt: "cpu_mask_wf m \<Longrightarrow> i < 256 \<Longrightarrow> i div 64 < length (cm_words m)"
  by (simp add: cpu_mask_wf_def less_mult_imp_div_less)

lemma cpus_intersection:
  "cpu_mask_wf m \<Longrightarrow> cpu_mask_wf n \<Longrightarrow> cpus (cpu_mask_intersection m n) = cpus m \<inter> cpus n"
  by (auto simp: cpus_def bitmap_test_bit cpu_mask_intersection_def cpu_mask_wf_def bitmap_bits_def
      less_mult_imp_div_less bit_simps)

lemma cpus_union:
  "cpu_mask_wf m \<Longrightarrow> cpu_mask_wf n \<Longrightarrow> cpus (cpu_mask_union m n) = cpus m \<union> cpus n"
  by (auto simp: cpus_def bitmap_test_bit cpu_mask_union_def cpu_mask_wf_def bitmap_bits_def
      less_mult_imp_div_less bit_simps)

lemma cpus_empty: "cpus cpu_mask_empty = {}"
  by (auto simp: cpus_def cpu_mask_empty_def bitmap_test_bit bitmap_bits_def less_mult_imp_div_less)

lemma cpus_full: "cpus cpu_mask_full = {..<256}"
  by (auto simp: cpus_def cpu_mask_full_def bitmap_test_bit bitmap_bits_def less_mult_imp_div_less)

lemma cpus_one: "cpu_valid c \<Longrightarrow> cpus (cpu_mask_one c) = {as_usize c}"
proof -
  assume c: "cpu_valid c"
  then have "cpu_mask_one c = cpu_mask_insert cpu_mask_empty c"
    by (simp add: cpu_mask_one_def cpu_mask_insert_def cpu_mask_empty_def cpu_valid_def
        less_mult_imp_div_less)
  with c show ?thesis by (simp add: cpus_insert cpus_empty)
qed

lemma count_eq_card: "cpu_mask_count m = card (cpus m)"
  by (simp add: cpu_mask_count_def cpus_def sum_count_ones_eq_card)

lemma finite_cpus [simp]: "finite (cpus m)"
  by (simp add: cpus_def)

lemma is_empty_iff_cpus: "cpu_mask_is_empty m \<longleftrightarrow> cpus m = {}"
  by (simp only: cpu_mask_is_empty_def cpus_def all_zero_words)

lemma first_from_scan: "cpu_mask_first_from i ws = Option.bind (scan_words i ws) cpu_index_new"
  by (induction ws arbitrary: i) auto

lemma first_eq_Min:
  "cpu_mask_wf m \<Longrightarrow>
     cpu_mask_first m = (if cpus m = {} then None else cpu_index_new (Min (cpus m)))"
  unfolding cpu_mask_first_def first_from_scan scan_words_Min cpus_def [symmetric] by simp

text \<open>
  A CPU mask implements the algebra of sets of CPU indices: every operation computes the
  set operation it is named after, \<open>count\<close> is the cardinality and \<open>first\<close> the least member.
\<close>

theorem cpu_mask_refines_sets:
  assumes "cpu_mask_wf m" "cpu_mask_wf n" "cpu_valid c"
  shows "cpus (cpu_mask_insert m c) = insert (as_usize c) (cpus m)
    \<and> cpus (cpu_mask_remove m c) = cpus m - {as_usize c}
    \<and> (cpu_mask_contains m c \<longleftrightarrow> as_usize c \<in> cpus m)
    \<and> cpus (cpu_mask_union m n) = cpus m \<union> cpus n
    \<and> cpus (cpu_mask_intersection m n) = cpus m \<inter> cpus n
    \<and> cpus (cpu_mask_one c) = {as_usize c}
    \<and> cpu_mask_count m = card (cpus m)
    \<and> (cpu_mask_is_empty m \<longleftrightarrow> cpus m = {})
    \<and> cpu_mask_first m = (if cpus m = {} then None else cpu_index_new (Min (cpus m)))"
  using assms
  by (simp add: cpus_insert cpus_remove contains_iff_cpus cpus_union cpus_intersection cpus_one
      count_eq_card is_empty_iff_cpus first_eq_Min)

theorem cpu_mask_refines_sets_witness:
  "cpu_mask_wf (cpu_mask_one (CpuIndex 70)) \<and> cpu_mask_wf cpu_mask_full \<and> cpu_valid (CpuIndex 5)
   \<and> cpus (cpu_mask_insert (cpu_mask_one (CpuIndex 70)) (CpuIndex 5)) =
       insert 5 (cpus (cpu_mask_one (CpuIndex 70)))
   \<and> cpu_mask_count (cpu_mask_one (CpuIndex 70)) = card (cpus (cpu_mask_one (CpuIndex 70)))"
  using cpu_mask_refines_sets [of "cpu_mask_one (CpuIndex 70)" cpu_mask_full "CpuIndex 5"]
  by (simp add: cpu_valid_def as_usize_def)

end
