(* ===== verification/Task_Identity.thy ===== *)
theory Task_Identity
  imports Rust_Prelude
begin

unbundle bit_operations_syntax

text \<open>
  Stable task identities and the global slot allocator (\<open>huesos-sched/src/lib.rs\<close>, \<open>TaskId\<close>
  and \<open>TaskSlotAllocator\<close>). An identity packs a 13-bit registry slot below a 51-bit
  generation. The allocator hands out the least free slot with a generation that grows at each
  reuse; the lemmas show that no identity is handed out twice, which is what makes a stale
  identity recognisable.
\<close>

section \<open>Packed identities\<close>

definition MAX_TASKS :: nat where
  [simp]: "MAX_TASKS = 8192"

definition TASK_INDEX_BITS :: nat where
  [simp]: "TASK_INDEX_BITS = 13"

definition TASK_INDEX_MASK :: u64 where
  "TASK_INDEX_MASK = push_bit TASK_INDEX_BITS 1 - 1"

definition MAX_TASK_GENERATION :: u64 where
  "MAX_TASK_GENERATION = drop_bit TASK_INDEX_BITS (- 1)"

datatype task_id = TaskId (task_raw: u64)

instantiation task_id :: linorder
begin

definition less_eq_task_id :: "task_id \<Rightarrow> task_id \<Rightarrow> bool" where
  "less_eq_task_id a b \<longleftrightarrow> task_raw a \<le> task_raw b"

definition less_task_id :: "task_id \<Rightarrow> task_id \<Rightarrow> bool" where
  "less_task_id a b \<longleftrightarrow> task_raw a < task_raw b"

instance
  by standard (auto simp: less_eq_task_id_def less_task_id_def intro: task_id.expand)

end

definition task_slot :: "task_id \<Rightarrow> nat" where
  "task_slot tid = unat (task_raw tid AND TASK_INDEX_MASK)"

definition task_generation :: "task_id \<Rightarrow> u64" where
  "task_generation tid = drop_bit TASK_INDEX_BITS (task_raw tid)"

definition task_id_new :: "nat \<Rightarrow> u64 \<Rightarrow> task_id option" where
  "task_id_new slot generation =
     (if MAX_TASKS \<le> slot \<or> generation = 0 \<or> MAX_TASK_GENERATION < generation then None
      else Some (TaskId (push_bit TASK_INDEX_BITS generation OR of_nat slot)))"

definition task_id_from_raw :: "u64 \<Rightarrow> task_id option" where
  "task_id_from_raw r =
     (if r = 0 then None
      else let tid = TaskId r in
        if task_slot tid < MAX_TASKS \<and> task_generation tid \<noteq> 0 then Some tid else None)"

definition task_next_generation :: "task_id \<Rightarrow> task_id option" where
  "task_next_generation tid =
     (let generation = task_generation tid in
      if generation = MAX_TASK_GENERATION then None
      else task_id_new (task_slot tid) (generation + 1))"

definition task_id_valid :: "task_id \<Rightarrow> bool" where
  "task_id_valid tid \<longleftrightarrow> task_generation tid \<noteq> 0"

lemma index_mask: "TASK_INDEX_MASK = mask 13"
  by (simp add: TASK_INDEX_MASK_def mask_eq_exp_minus_1 push_bit_of_1)

lemma max_generation: "unat MAX_TASK_GENERATION = 2 ^ 51 - 1"
  by (simp add: MAX_TASK_GENERATION_def unat_drop_bit_eq drop_bit_eq_div unat_minus_one_word_nat)

lemma task_slot_mod: "task_slot tid = unat (task_raw tid) mod 8192"
proof -
  have "task_raw tid AND TASK_INDEX_MASK = task_raw tid mod 8192"
    using take_bit_eq_mask [of 13 "task_raw tid"] by (simp add: index_mask take_bit_eq_mod)
  then show ?thesis by (simp add: task_slot_def unat_mod_word)
qed

lemma task_generation_div: "unat (task_generation tid) = unat (task_raw tid) div 8192"
  by (simp add: task_generation_def drop_bit_eq_div unat_div_word)

lemma task_slot_lt: "task_slot tid < MAX_TASKS"
  by (simp add: task_slot_mod)

lemma generation_le_max: "task_generation tid \<le> MAX_TASK_GENERATION"
proof -
  have "unat (task_raw tid) < 2 ^ 64" using unat_lt_pow [of "task_raw tid"] by simp
  then have "unat (task_raw tid) div 8192 \<le> 2 ^ 51 - 1" by simp
  then show ?thesis by (simp add: word_le_nat_alt task_generation_div max_generation)
qed

lemma unat_packed:
  assumes "slot < MAX_TASKS" "generation \<le> MAX_TASK_GENERATION"
  shows "unat (push_bit TASK_INDEX_BITS generation OR of_nat slot) = unat generation * 8192 + slot"
proof -
  have g: "unat generation \<le> 2 ^ 51 - 1"
    using assms(2) by (simp add: word_le_nat_alt max_generation)
  have s: "unat (of_nat slot :: u64) = slot"
    using assms(1) by (simp add: unat_of_nat)
  have "push_bit 13 generation OR of_nat slot = push_bit 13 generation + (of_nat slot :: u64)"
  proof (rule disjunctive_add_eq_or [symmetric], rule bit_word_eqI)
    fix n assume "n < LENGTH(64)"
    have "\<not> bit slot n" if "13 \<le> n"
    proof -
      have "slot < 2 ^ n"
        using assms(1) power_increasing [OF that, of "2::nat"] by simp
      then show ?thesis by (simp add: bit_iff_odd)
    qed
    then show "bit (push_bit 13 generation AND (of_nat slot :: u64)) n = bit (0 :: u64) n"
      by (auto simp: bit_simps)
  qed
  moreover have "unat (push_bit 13 generation :: u64) = unat generation * 8192"
    using g by (simp add: push_bit_eq_mult unat_word_ariths)
  ultimately show ?thesis
    using g s assms(1) by (simp add: unat_word_ariths)
qed

lemma task_id_new_Some:
  "task_id_new slot generation = Some tid \<longleftrightarrow>
     generation \<noteq> 0 \<and> task_slot tid = slot \<and> task_generation tid = generation"
proof
  assume new: "task_id_new slot generation = Some tid"
  then have ok: "slot < MAX_TASKS" "generation \<le> MAX_TASK_GENERATION" "generation \<noteq> 0"
    and raw: "unat (task_raw tid) = unat generation * 8192 + slot"
    using unat_packed [of slot generation]
    by (auto simp: task_id_new_def not_le not_less split: if_splits)
  then show "generation \<noteq> 0 \<and> task_slot tid = slot \<and> task_generation tid = generation"
    by (simp add: task_slot_mod word_unat_eq_iff [of "task_generation tid"] task_generation_div)
next
  assume *: "generation \<noteq> 0 \<and> task_slot tid = slot \<and> task_generation tid = generation"
  then have ok: "slot < MAX_TASKS" "generation \<le> MAX_TASK_GENERATION"
    using task_slot_lt generation_le_max by auto
  have "unat (task_raw tid) = unat generation * 8192 + slot"
    using * by (auto simp: task_generation_div task_slot_mod)
  then show "task_id_new slot generation = Some tid"
    using ok * unat_packed [OF ok]
    by (cases tid) (auto simp: task_id_new_def word_unat_eq_iff [of "task_raw tid"] not_le not_less
        simp flip: unat_inject)
qed

lemma task_id_from_raw_Some:
  "task_id_from_raw r = Some tid \<longleftrightarrow> task_raw tid = r \<and> task_generation tid \<noteq> 0"
proof -
  have "task_generation (TaskId 0) = 0" by (simp add: task_generation_def)
  then show ?thesis
    using task_slot_lt by (cases tid) (auto simp: task_id_from_raw_def Let_def)
qed

lemma task_id_eq_iff:
  "s = t \<longleftrightarrow> task_slot s = task_slot t \<and> task_generation s = task_generation t"
proof -
  have "unat (task_raw s) = unat (task_raw t)"
    if "task_slot s = task_slot t" "unat (task_generation s) = unat (task_generation t)"
    using that div_mod_eq_iff [of "unat (task_raw s)" "unat (task_raw t)" 8192]
    by (simp add: task_slot_mod task_generation_div)
  then show ?thesis by (cases s; cases t) (auto simp: unat_inject)
qed

lemma task_id_new_defined:
  "(\<exists>tid. task_id_new slot generation = Some tid) \<longleftrightarrow>
     slot < MAX_TASKS \<and> generation \<noteq> 0 \<and> generation \<le> MAX_TASK_GENERATION"
  by (auto simp: task_id_new_def)

text \<open>
  C35: packing a slot and a generation into an identity loses nothing: \<open>new\<close> succeeds exactly on
  the slots below the table size with a generation that fits 51 bits, \<open>slot\<close> and \<open>generation\<close>
  read back what was packed, \<open>from_raw\<close> accepts exactly the raw words with a generation, and
  two identities with the same slot and generation are equal.
\<close>

theorem task_id_codec:
  "(task_id_new slot generation = Some tid \<longleftrightarrow>
      generation \<noteq> 0 \<and> task_slot tid = slot \<and> task_generation tid = generation)
   \<and> ((\<exists>t. task_id_new slot generation = Some t) \<longleftrightarrow>
      slot < MAX_TASKS \<and> generation \<noteq> 0 \<and> generation \<le> MAX_TASK_GENERATION)
   \<and> (task_id_from_raw r = Some tid \<longleftrightarrow> task_raw tid = r \<and> task_generation tid \<noteq> 0)
   \<and> (tid = tid' \<longleftrightarrow> task_slot tid = task_slot tid' \<and> task_generation tid = task_generation tid')"
  by (intro conjI) (rule task_id_new_Some task_id_new_defined task_id_from_raw_Some task_id_eq_iff)+

section \<open>The slot allocator\<close>

datatype directory_error =
    InvalidLocalIndex | InvalidOperations | StaleIdentity | Busy | PendingOperations | NotAllocated

record slot_allocator =
  sa_words :: "u64 list"
  sa_generations :: "u64 list"

definition slot_allocator_new :: slot_allocator where
  "slot_allocator_new =
     \<lparr>sa_words = replicate (MAX_TASKS div 64) 0, sa_generations = replicate MAX_TASKS 0\<rparr>"

fun slot_scan :: "nat \<Rightarrow> u64 list \<Rightarrow> nat option" where
  "slot_scan word_index [] = None"
| "slot_scan word_index (word # words) =
     (if word = - 1 then slot_scan (Suc word_index) words
      else Some (word_index * 64 + trailing_zeros (NOT word)))"

definition slot_allocate :: "slot_allocator \<Rightarrow> (nat \<times> u64) option \<times> slot_allocator" where
  "slot_allocate a =
     (case slot_scan 0 (sa_words a) of
        None \<Rightarrow> (None, a)
      | Some slot \<Rightarrow>
          let word_index = slot div 64; bit = slot mod 64;
              previous = sa_generations a ! slot;
              a' = a\<lparr>sa_words := (sa_words a)[word_index := sa_words a ! word_index OR push_bit bit 1],
                     sa_generations := (sa_generations a)[slot := previous + 1]\<rparr>
          in if previous = - 1 then (None, a') else (Some (slot, previous + 1), a'))"

definition slot_free :: "slot_allocator \<Rightarrow> nat \<Rightarrow> (directory_error + unit) \<times> slot_allocator" where
  "slot_free a slot =
     (if MAX_TASKS \<le> slot then (Inl InvalidLocalIndex, a)
      else let word_index = slot div 64; m = push_bit (slot mod 64) 1; word = sa_words a ! word_index
        in if word AND m = 0 then (Inl NotAllocated, a)
           else (Inr (), a\<lparr>sa_words := (sa_words a)[word_index := word AND NOT m]\<rparr>))"

definition slot_is_allocated :: "slot_allocator \<Rightarrow> nat \<Rightarrow> bool" where
  "slot_is_allocated a slot \<longleftrightarrow>
     slot < MAX_TASKS \<and> sa_words a ! (slot div 64) AND push_bit (slot mod 64) 1 \<noteq> 0"

definition slot_allocator_wf :: "slot_allocator \<Rightarrow> bool" where
  "slot_allocator_wf a \<longleftrightarrow>
     length (sa_words a) = MAX_TASKS div 64 \<and> length (sa_generations a) = MAX_TASKS"

lemma slot_scan_scan_words: "slot_scan i ws = scan_words i (map NOT ws)"
proof -
  have "NOT w \<noteq> 0 \<longleftrightarrow> w \<noteq> - 1" for w :: u64
    by (metis bit.compl_zero bit.double_compl)
  then show ?thesis by (induction ws arbitrary: i) auto
qed

lemma slot_bits [simp]: "slot_allocator_wf a \<Longrightarrow> bitmap_bits (sa_words a) = 8192"
  by (simp add: slot_allocator_wf_def bitmap_bits_def)

lemma slot_is_allocated_bitmap:
  "slot_is_allocated a slot \<longleftrightarrow> slot < MAX_TASKS \<and> bitmap_test (sa_words a) slot"
  by (simp add: slot_is_allocated_def bitmap_test_def)

definition free_slots :: "slot_allocator \<Rightarrow> nat set" where
  "free_slots a = {slot. slot < MAX_TASKS \<and> \<not> slot_is_allocated a slot}"

lemma slot_scan_least:
  "slot_allocator_wf a \<Longrightarrow>
     slot_scan 0 (sa_words a) = (if free_slots a = {} then None else Some (Min (free_slots a)))"
proof -
  assume wf: "slot_allocator_wf a"
  then have "{j. j < bitmap_bits (sa_words a) \<and> \<not> bitmap_test (sa_words a) j} = free_slots a"
    by (auto simp: free_slots_def slot_is_allocated_bitmap)
  then show ?thesis
    by (simp only: slot_scan_scan_words scan_words_not_Min)
qed

lemma slot_allocate_cases:
  assumes "slot_allocator_wf a"
  shows "slot_allocate a =
    (if free_slots a = {} then (None, a)
     else let slot = Min (free_slots a); previous = sa_generations a ! slot;
              a' = a\<lparr>sa_words := bitmap_set (sa_words a) slot,
                     sa_generations := (sa_generations a)[slot := previous + 1]\<rparr>
          in (if previous = - 1 then None else Some (slot, previous + 1), a'))"
  by (simp add: slot_allocate_def slot_scan_least [OF assms] bitmap_set_def Let_def)

lemma finite_free_slots [simp]: "finite (free_slots a)"
  by (simp add: free_slots_def)

lemma Min_free_slots:
  "free_slots a \<noteq> {} \<Longrightarrow> Min (free_slots a) < MAX_TASKS \<and> \<not> slot_is_allocated a (Min (free_slots a))"
  using Min_in [of "free_slots a"] by (simp add: free_slots_def)

lemma slot_free_cases:
  "slot_free a slot =
     (if MAX_TASKS \<le> slot then (Inl InvalidLocalIndex, a)
      else if slot_is_allocated a slot
        then (Inr (), a\<lparr>sa_words := bitmap_clear (sa_words a) slot\<rparr>)
        else (Inl NotAllocated, a))"
  by (simp add: slot_free_def slot_is_allocated_def bitmap_clear_def Let_def)

lemma is_allocated_set:
  "slot_allocator_wf a \<Longrightarrow> slot < MAX_TASKS \<Longrightarrow>
     slot_is_allocated (a\<lparr>sa_words := bitmap_set (sa_words a) slot, sa_generations := gs\<rparr>) s \<longleftrightarrow>
       s = slot \<or> slot_is_allocated a s"
  by (auto simp: slot_is_allocated_bitmap bitmap_test_set)

lemma is_allocated_clear:
  "slot_allocator_wf a \<Longrightarrow> slot < MAX_TASKS \<Longrightarrow>
     slot_is_allocated (a\<lparr>sa_words := bitmap_clear (sa_words a) slot\<rparr>) s \<longleftrightarrow>
       s \<noteq> slot \<and> slot_is_allocated a s"
  by (auto simp: slot_is_allocated_bitmap bitmap_test_clear)

text \<open>
  one call of the allocator. It fails only when every slot is taken or when the least free
  slot has used up its generations; otherwise it returns that slot, marks it taken, and returns
  the generation after the last one handed out for it. Releasing it restores the free slots.
\<close>

theorem slot_allocate_correct:
  assumes "slot_allocator_wf a" "free_slots a \<noteq> {}"
    and "sa_generations a ! Min (free_slots a) \<noteq> - 1"
  shows "\<exists>a'. slot_allocate a =
        (Some (Min (free_slots a), sa_generations a ! Min (free_slots a) + 1), a')
      \<and> free_slots a' = free_slots a - {Min (free_slots a)}
      \<and> (\<exists>a''. slot_free a' (Min (free_slots a)) = (Inr (), a'') \<and> free_slots a'' = free_slots a)"
proof -
  let ?s = "Min (free_slots a)"
  let ?a' = "a\<lparr>sa_words := bitmap_set (sa_words a) ?s,
      sa_generations := (sa_generations a)[?s := sa_generations a ! ?s + 1]\<rparr>"
  let ?a'' = "?a'\<lparr>sa_words := bitmap_clear (sa_words ?a') ?s\<rparr>"
  have s: "?s < MAX_TASKS" "\<not> slot_is_allocated a ?s"
    using Min_free_slots [OF assms(2)] by simp_all
  have wf': "slot_allocator_wf ?a'"
    using assms(1) by (simp add: slot_allocator_wf_def)
  have "slot_allocate a = (Some (?s, sa_generations a ! ?s + 1), ?a')"
    using assms by (simp add: slot_allocate_cases Let_def)
  moreover have "free_slots ?a' = free_slots a - {?s}"
    using s assms(1) by (auto simp: free_slots_def is_allocated_set simp del: MAX_TASKS_def)
  moreover have "slot_free ?a' ?s = (Inr (), ?a'')"
    using s assms(1) by (simp add: slot_free_cases is_allocated_set)
  moreover have "free_slots ?a'' = free_slots a"
    using s assms(1) wf' is_allocated_clear [OF wf' s(1)]
    by (auto simp: free_slots_def is_allocated_set simp del: MAX_TASKS_def)
  ultimately show ?thesis by blast
qed

lemma slot_allocator_wf_new: "slot_allocator_wf slot_allocator_new"
  by (simp add: slot_allocator_new_def slot_allocator_wf_def)

lemma free_slots_new: "free_slots slot_allocator_new = {..<8192}"
  by (auto simp: free_slots_def slot_is_allocated_def slot_allocator_new_def less_mult_imp_div_less)

lemma Min_free_slots_new: "Min (free_slots slot_allocator_new) = 0"
  unfolding free_slots_new by (rule Min_eqI) auto

lemma free_slots_new_nonempty: "free_slots slot_allocator_new \<noteq> {}"
  by (simp add: free_slots_new lessThan_empty_iff)

lemma slot_generations_new: "slot < MAX_TASKS \<Longrightarrow> sa_generations slot_allocator_new ! slot = 0"
  by (simp add: slot_allocator_new_def)

theorem slot_allocate_correct_witness:
  "slot_allocator_wf slot_allocator_new \<and> free_slots slot_allocator_new \<noteq> {}
   \<and> sa_generations slot_allocator_new ! Min (free_slots slot_allocator_new) \<noteq> - 1
   \<and> (\<exists>a'. slot_allocate slot_allocator_new = (Some (0, 1), a') \<and> free_slots a' = {..<8192} - {0})"
  using slot_allocate_correct [OF slot_allocator_wf_new free_slots_new_nonempty]
    slot_allocator_wf_new free_slots_new_nonempty
  unfolding Min_free_slots_new free_slots_new [symmetric] by (auto simp: slot_generations_new)

text \<open>
  The allocator under its protocol: a task that received a pair releases its slot at most once.
  The history records every pair handed out.
\<close>

record slot_world =
  sw_alloc :: slot_allocator
  sw_held :: "(nat \<times> u64) set"
  sw_issued :: "(nat \<times> u64) list"

inductive slot_step :: "slot_world \<Rightarrow> slot_world \<Rightarrow> bool" where
  allocated: "slot_allocate (sw_alloc w) = (Some p, a') \<Longrightarrow>
    slot_step w (w\<lparr>sw_alloc := a', sw_held := insert p (sw_held w), sw_issued := p # sw_issued w\<rparr>)"
| exhausted: "slot_allocate (sw_alloc w) = (None, a') \<Longrightarrow> slot_step w (w\<lparr>sw_alloc := a'\<rparr>)"
| released: "(slot, g) \<in> sw_held w \<Longrightarrow> slot_free (sw_alloc w) slot = (Inr (), a') \<Longrightarrow>
    slot_step w (w\<lparr>sw_alloc := a', sw_held := sw_held w - {(slot, g)}\<rparr>)"

definition slot_world_start :: "slot_world \<Rightarrow> bool" where
  "slot_world_start w \<longleftrightarrow>
     sw_alloc w = slot_allocator_new \<and> sw_held w = {} \<and> sw_issued w = []"

text \<open>A slot whose generation counter wrapped is never free again: it is taken, by nobody.\<close>

definition slot_retired :: "slot_allocator \<Rightarrow> nat \<Rightarrow> bool" where
  "slot_retired a slot \<longleftrightarrow> slot_is_allocated a slot \<and> sa_generations a ! slot = 0"

definition slot_world_inv :: "slot_world \<Rightarrow> bool" where
  "slot_world_inv w \<longleftrightarrow>
     slot_allocator_wf (sw_alloc w) \<and> distinct (sw_issued w) \<and> sw_held w \<subseteq> set (sw_issued w)
   \<and> (\<forall>slot g. (slot, g) \<in> sw_held w \<longrightarrow> slot_is_allocated (sw_alloc w) slot
        \<and> sa_generations (sw_alloc w) ! slot = g \<and> g \<noteq> 0)
   \<and> (\<forall>slot g. (slot, g) \<in> set (sw_issued w) \<longrightarrow> slot < MAX_TASKS
        \<and> (slot_retired (sw_alloc w) slot \<or> g \<le> sa_generations (sw_alloc w) ! slot))"

lemma slot_world_inv_start: "slot_world_start w \<Longrightarrow> slot_world_inv w"
  by (simp add: slot_world_start_def slot_world_inv_def slot_allocator_new_def slot_allocator_wf_def)

text \<open>Taking the least free slot: the wrapped counter retires it, any other is the next generation.\<close>

lemma slot_take_inv:
  assumes inv: "slot_world_inv w" and free: "free_slots (sw_alloc w) \<noteq> {}"
    and s: "s = Min (free_slots (sw_alloc w))" and p: "p = sa_generations (sw_alloc w) ! s"
    and a': "a' = (sw_alloc w)\<lparr>sa_words := bitmap_set (sa_words (sw_alloc w)) s,
        sa_generations := (sa_generations (sw_alloc w))[s := p + 1]\<rparr>"
  shows "p = - 1 \<Longrightarrow> slot_world_inv (w\<lparr>sw_alloc := a'\<rparr>)"
    and "p \<noteq> - 1 \<Longrightarrow> slot_world_inv (w\<lparr>sw_alloc := a', sw_held := insert (s, p + 1) (sw_held w),
        sw_issued := (s, p + 1) # sw_issued w\<rparr>)"
proof -
  let ?a = "sw_alloc w"
  have wf: "slot_allocator_wf ?a" and s_free: "s < MAX_TASKS" "\<not> slot_is_allocated ?a s"
    using inv Min_free_slots [OF free] by (simp_all add: slot_world_inv_def s)
  have wf': "slot_allocator_wf a'"
    using wf by (simp add: a' slot_allocator_wf_def)
  have taken: "slot_is_allocated a' t \<longleftrightarrow> t = s \<or> slot_is_allocated ?a t" for t
    unfolding a' by (rule is_allocated_set [OF wf s_free(1)])
  have gen: "sa_generations a' ! t = (if t = s then p + 1 else sa_generations ?a ! t)" for t
    using wf s_free(1) by (simp add: a' slot_allocator_wf_def nth_list_update)
  have held: "t \<noteq> s" if "(t, g) \<in> sw_held w" for t g
    using that inv s_free(2) by (auto simp: slot_world_inv_def)
  have issued: "g \<le> p" if "(s, g) \<in> set (sw_issued w)" for g
    using that inv s_free(2) by (auto simp: slot_world_inv_def slot_retired_def p)
  show "slot_world_inv (w\<lparr>sw_alloc := a'\<rparr>)" if "p = - 1"
    using inv wf' held that by (auto simp: slot_world_inv_def slot_retired_def taken gen)
  assume "p \<noteq> - 1"
  then have less: "p < p + 1" "p + 1 \<noteq> 0"
    using unat_plus_one [of p] by (simp_all add: word_less_nat_alt word_unat_eq_iff)
  then have "(s, p + 1) \<notin> set (sw_issued w)" "\<And>g. (s, g) \<in> set (sw_issued w) \<Longrightarrow> g \<le> p + 1"
    using issued by (meson leD, meson less_imp_le order_trans)
  then show "slot_world_inv (w\<lparr>sw_alloc := a', sw_held := insert (s, p + 1) (sw_held w),
      sw_issued := (s, p + 1) # sw_issued w\<rparr>)"
    using inv wf' held s_free less issued
    by (auto simp: slot_world_inv_def slot_retired_def taken gen)
qed

lemma slot_release_inv:
  assumes inv: "slot_world_inv w" and held: "(slot, g) \<in> sw_held w"
    and free: "slot_free (sw_alloc w) slot = (Inr (), a')"
  shows "slot_world_inv (w\<lparr>sw_alloc := a', sw_held := sw_held w - {(slot, g)}\<rparr>)"
proof -
  let ?a = "sw_alloc w"
  have wf: "slot_allocator_wf ?a" and a': "a' = ?a\<lparr>sa_words := bitmap_clear (sa_words ?a) slot\<rparr>"
    and slot: "slot < MAX_TASKS"
    using inv free by (auto simp: slot_world_inv_def slot_free_cases split: if_splits)
  have taken: "slot_is_allocated a' t \<longleftrightarrow> t \<noteq> slot \<and> slot_is_allocated ?a t" for t
    unfolding a' by (rule is_allocated_clear [OF wf slot])
  have "sa_generations ?a ! slot \<noteq> 0"
    using inv held by (auto simp: slot_world_inv_def)
  then have retired: "slot_retired a' t = slot_retired ?a t" for t
    by (auto simp: slot_retired_def taken) (simp_all add: a')
  have "slot_allocator_wf a'" "sa_generations a' = sa_generations ?a"
    using wf by (simp_all add: a' slot_allocator_wf_def)
  moreover have "t \<noteq> slot" if "(t, h) \<in> sw_held w" "(t, h) \<noteq> (slot, g)" for t h
    using that inv held unfolding slot_world_inv_def by blast
  ultimately show ?thesis
    using inv by (auto simp: slot_world_inv_def retired taken)
qed

lemma slot_step_inv: "slot_step w w' \<Longrightarrow> slot_world_inv w \<Longrightarrow> slot_world_inv w'"
proof (induction rule: slot_step.induct)
  case (allocated w p a')
  then have "slot_allocator_wf (sw_alloc w)" by (simp add: slot_world_inv_def)
  with allocated slot_take_inv(2) [OF allocated.prems _ refl refl refl] show ?case
    by (auto simp: slot_allocate_cases Let_def split: if_splits)
next
  case (exhausted w a')
  then have "slot_allocator_wf (sw_alloc w)" by (simp add: slot_world_inv_def)
  with exhausted slot_take_inv(1) [OF exhausted.prems _ refl refl refl] show ?case
    by (auto simp: slot_allocate_cases Let_def split: if_splits)
next
  case (released slot g w a')
  then show ?case by (blast intro: slot_release_inv)
qed

interpretation slot_protocol: invariant_machine slot_world_start slot_step slot_world_inv
  by unfold_locales (auto intro: slot_world_inv_start slot_step_inv)

text \<open>
  C17: over any history of allocations and releases, no (slot, generation) pair is ever handed out
  twice, and two live holders never share a slot. A stale identity therefore never equals a
  later one (the defence against slot reuse).
\<close>

theorem slot_identities_unique:
  assumes "slot_world_start w0" "slot_step\<^sup>*\<^sup>* w0 w"
  shows "distinct (sw_issued w)
    \<and> ((slot, g) \<in> sw_held w \<and> (slot, g') \<in> sw_held w \<longrightarrow> g = g')"
proof -
  have "slot_world_inv w" using assms by (rule slot_protocol.reachable_inv)
  then show ?thesis unfolding slot_world_inv_def by blast
qed

theorem slot_identities_unique_witness:
  "\<exists>w0 w. slot_world_start w0 \<and> slot_step\<^sup>*\<^sup>* w0 w \<and> (0, 1) \<in> sw_held w \<and> distinct (sw_issued w)"
proof -
  let ?start = "\<lparr>sw_alloc = slot_allocator_new, sw_held = {}, sw_issued = []\<rparr>"
  have start: "slot_world_start ?start" by (simp add: slot_world_start_def)
  obtain a' where "slot_allocate slot_allocator_new = (Some (0, 1), a')"
    by (simp add: slot_allocate_cases [OF slot_allocator_wf_new] free_slots_new_nonempty
        Min_free_slots_new slot_generations_new Let_def)
  then have "slot_step ?start (?start\<lparr>sw_alloc := a', sw_held := insert (0, 1) {}, sw_issued := [(0, 1)]\<rparr>)"
    (is "slot_step _ ?w")
    using slot_step.allocated [of ?start "(0, 1)" a'] by simp
  then have steps: "slot_step\<^sup>*\<^sup>* ?start ?w" by simp
  show ?thesis
    using start steps slot_identities_unique [OF start steps]
    by (intro exI [of _ ?start] exI [of _ ?w]) simp
qed

end
