(* ===== verification/Task_Directory.thy ===== *)
theory Task_Directory
  imports Cpu_Mask Task_Identity
begin

unbundle bit_operations_syntax

text \<open>
  The global task directory (\<open>huesos-sched/src/lib.rs\<close>, \<open>TaskDirectory\<close>): for each slot the
  published identity, its owner CPU and local queue index behind a sequence lock, and a word of
  pending remote operations tagged with the complete generation. The first part models each
  method as a whole; the second part lets the atomic accesses of a writer, a reader and any
  number of producers and consumers interleave, and shows that a reader never combines the owner
  of one publication with the index of another, and that a pending operation never crosses from
  one generation to the next. Every atomic access is one step and steps are sequentially
  consistent.
\<close>

section \<open>Entries and their methods\<close>

definition WAKE :: u64 where "WAKE = push_bit 0 1"
definition KILL :: u64 where "KILL = push_bit 1 1"
definition AFFINITY :: u64 where "AFFINITY = push_bit 2 1"
definition POLICY :: u64 where "POLICY = push_bit 3 1"
definition THROTTLE :: u64 where "THROTTLE = push_bit 4 1"
definition MIGRATION :: u64 where "MIGRATION = push_bit 5 1"

definition ALL_OPERATIONS :: u64 where
  "ALL_OPERATIONS = WAKE OR KILL OR AFFINITY OR POLICY OR THROTTLE OR MIGRATION"

record dir_entry =
  de_sequence :: u64
  de_published :: u64
  de_owner :: u64
  de_local :: u64
  de_pending :: u64

definition dir_entry_new :: dir_entry where
  "dir_entry_new =
     \<lparr>de_sequence = 0, de_published = 0, de_owner = 0, de_local = 0, de_pending = 0\<rparr>"

type_synonym directory = "dir_entry list"

definition directory_new :: directory where
  "directory_new = replicate MAX_TASKS dir_entry_new"

record task_location =
  loc_owner :: cpu_index
  loc_index :: u16

definition dir_published_id :: "directory \<Rightarrow> nat \<Rightarrow> task_id option" where
  "dir_published_id d slot =
     (if slot < length d then task_id_from_raw (de_published (d ! slot)) else None)"

text \<open>The single atomic accesses of a writer.\<close>

definition bump_sequence :: "dir_entry \<Rightarrow> dir_entry" where
  "bump_sequence e = e\<lparr>de_sequence := de_sequence e + 1\<rparr>"

definition store_owner :: "cpu_index \<Rightarrow> dir_entry \<Rightarrow> dir_entry" where
  "store_owner owner e = e\<lparr>de_owner := of_nat (as_usize owner)\<rparr>"

definition store_local :: "nat \<Rightarrow> dir_entry \<Rightarrow> dir_entry" where
  "store_local local_index e = e\<lparr>de_local := of_nat local_index\<rparr>"

definition generation_tag :: "task_id \<Rightarrow> u64" where
  "generation_tag tid = push_bit TASK_INDEX_BITS (task_generation tid)"

definition retag_pending :: "task_id \<Rightarrow> dir_entry \<Rightarrow> dir_entry" where
  "retag_pending tid e =
     e\<lparr>de_pending :=
        (if de_pending e AND NOT TASK_INDEX_MASK = generation_tag tid then de_pending e
         else generation_tag tid)\<rparr>"

definition store_id :: "task_id \<Rightarrow> dir_entry \<Rightarrow> dir_entry" where
  "store_id tid e = e\<lparr>de_published := task_raw tid\<rparr>"

definition publish_entry :: "task_id \<Rightarrow> cpu_index \<Rightarrow> nat \<Rightarrow> dir_entry \<Rightarrow> dir_entry" where
  "publish_entry tid owner local_index e =
     bump_sequence (store_id tid (retag_pending tid (store_local local_index
       (store_owner owner (bump_sequence e)))))"

definition dir_publish ::
  "directory \<Rightarrow> task_id \<Rightarrow> cpu_index \<Rightarrow> nat \<Rightarrow> (directory_error + unit) \<times> directory" where
  "dir_publish d tid owner local_index =
     (if MAX_TASKS \<le> local_index \<or> 65535 < local_index then (Inl InvalidLocalIndex, d)
      else
        let e = d ! task_slot tid; current = de_published e in
        if current \<noteq> 0 \<and>
           (case task_id_from_raw current of
              None \<Rightarrow> True
            | Some existing \<Rightarrow> task_slot existing \<noteq> task_slot tid)
        then (Inl StaleIdentity, d)
        else (Inr (), d[task_slot tid := publish_entry tid owner local_index e]))"

definition locate_result :: "u64 \<Rightarrow> u64 \<Rightarrow> directory_error + task_location" where
  "locate_result owner local_index =
     (case cpu_index_new (unat owner) of
        None \<Rightarrow> Inl StaleIdentity
      | Some cpu \<Rightarrow>
          if unat local_index < 2 ^ 16
          then Inr \<lparr>loc_owner = cpu, loc_index = of_nat (unat local_index)\<rparr>
          else Inl InvalidLocalIndex)"

text \<open>
  \<open>locate\<close> on an entry nobody else writes: the second read of the sequence returns what the
  first one did, so the retry is taken only while the sequence is odd.
\<close>

fun locate_loop :: "nat \<Rightarrow> dir_entry \<Rightarrow> task_id \<Rightarrow> directory_error + task_location" where
  "locate_loop 0 e tid = Inl Busy"
| "locate_loop (Suc n) e tid =
     (let before = de_sequence e in
      if before AND 1 \<noteq> 0 then locate_loop n e tid
      else if de_published e \<noteq> task_raw tid then Inl StaleIdentity
      else locate_result (de_owner e) (de_local e))"

definition dir_locate :: "directory \<Rightarrow> task_id \<Rightarrow> directory_error + task_location" where
  "dir_locate d tid = locate_loop 8 (d ! task_slot tid) tid"

definition operation_update :: "u64 \<Rightarrow> task_id \<Rightarrow> u64 \<Rightarrow> bool \<Rightarrow> u64 option" where
  "operation_update state tid operations take_flag =
     (if drop_bit TASK_INDEX_BITS state \<noteq> task_generation tid then None
      else Some (if take_flag then state AND NOT TASK_INDEX_MASK else state OR operations))"

definition dir_publish_operations ::
  "directory \<Rightarrow> task_id \<Rightarrow> u64 \<Rightarrow> (directory_error + bool) \<times> directory" where
  "dir_publish_operations d tid operations =
     (if operations AND NOT ALL_OPERATIONS \<noteq> 0 then (Inl InvalidOperations, d)
      else
        let e = d ! task_slot tid; previous = de_pending e in
        if de_published e \<noteq> task_raw tid then (Inl StaleIdentity, d)
        else case operation_update previous tid operations False of
            None \<Rightarrow> (Inl StaleIdentity, d)
          | Some st \<Rightarrow> (Inr (previous AND operations \<noteq> operations),
                        d[task_slot tid := e\<lparr>de_pending := st\<rparr>]))"

definition dir_take_operations ::
  "directory \<Rightarrow> task_id \<Rightarrow> (directory_error + u64) \<times> directory" where
  "dir_take_operations d tid =
     (let e = d ! task_slot tid; previous = de_pending e in
      if de_published e \<noteq> task_raw tid then (Inl StaleIdentity, d)
      else case operation_update previous tid 0 True of
          None \<Rightarrow> (Inl StaleIdentity, d)
        | Some st \<Rightarrow> (Inr (previous AND TASK_INDEX_MASK), d[task_slot tid := e\<lparr>de_pending := st\<rparr>]))"

definition unpublish_update :: "u64 \<Rightarrow> task_id \<Rightarrow> bool \<Rightarrow> u64 option" where
  "unpublish_update state tid discard_pending =
     (if drop_bit TASK_INDEX_BITS state \<noteq> task_generation tid \<or>
         (\<not> discard_pending \<and> state AND TASK_INDEX_MASK \<noteq> 0) then None
      else Some 0)"

definition unpublish_entry :: "dir_entry \<Rightarrow> dir_entry" where
  "unpublish_entry e =
     bump_sequence ((bump_sequence e)\<lparr>de_published := 0, de_owner := 0, de_local := 0\<rparr>)"

definition dir_unpublish ::
  "directory \<Rightarrow> task_id \<Rightarrow> bool \<Rightarrow> (directory_error + unit) \<times> directory" where
  "dir_unpublish d tid discard_pending =
     (let e = d ! task_slot tid; state = de_pending e in
      if de_published e \<noteq> task_raw tid then (Inl StaleIdentity, d)
      else case unpublish_update state tid discard_pending of
          None \<Rightarrow> (Inl (if drop_bit TASK_INDEX_BITS state = task_generation tid
                        then PendingOperations else StaleIdentity), d)
        | Some st \<Rightarrow> (Inr (), d[task_slot tid := unpublish_entry (e\<lparr>de_pending := st\<rparr>)]))"

definition dir_clear :: "directory \<Rightarrow> task_id \<Rightarrow> (directory_error + unit) \<times> directory" where
  "dir_clear d tid = dir_unpublish d tid False"

definition dir_retire :: "directory \<Rightarrow> task_id \<Rightarrow> (directory_error + unit) \<times> directory" where
  "dir_retire d tid = dir_unpublish d tid True"

section \<open>The tagged word of pending operations\<close>

lemma all_operations_mask: "ALL_OPERATIONS = mask 6"
  by (simp add: ALL_OPERATIONS_def WAKE_def KILL_def AFFINITY_def POLICY_def THROTTLE_def
      MIGRATION_def mask_eq_exp_minus_1)

lemma tag_part: "w AND NOT TASK_INDEX_MASK = push_bit 13 (drop_bit 13 w)"
  by (rule bit_word_eqI) (auto simp: index_mask bit_simps)

lemma tag_part_eq_iff:
  "w AND NOT TASK_INDEX_MASK = generation_tag tid \<longleftrightarrow> drop_bit 13 w = task_generation tid"
proof -
  have "drop_bit 13 (push_bit 13 (drop_bit 13 v)) = (drop_bit 13 v :: u64)" for v :: u64
    by (rule bit_word_eqI) (auto simp: bit_simps dest: bit_imp_le_length)
  then show ?thesis
    unfolding tag_part generation_tag_def TASK_INDEX_BITS_def task_generation_def by metis
qed

lemma generation_of_tag: "drop_bit 13 (generation_tag tid) = task_generation tid"
  by (rule bit_word_eqI)
    (auto simp: bit_simps generation_tag_def task_generation_def dest: bit_imp_le_length)

lemma flags_of_tag: "generation_tag tid AND TASK_INDEX_MASK = 0"
  by (rule bit_word_eqI) (auto simp: bit_simps generation_tag_def index_mask)

lemma small_operations:
  assumes "operations AND NOT ALL_OPERATIONS = 0"
  shows "drop_bit 13 operations = 0" "operations AND TASK_INDEX_MASK = operations"
proof -
  have low: "n < 6" if "bit operations n" for n
  proof (rule ccontr)
    assume "\<not> n < 6"
    with that have "bit (operations AND NOT ALL_OPERATIONS) n"
      using bit_imp_le_length [of operations n] by (simp add: all_operations_mask bit_simps)
    with assms show False by simp
  qed
  show "drop_bit 13 operations = 0" "operations AND TASK_INDEX_MASK = operations"
    by (rule bit_word_eqI; auto simp: bit_simps index_mask dest: low)+
qed

lemma taken_word:
  "drop_bit 13 (w AND NOT TASK_INDEX_MASK) = (drop_bit 13 w :: u64)"
  "(w AND NOT TASK_INDEX_MASK) AND TASK_INDEX_MASK = 0"
  by (rule bit_word_eqI; auto simp: bit_simps index_mask dest: bit_imp_le_length)+

lemma or_operations:
  "drop_bit 13 (w OR operations) = (drop_bit 13 w OR drop_bit 13 operations :: u64)"
  "(w OR operations) AND TASK_INDEX_MASK = (w AND TASK_INDEX_MASK) OR (operations AND TASK_INDEX_MASK)"
  by (rule bit_word_eqI; auto simp: bit_simps index_mask)+

section \<open>The directory as a map from slots to task records\<close>

record task_record =
  tr_id :: task_id
  tr_owner :: nat
  tr_local :: nat
  tr_flags :: u64

definition entry_abs :: "dir_entry \<Rightarrow> task_record option" where
  "entry_abs e =
     map_option (\<lambda>tid. \<lparr>tr_id = tid, tr_owner = unat (de_owner e), tr_local = unat (de_local e),
         tr_flags = de_pending e AND TASK_INDEX_MASK\<rparr>)
       (task_id_from_raw (de_published e))"

definition dir_abs :: "directory \<Rightarrow> nat \<rightharpoonup> task_record" where
  "dir_abs d slot = (if slot < length d then entry_abs (d ! slot) else None)"

definition entry_wf :: "nat \<Rightarrow> dir_entry \<Rightarrow> bool" where
  "entry_wf slot e \<longleftrightarrow> even (de_sequence e) \<and>
     (if de_published e = 0 then de_pending e = 0
      else task_generation (TaskId (de_published e)) \<noteq> 0
         \<and> task_slot (TaskId (de_published e)) = slot
         \<and> drop_bit 13 (de_pending e) = task_generation (TaskId (de_published e))
         \<and> unat (de_owner e) < MAX_CPUS \<and> unat (de_local e) < MAX_TASKS)"

definition dir_wf :: "directory \<Rightarrow> bool" where
  "dir_wf d \<longleftrightarrow> length d = MAX_TASKS \<and> (\<forall>slot < MAX_TASKS. entry_wf slot (d ! slot))"

lemma dir_wf_new: "dir_wf directory_new"
  by (simp add: dir_wf_def directory_new_def entry_wf_def dir_entry_new_def)

lemma raw_eq_iff: "task_raw s = task_raw t \<longleftrightarrow> s = t"
  by (cases s; cases t) simp

lemma TaskId_raw [simp]: "TaskId (task_raw tid) = tid"
  by (cases tid) simp

lemma valid_raw_nonzero: "task_id_valid tid \<Longrightarrow> task_raw tid \<noteq> 0"
  by (cases tid) (auto simp: task_id_valid_def task_generation_def)

lemma from_raw_valid: "task_id_valid tid \<Longrightarrow> task_id_from_raw (task_raw tid) = Some tid"
  by (simp add: task_id_from_raw_Some task_id_valid_def)

lemma even_bump: "even (de_sequence (bump_sequence (f (bump_sequence e)))) = even (de_sequence e)"
  if "\<And>x. de_sequence (f x) = de_sequence x"
  by (simp add: bump_sequence_def that)

lemma publish_entry_fields:
  "de_published (publish_entry tid cpu li e) = task_raw tid"
  "de_owner (publish_entry tid cpu li e) = of_nat (as_usize cpu)"
  "de_local (publish_entry tid cpu li e) = of_nat li"
  "even (de_sequence (publish_entry tid cpu li e)) = even (de_sequence e)"
  "drop_bit 13 (de_pending (publish_entry tid cpu li e)) = task_generation tid"
  "de_pending (publish_entry tid cpu li e) AND TASK_INDEX_MASK =
     (if drop_bit 13 (de_pending e) = task_generation tid then de_pending e AND TASK_INDEX_MASK else 0)"
  by (simp_all add: publish_entry_def bump_sequence_def store_owner_def store_local_def store_id_def
      retag_pending_def tag_part_eq_iff generation_of_tag flags_of_tag)

lemma publish_entry_wf:
  "entry_wf slot e \<Longrightarrow> task_id_valid tid \<Longrightarrow> task_slot tid = slot \<Longrightarrow> cpu_valid cpu \<Longrightarrow> li < MAX_TASKS \<Longrightarrow>
     entry_wf slot (publish_entry tid cpu li e)"
  by (simp add: entry_wf_def publish_entry_fields valid_raw_nonzero task_id_valid_def cpu_valid_def
      unat_of_nat)

lemma publish_entry_abs:
  assumes "task_id_valid tid" "cpu_valid cpu" "li < MAX_TASKS"
  shows "entry_abs (publish_entry tid cpu li e) =
    Some \<lparr>tr_id = tid, tr_owner = as_usize cpu, tr_local = li,
          tr_flags = (if drop_bit 13 (de_pending e) = task_generation tid
                      then de_pending e AND TASK_INDEX_MASK else 0)\<rparr>"
  using assms
  by (simp add: entry_abs_def publish_entry_fields from_raw_valid cpu_valid_def unat_of_nat)

lemma entry_abs_Some:
  "entry_wf slot e \<Longrightarrow> entry_abs e = Some r \<Longrightarrow>
     de_published e = task_raw (tr_id r) \<and> task_id_valid (tr_id r) \<and> task_slot (tr_id r) = slot
   \<and> drop_bit 13 (de_pending e) = task_generation (tr_id r)
   \<and> tr_flags r = de_pending e AND TASK_INDEX_MASK
   \<and> tr_owner r = unat (de_owner e) \<and> tr_local r = unat (de_local e)
   \<and> tr_owner r < MAX_CPUS \<and> tr_local r < MAX_TASKS"
  by (auto simp: entry_wf_def entry_abs_def task_id_valid_def task_id_from_raw_def Let_def
      split: if_splits)

lemma entry_abs_None: "entry_wf slot e \<Longrightarrow> entry_abs e = None \<longleftrightarrow> de_published e = 0"
  using task_slot_lt [of "TaskId (de_published e)"]
  by (auto simp: entry_wf_def entry_abs_def task_id_from_raw_def Let_def split: if_splits)

lemma dir_abs_update:
  "slot < length d \<Longrightarrow> dir_abs (d[slot := e]) = (dir_abs d)(slot := entry_abs e)"
  by (auto simp: dir_abs_def fun_eq_iff)

lemma dir_wf_update:
  assumes "dir_wf d" "entry_wf slot e"
  shows "dir_wf (d[slot := e])"
proof -
  have "entry_wf s (d[slot := e] ! s)" if "s < MAX_TASKS" for s
    using assms that by (cases "s = slot") (simp_all add: dir_wf_def)
  with assms(1) show ?thesis by (simp add: dir_wf_def)
qed

lemma dir_wf_entry: "dir_wf d \<Longrightarrow> entry_wf (task_slot tid) (d ! task_slot tid)"
  using task_slot_lt by (simp add: dir_wf_def)

lemma dir_abs_slot: "dir_wf d \<Longrightarrow> dir_abs d (task_slot tid) = entry_abs (d ! task_slot tid)"
  using task_slot_lt [of tid] by (simp add: dir_abs_def dir_wf_def)

lemma slot_lt_length: "dir_wf d \<Longrightarrow> task_slot tid < length d"
  using task_slot_lt [of tid] by (simp add: dir_wf_def)

lemma publish_check:
  assumes "dir_wf d"
  shows "\<not> (de_published (d ! task_slot tid) \<noteq> 0 \<and>
     (case task_id_from_raw (de_published (d ! task_slot tid)) of
        None \<Rightarrow> True | Some existing \<Rightarrow> task_slot existing \<noteq> task_slot tid))"
  using dir_wf_entry [OF assms, of tid] task_slot_lt [of tid]
  by (auto simp: entry_wf_def task_id_from_raw_def Let_def)

text \<open>
  C21: publishing an identity. On a well-formed directory it always succeeds for a local index in
  range, keeps the directory well-formed, changes only its own slot, and makes \<open>locate\<close> return
  the published location for that identity and \<open>StaleIdentity\<close> for every other generation of
  the slot. Pending operations survive a migration of the same identity and are dropped on reuse
  of the slot by a new generation.
\<close>

theorem dir_publish_refines:
  assumes wf: "dir_wf d" and tid: "task_id_valid tid" and cpu: "cpu_valid cpu"
    and li: "li < MAX_TASKS"
  shows "\<exists>d'. dir_publish d tid cpu li = (Inr (), d') \<and> dir_wf d'
    \<and> dir_abs d' = (dir_abs d)(task_slot tid \<mapsto>
        \<lparr>tr_id = tid, tr_owner = as_usize cpu, tr_local = li,
         tr_flags = (case dir_abs d (task_slot tid) of
             None \<Rightarrow> 0
           | Some r \<Rightarrow> if tr_id r = tid then tr_flags r else 0)\<rparr>)
    \<and> dir_locate d' tid = Inr \<lparr>loc_owner = cpu, loc_index = of_nat li\<rparr>
    \<and> (\<forall>other. task_slot other = task_slot tid \<and> other \<noteq> tid \<longrightarrow>
         dir_locate d' other = Inl StaleIdentity)"
proof -
  let ?e = "d ! task_slot tid" and ?slot = "task_slot tid"
  let ?e' = "publish_entry tid cpu li ?e"
  have e: "entry_wf ?slot ?e" and e': "entry_wf ?slot ?e'"
    using wf tid cpu li by (simp_all add: dir_wf_entry publish_entry_wf del: MAX_TASKS_def)
  have pub: "dir_publish d tid cpu li = (Inr (), d[?slot := ?e'])"
    using li publish_check [OF wf, of tid] by (simp add: dir_publish_def Let_def)
  have flags: "(if drop_bit 13 (de_pending ?e) = task_generation tid
        then de_pending ?e AND TASK_INDEX_MASK else 0) =
      (case entry_abs ?e of None \<Rightarrow> 0 | Some r \<Rightarrow> if tr_id r = tid then tr_flags r else 0)"
  proof (cases "entry_abs ?e")
    case None
    then have "de_pending ?e = 0"
      using e entry_abs_None [OF e] by (simp add: entry_wf_def)
    with None show ?thesis by simp
  next
    case (Some r)
    then show ?thesis
      using entry_abs_Some [OF e Some] by (auto simp: task_id_eq_iff)
  qed
  have at: "d[?slot := ?e'] ! ?slot = ?e'"
    using slot_lt_length [OF wf] by simp
  have even: "\<not> de_sequence ?e' AND 1 \<noteq> 0"
    using e' by (simp add: entry_wf_def and_one_eq even_iff_mod_2_eq_zero)
  have "locate_result (de_owner ?e') (de_local ?e') = Inr \<lparr>loc_owner = cpu, loc_index = of_nat li\<rparr>"
    using cpu li new_of_valid [OF cpu]
    by (simp add: locate_result_def publish_entry_fields unat_of_nat cpu_index_new_def cpu_valid_def)
  then have loc: "dir_locate (d[?slot := ?e']) t =
      (if t = tid then Inr \<lparr>loc_owner = cpu, loc_index = of_nat li\<rparr> else Inl StaleIdentity)"
    if "task_slot t = ?slot" for t
    using that even at by (auto simp: dir_locate_def numeral_eq_Suc publish_entry_fields raw_eq_iff)
  show ?thesis
    using pub dir_wf_update [OF wf e'] loc
      dir_abs_update [OF slot_lt_length [OF wf], of tid ?e'] publish_entry_abs [OF tid cpu li, of ?e]
      flags dir_abs_slot [OF wf, of tid]
    by auto
qed

section \<open>Remote operations against their contract\<close>

text \<open>
  What the operations promise over the abstract map: they act on the record of exactly the
  identity named, and on nothing when the slot holds another generation or none.
\<close>

definition spec_update ::
  "(nat \<rightharpoonup> task_record) \<Rightarrow> task_id \<Rightarrow> (task_record \<Rightarrow> directory_error + ('a \<times> task_record option)) \<Rightarrow>
     (directory_error + 'a) \<times> (nat \<rightharpoonup> task_record)" where
  "spec_update m tid f =
     (case m (task_slot tid) of
        None \<Rightarrow> (Inl StaleIdentity, m)
      | Some r \<Rightarrow>
          if tr_id r \<noteq> tid then (Inl StaleIdentity, m)
          else case f r of
              Inl e \<Rightarrow> (Inl e, m)
            | Inr (v, r') \<Rightarrow> (Inr v, m(task_slot tid := r')))"

definition spec_publish_operations where
  "spec_publish_operations m tid operations =
     spec_update m tid (\<lambda>r. Inr (tr_flags r AND operations \<noteq> operations,
                                 Some (r\<lparr>tr_flags := tr_flags r OR operations\<rparr>)))"

definition spec_take_operations where
  "spec_take_operations m tid =
     spec_update m tid (\<lambda>r. Inr (tr_flags r, Some (r\<lparr>tr_flags := 0\<rparr>)))"

definition spec_unpublish where
  "spec_unpublish m tid discard_pending =
     spec_update m tid (\<lambda>r. if \<not> discard_pending \<and> tr_flags r \<noteq> 0 then Inl PendingOperations
                            else Inr ((), None))"

lemma entry_abs_pending:
  "entry_wf slot e \<Longrightarrow> entry_abs e = Some r \<Longrightarrow> drop_bit 13 w = task_generation (tr_id r) \<Longrightarrow>
     entry_wf slot (e\<lparr>de_pending := w\<rparr>)
   \<and> entry_abs (e\<lparr>de_pending := w\<rparr>) = Some (r\<lparr>tr_flags := w AND TASK_INDEX_MASK\<rparr>)"
  by (auto simp: entry_wf_def entry_abs_def task_id_from_raw_def Let_def split: if_splits)

lemma unpublish_entry_abs:
  "entry_wf slot e \<Longrightarrow>
     entry_wf slot (unpublish_entry (e\<lparr>de_pending := 0\<rparr>)) \<and> entry_abs (unpublish_entry (e\<lparr>de_pending := 0\<rparr>)) = None"
  by (simp add: entry_wf_def entry_abs_def unpublish_entry_def bump_sequence_def task_id_from_raw_def)

lemma stale_entry:
  assumes "dir_wf d" "task_id_valid tid"
  shows "de_published (d ! task_slot tid) \<noteq> task_raw tid \<longleftrightarrow>
     (case dir_abs d (task_slot tid) of None \<Rightarrow> True | Some r \<Rightarrow> tr_id r \<noteq> tid)"
proof (cases "entry_abs (d ! task_slot tid)")
  case None
  then show ?thesis
    using entry_abs_None [OF dir_wf_entry [OF assms(1)], of tid] valid_raw_nonzero [OF assms(2)]
    by (simp add: dir_abs_slot [OF assms(1)])
next
  case (Some r)
  then show ?thesis
    using entry_abs_Some [OF dir_wf_entry [OF assms(1)] Some]
    by (auto simp: dir_abs_slot [OF assms(1)] raw_eq_iff)
qed

lemma live_entry:
  assumes "dir_wf d" "task_id_valid tid" "de_published (d ! task_slot tid) = task_raw tid"
  obtains r where "dir_abs d (task_slot tid) = Some r" "entry_abs (d ! task_slot tid) = Some r"
    "tr_id r = tid" "drop_bit 13 (de_pending (d ! task_slot tid)) = task_generation tid"
    "tr_flags r = de_pending (d ! task_slot tid) AND TASK_INDEX_MASK"
proof -
  obtain r where r: "dir_abs d (task_slot tid) = Some r" "tr_id r = tid"
    using stale_entry [OF assms(1,2)] assms(3) by (auto split: option.splits)
  then have "entry_abs (d ! task_slot tid) = Some r"
    by (simp add: dir_abs_slot [OF assms(1)])
  with r show ?thesis
    using entry_abs_Some [OF dir_wf_entry [OF assms(1)]] that by blast
qed

text \<open>How a contract reads on a directory that holds the identity, and on one that does not.\<close>

lemma spec_update_live:
  assumes "dir_wf d" "dir_abs d (task_slot tid) = Some r" "tr_id r = tid"
    and "f r = Inr (v, entry_abs e)" "entry_wf (task_slot tid) e"
  shows "spec_update (dir_abs d) tid f = (Inr v, dir_abs (d[task_slot tid := e]))
    \<and> dir_wf (d[task_slot tid := e])"
  using assms dir_wf_update dir_abs_update [OF slot_lt_length [OF assms(1)], of tid e]
  by (simp add: spec_update_def)

lemma spec_update_stale:
  assumes "dir_wf d" "task_id_valid tid" "de_published (d ! task_slot tid) \<noteq> task_raw tid"
  shows "spec_update (dir_abs d) tid f = (Inl StaleIdentity, dir_abs d)"
  using stale_entry [OF assms(1,2)] assms(3)
  by (auto simp: spec_update_def split: option.splits)

definition refines_spec ::
  "(directory_error + 'a) \<times> directory \<Rightarrow> (directory_error + 'a) \<times> (nat \<rightharpoonup> task_record) \<Rightarrow> bool" where
  "refines_spec concrete spec \<longleftrightarrow>
     dir_wf (snd concrete) \<and> spec = (fst concrete, dir_abs (snd concrete))"

lemma publish_operations_refines:
  assumes wf: "dir_wf d" and tid: "task_id_valid tid" and ops: "operations AND NOT ALL_OPERATIONS = 0"
  shows "refines_spec (dir_publish_operations d tid operations)
    (spec_publish_operations (dir_abs d) tid operations)"
proof (cases "de_published (d ! task_slot tid) = task_raw tid")
  case False
  then show ?thesis
    using wf ops
    by (simp add: refines_spec_def spec_publish_operations_def spec_update_stale [OF wf tid]
        dir_publish_operations_def Let_def)
next
  case True
  let ?e = "d ! task_slot tid"
  let ?w = "de_pending ?e OR operations"
  obtain r where r: "dir_abs d (task_slot tid) = Some r" "entry_abs ?e = Some r" "tr_id r = tid"
    "drop_bit 13 (de_pending ?e) = task_generation tid"
    "tr_flags r = de_pending ?e AND TASK_INDEX_MASK"
    by (rule live_entry [OF wf tid True])
  have "drop_bit 13 ?w = task_generation tid"
    by (simp add: or_operations small_operations [OF ops] r(4))
  then have new: "entry_wf (task_slot tid) (?e\<lparr>de_pending := ?w\<rparr>)"
    "entry_abs (?e\<lparr>de_pending := ?w\<rparr>) = Some (r\<lparr>tr_flags := tr_flags r OR operations\<rparr>)"
    using entry_abs_pending [OF dir_wf_entry [OF wf] r(2)] r(3,5)
    by (simp_all add: or_operations small_operations(2) [OF ops])
  have "de_pending ?e AND operations = tr_flags r AND operations"
    by (simp add: r(5) and.assoc and.commute [of TASK_INDEX_MASK] small_operations(2) [OF ops])
  then show ?thesis
    using True ops r(4) spec_update_live [OF wf r(1,3) _ new(1), of _ "_ \<noteq> operations"] new(2)
    by (simp add: refines_spec_def spec_publish_operations_def dir_publish_operations_def Let_def
        operation_update_def)
qed

lemma publish_operations_invalid:
  "operations AND NOT ALL_OPERATIONS \<noteq> 0 \<Longrightarrow>
     dir_publish_operations d tid operations = (Inl InvalidOperations, d)"
  by (simp add: dir_publish_operations_def)

lemma take_operations_refines:
  assumes wf: "dir_wf d" and tid: "task_id_valid tid"
  shows "refines_spec (dir_take_operations d tid) (spec_take_operations (dir_abs d) tid)"
proof (cases "de_published (d ! task_slot tid) = task_raw tid")
  case False
  then show ?thesis
    using wf by (simp add: refines_spec_def spec_take_operations_def spec_update_stale [OF wf tid]
        dir_take_operations_def Let_def)
next
  case True
  let ?e = "d ! task_slot tid"
  let ?w = "de_pending ?e AND NOT TASK_INDEX_MASK"
  obtain r where r: "dir_abs d (task_slot tid) = Some r" "entry_abs ?e = Some r" "tr_id r = tid"
    "drop_bit 13 (de_pending ?e) = task_generation tid"
    "tr_flags r = de_pending ?e AND TASK_INDEX_MASK"
    by (rule live_entry [OF wf tid True])
  have "drop_bit 13 ?w = task_generation (tr_id r)" by (simp only: taken_word r(3,4))
  then have new: "entry_wf (task_slot tid) (?e\<lparr>de_pending := ?w\<rparr>)"
    "entry_abs (?e\<lparr>de_pending := ?w\<rparr>) = Some (r\<lparr>tr_flags := 0\<rparr>)"
    using entry_abs_pending [OF dir_wf_entry [OF wf] r(2), of ?w] by (simp_all add: taken_word)
  show ?thesis
    using True r(4,5) new(2)
      spec_update_live [OF wf r(1,3) _ new(1), of "\<lambda>r. Inr (tr_flags r, Some (r\<lparr>tr_flags := 0\<rparr>))"]
    by (simp add: refines_spec_def spec_take_operations_def dir_take_operations_def Let_def
        operation_update_def)
qed

lemma unpublish_refines:
  assumes wf: "dir_wf d" and tid: "task_id_valid tid"
  shows "refines_spec (dir_unpublish d tid discard) (spec_unpublish (dir_abs d) tid discard)"
proof (cases "de_published (d ! task_slot tid) = task_raw tid")
  case False
  then show ?thesis
    using wf by (simp add: refines_spec_def spec_unpublish_def spec_update_stale [OF wf tid]
        dir_unpublish_def Let_def)
next
  case True
  let ?e = "d ! task_slot tid"
  let ?e' = "unpublish_entry (?e\<lparr>de_pending := 0\<rparr>)"
  obtain r where r: "dir_abs d (task_slot tid) = Some r" "entry_abs ?e = Some r" "tr_id r = tid"
    "drop_bit 13 (de_pending ?e) = task_generation tid"
    "tr_flags r = de_pending ?e AND TASK_INDEX_MASK"
    by (rule live_entry [OF wf tid True])
  have new: "entry_wf (task_slot tid) ?e'" "entry_abs ?e' = None"
    using unpublish_entry_abs [OF dir_wf_entry [OF wf]] by simp_all
  let ?f = "\<lambda>r. if \<not> discard \<and> tr_flags r \<noteq> 0 then Inl PendingOperations else Inr ((), None)"
  have refused: "spec_update (dir_abs d) tid ?f = (Inl PendingOperations, dir_abs d)"
    if "\<not> discard \<and> tr_flags r \<noteq> 0"
    using that r(1,3) by (simp add: spec_update_def)
  show ?thesis
    using True wf r(4,5) spec_update_live [OF wf r(1,3) _ new(1), of ?f "()"] new(2) refused
    by (auto simp: refines_spec_def spec_unpublish_def dir_unpublish_def Let_def unpublish_update_def)
qed

text \<open>
  C24: the remote operations refine their contract over the map of task records, errors included:
  \<open>publish_operations\<close> ors flags into the record of exactly that identity and reports whether
  any was new, \<open>take_operations\<close> returns and clears them, \<open>clear\<close> removes a record with no
  pending flag and refuses any other, \<open>retire\<close> removes it regardless. For a stale identity each
  one returns \<open>StaleIdentity\<close> and changes nothing.
\<close>

theorem dir_operations_refine:
  assumes "dir_wf d" "task_id_valid tid"
  shows "(operations AND NOT ALL_OPERATIONS = 0 \<longrightarrow>
        refines_spec (dir_publish_operations d tid operations)
          (spec_publish_operations (dir_abs d) tid operations))
    \<and> (operations AND NOT ALL_OPERATIONS \<noteq> 0 \<longrightarrow>
        dir_publish_operations d tid operations = (Inl InvalidOperations, d))
    \<and> refines_spec (dir_take_operations d tid) (spec_take_operations (dir_abs d) tid)
    \<and> refines_spec (dir_clear d tid) (spec_unpublish (dir_abs d) tid False)
    \<and> refines_spec (dir_retire d tid) (spec_unpublish (dir_abs d) tid True)"
  using publish_operations_refines [OF assms] take_operations_refines [OF assms]
    unpublish_refines [OF assms] publish_operations_invalid [of operations d tid]
  by (simp add: dir_clear_def dir_retire_def)

lemma sample_identity:
  "task_id_valid (TaskId 8197)" "task_slot (TaskId 8197) = 5" "cpu_valid (CpuIndex 3)"
  by (simp_all add: task_id_valid_def task_generation_def task_slot_mod cpu_valid_def as_usize_def)

theorem dir_publish_refines_witness:
  "dir_wf directory_new \<and> task_id_valid (TaskId 8197) \<and> cpu_valid (CpuIndex 3) \<and> 7 < MAX_TASKS
   \<and> (\<exists>d'. dir_publish directory_new (TaskId 8197) (CpuIndex 3) 7 = (Inr (), d')
        \<and> dir_locate d' (TaskId 8197) = Inr \<lparr>loc_owner = CpuIndex 3, loc_index = 7\<rparr>)"
  using dir_publish_refines [OF dir_wf_new sample_identity(1,3), of 7] dir_wf_new sample_identity
  by auto

theorem dir_operations_refine_witness:
  "dir_wf directory_new \<and> task_id_valid (TaskId 8197)
   \<and> refines_spec (dir_publish_operations directory_new (TaskId 8197) KILL)
       (spec_publish_operations (dir_abs directory_new) (TaskId 8197) KILL)
   \<and> dir_publish_operations directory_new (TaskId 8197) 64 = (Inl InvalidOperations, directory_new)"
  using dir_operations_refine [OF dir_wf_new sample_identity(1), of KILL]
    dir_operations_refine [OF dir_wf_new sample_identity(1), of 64] dir_wf_new sample_identity(1)
  by (simp add: ALL_OPERATIONS_def WAKE_def KILL_def AFFINITY_def POLICY_def THROTTLE_def
      MIGRATION_def)

end
