(* ===== verification/Directory_Race.thy ===== *)
theory Directory_Race
  imports Task_Directory
begin

unbundle bit_operations_syntax

text \<open>
  One entry of the task directory under concurrency. The owner's writer, whose calls the scheduler
  lock serializes, performs the stores of \<open>publish\<close> and \<open>unpublish\<close> one at a time; a reader
  runs the retry loop of \<open>locate\<close> one load at a time; producers and consumers update the word of
  pending operations at any moment, each with one successful compare-and-swap. The ghost fields
  record what was published, what was requested and how often the sequence was advanced.
\<close>

section \<open>The interleaved accesses\<close>

datatype writer_pc =
    WIdle
  | WOwner task_id cpu_index nat
  | WLocal task_id cpu_index nat
  | WPending task_id cpu_index nat
  | WId task_id cpu_index nat
  | WEnd task_id cpu_index nat
  | USequence
  | UId
  | UOwner
  | ULocal
  | UEnd

text \<open>
  The first argument of a reader state counts the attempts left after this one. \<open>before\<close> is the
  sequence read first; its ghost companion is the number of increments at that moment.
\<close>

datatype reader_pc =
    RSequence nat
  | RId nat nat u64
  | ROwner nat nat u64
  | RLocal nat nat u64 u64
  | RAfter nat nat u64 u64 u64
  | RDone "directory_error + task_location"

record entry_world =
  ew_entry :: dir_entry
  ew_writer :: writer_pc
  ew_reader :: reader_pc
  ew_count :: nat
  ew_locations :: "(task_id \<times> cpu_index \<times> nat) set"
  ew_requested :: "(u64 \<times> nat) set"

definition bump :: "entry_world \<Rightarrow> entry_world" where
  "bump w = w\<lparr>ew_entry := bump_sequence (ew_entry w), ew_count := Suc (ew_count w)\<rparr>"

definition on_entry :: "(dir_entry \<Rightarrow> dir_entry) \<Rightarrow> entry_world \<Rightarrow> entry_world" where
  "on_entry f w = w\<lparr>ew_entry := f (ew_entry w)\<rparr>"

definition goto :: "writer_pc \<Rightarrow> entry_world \<Rightarrow> entry_world" where
  "goto pc w = w\<lparr>ew_writer := pc\<rparr>"

inductive writer_step :: "nat \<Rightarrow> entry_world \<Rightarrow> entry_world \<Rightarrow> bool" for slot :: nat where
  publish_begin:
    "ew_writer w = WIdle \<Longrightarrow> task_slot t = slot \<Longrightarrow> task_id_valid t \<Longrightarrow> cpu_valid c \<Longrightarrow>
     li < MAX_TASKS \<Longrightarrow>
     writer_step slot w
       (bump (goto (WOwner t c li) (w\<lparr>ew_locations := insert (t, c, li) (ew_locations w)\<rparr>)))"
| publish_owner: "ew_writer w = WOwner t c li \<Longrightarrow>
     writer_step slot w (on_entry (store_owner c) (goto (WLocal t c li) w))"
| publish_local: "ew_writer w = WLocal t c li \<Longrightarrow>
     writer_step slot w (on_entry (store_local li) (goto (WPending t c li) w))"
| publish_pending: "ew_writer w = WPending t c li \<Longrightarrow>
     writer_step slot w (on_entry (retag_pending t) (goto (WId t c li) w))"
| publish_id: "ew_writer w = WId t c li \<Longrightarrow>
     writer_step slot w (on_entry (store_id t) (goto (WEnd t c li) w))"
| publish_end: "ew_writer w = WEnd t c li \<Longrightarrow> writer_step slot w (bump (goto WIdle w))"
| unpublish_take: "ew_writer w = WIdle \<Longrightarrow> de_published (ew_entry w) = task_raw t \<Longrightarrow>
     unpublish_update (de_pending (ew_entry w)) t discard = Some st \<Longrightarrow>
     writer_step slot w (on_entry (de_pending_update (\<lambda>_. st)) (goto USequence w))"
| unpublish_begin: "ew_writer w = USequence \<Longrightarrow> writer_step slot w (bump (goto UId w))"
| unpublish_id: "ew_writer w = UId \<Longrightarrow>
     writer_step slot w (on_entry (de_published_update (\<lambda>_. 0)) (goto UOwner w))"
| unpublish_owner: "ew_writer w = UOwner \<Longrightarrow>
     writer_step slot w (on_entry (de_owner_update (\<lambda>_. 0)) (goto ULocal w))"
| unpublish_local: "ew_writer w = ULocal \<Longrightarrow>
     writer_step slot w (on_entry (de_local_update (\<lambda>_. 0)) (goto UEnd w))"
| unpublish_end: "ew_writer w = UEnd \<Longrightarrow> writer_step slot w (bump (goto WIdle w))"

text \<open>Another attempt, or \<open>Busy\<close> after the last one.\<close>

fun retry :: "nat \<Rightarrow> reader_pc" where
  "retry 0 = RDone (Inl Busy)"
| "retry (Suc n) = RSequence n"

fun reader_next :: "task_id \<Rightarrow> dir_entry \<Rightarrow> nat \<Rightarrow> reader_pc \<Rightarrow> reader_pc" where
  "reader_next tid e k (RSequence n) =
     (if de_sequence e AND 1 \<noteq> 0 then retry n else RId n k (de_sequence e))"
| "reader_next tid e k (RId n k0 before) =
     (if de_published e \<noteq> task_raw tid then RDone (Inl StaleIdentity) else ROwner n k0 before)"
| "reader_next tid e k (ROwner n k0 before) = RLocal n k0 before (de_owner e)"
| "reader_next tid e k (RLocal n k0 before own) = RAfter n k0 before own (de_local e)"
| "reader_next tid e k (RAfter n k0 before own li) =
     (if before = de_sequence e then RDone (locate_result own li) else retry n)"
| "reader_next tid e k (RDone r) = RDone r"

inductive entry_step :: "task_id \<Rightarrow> entry_world \<Rightarrow> entry_world \<Rightarrow> bool" for tid :: task_id where
  writer: "writer_step (task_slot tid) w w' \<Longrightarrow> entry_step tid w w'"
| reader: "entry_step tid w (w\<lparr>ew_reader := reader_next tid (ew_entry w) (ew_count w) (ew_reader w)\<rparr>)"
| reader_again: "ew_reader w = RDone r \<Longrightarrow> entry_step tid w (w\<lparr>ew_reader := RSequence 7\<rparr>)"
| produce: "operations AND NOT ALL_OPERATIONS = 0 \<Longrightarrow>
     operation_update (de_pending (ew_entry w)) t operations False = Some st \<Longrightarrow>
     entry_step tid w (w\<lparr>ew_entry := (ew_entry w)\<lparr>de_pending := st\<rparr>,
       ew_requested := ew_requested w \<union> {(task_generation t, n) |n. bit operations n}\<rparr>)"
| consume: "operation_update (de_pending (ew_entry w)) t 0 True = Some st \<Longrightarrow>
     entry_step tid w (w\<lparr>ew_entry := (ew_entry w)\<lparr>de_pending := st\<rparr>\<rparr>)"

definition entry_world_start :: "entry_world \<Rightarrow> bool" where
  "entry_world_start w \<longleftrightarrow>
     ew_entry w = dir_entry_new \<and> ew_writer w = WIdle \<and> ew_reader w = RSequence 7
   \<and> ew_count w = 0 \<and> ew_locations w = {} \<and> ew_requested w = {}"

section \<open>Invariants\<close>

definition settled :: "(task_id \<times> cpu_index \<times> nat) set \<Rightarrow> dir_entry \<Rightarrow> bool" where
  "settled H e \<longleftrightarrow> (de_published e \<noteq> 0 \<longrightarrow>
     (\<exists>t c li. (t, c, li) \<in> H \<and> de_published e = task_raw t \<and> de_owner e = of_nat (as_usize c)
        \<and> de_local e = of_nat li))"

fun writer_inv :: "(task_id \<times> cpu_index \<times> nat) set \<Rightarrow> dir_entry \<Rightarrow> nat \<Rightarrow> writer_pc \<Rightarrow> bool" where
  "writer_inv H e k WIdle \<longleftrightarrow> even k \<and> settled H e"
| "writer_inv H e k USequence \<longleftrightarrow> even k \<and> settled H e"
| "writer_inv H e k (WOwner t c li) \<longleftrightarrow> odd k \<and> (t, c, li) \<in> H"
| "writer_inv H e k (WLocal t c li) \<longleftrightarrow> odd k \<and> (t, c, li) \<in> H \<and> de_owner e = of_nat (as_usize c)"
| "writer_inv H e k (WPending t c li) \<longleftrightarrow> odd k \<and> (t, c, li) \<in> H
     \<and> de_owner e = of_nat (as_usize c) \<and> de_local e = of_nat li"
| "writer_inv H e k (WId t c li) \<longleftrightarrow> odd k \<and> (t, c, li) \<in> H
     \<and> de_owner e = of_nat (as_usize c) \<and> de_local e = of_nat li"
| "writer_inv H e k (WEnd t c li) \<longleftrightarrow> odd k \<and> (t, c, li) \<in> H
     \<and> de_owner e = of_nat (as_usize c) \<and> de_local e = of_nat li \<and> de_published e = task_raw t"
| "writer_inv H e k UId \<longleftrightarrow> odd k"
| "writer_inv H e k UOwner \<longleftrightarrow> odd k \<and> de_published e = 0"
| "writer_inv H e k ULocal \<longleftrightarrow> odd k \<and> de_published e = 0"
| "writer_inv H e k UEnd \<longleftrightarrow> odd k \<and> de_published e = 0"

fun reader_inv ::
  "task_id \<Rightarrow> (task_id \<times> cpu_index \<times> nat) set \<Rightarrow> dir_entry \<Rightarrow> nat \<Rightarrow> reader_pc \<Rightarrow> bool" where
  "reader_inv tid H e k (RSequence n) \<longleftrightarrow> True"
| "reader_inv tid H e k (RId n k0 before) \<longleftrightarrow> k0 \<le> k \<and> even k0 \<and> before = of_nat k0"
| "reader_inv tid H e k (ROwner n k0 before) \<longleftrightarrow> k0 \<le> k \<and> even k0 \<and> before = of_nat k0
     \<and> (k0 = k \<longrightarrow> de_published e = task_raw tid)"
| "reader_inv tid H e k (RLocal n k0 before own) \<longleftrightarrow> k0 \<le> k \<and> even k0 \<and> before = of_nat k0
     \<and> (k0 = k \<longrightarrow> de_published e = task_raw tid \<and> de_owner e = own)"
| "reader_inv tid H e k (RAfter n k0 before own li) \<longleftrightarrow> k0 \<le> k \<and> even k0 \<and> before = of_nat k0
     \<and> (k0 = k \<longrightarrow> de_published e = task_raw tid \<and> de_owner e = own \<and> de_local e = li)"
| "reader_inv tid H e k (RDone r) \<longleftrightarrow> k < 2 ^ 64 \<longrightarrow> (\<forall>loc. r = Inr loc \<longrightarrow>
     (\<exists>c li. (tid, c, li) \<in> H \<and> loc = \<lparr>loc_owner = c, loc_index = of_nat li\<rparr>))"

definition pending_inv :: "(u64 \<times> nat) set \<Rightarrow> u64 \<Rightarrow> bool" where
  "pending_inv R p \<longleftrightarrow> (\<forall>n < 13. bit p n \<longrightarrow> (drop_bit 13 p, n) \<in> R)"

definition entry_world_inv :: "task_id \<Rightarrow> entry_world \<Rightarrow> bool" where
  "entry_world_inv tid w \<longleftrightarrow>
     de_sequence (ew_entry w) = of_nat (ew_count w)
   \<and> (\<forall>t c li. (t, c, li) \<in> ew_locations w \<longrightarrow> task_id_valid t \<and> cpu_valid c \<and> li < MAX_TASKS)
   \<and> writer_inv (ew_locations w) (ew_entry w) (ew_count w) (ew_writer w)
   \<and> reader_inv tid (ew_locations w) (ew_entry w) (ew_count w) (ew_reader w)
   \<and> pending_inv (ew_requested w) (de_pending (ew_entry w))"

lemma settled_mono: "settled H e \<Longrightarrow> H \<subseteq> H' \<Longrightarrow> settled H' e"
  unfolding settled_def by blast

lemma settled_cong:
  "de_published e' = de_published e \<Longrightarrow> de_owner e' = de_owner e \<Longrightarrow> de_local e' = de_local e \<Longrightarrow>
     settled H e' = settled H e"
  by (simp add: settled_def)

lemma writer_inv_pending [simp]:
  "writer_inv H (e\<lparr>de_pending := p\<rparr>) k pc = writer_inv H e k pc"
  by (cases pc) (simp_all add: settled_cong [of "e\<lparr>de_pending := p\<rparr>" e])

lemma reader_inv_pending [simp]:
  "reader_inv tid H (e\<lparr>de_pending := p\<rparr>) k pc = reader_inv tid H e k pc"
  by (cases pc) simp_all

text \<open>A new increment invalidates what a reader has read; any store happens while the count is odd.\<close>

lemma reader_inv_bump:
  "reader_inv tid H e k pc \<Longrightarrow> H \<subseteq> H' \<Longrightarrow> reader_inv tid H' e' (Suc k) pc"
  by (cases pc) (auto, blast)

lemma reader_inv_odd: "reader_inv tid H e k pc \<Longrightarrow> odd k \<Longrightarrow> reader_inv tid H e' k pc"
  by (cases pc) auto

lemma retry_inv [simp]: "reader_inv tid H e k (retry n)"
  by (cases n) simp_all

lemma of_nat_eq_bounded:
  "(of_nat a :: 'a::len word) = of_nat b \<Longrightarrow> a \<le> b \<Longrightarrow> b < 2 ^ LENGTH('a) \<Longrightarrow> a = b"
  by (simp add: word_of_nat_eq_iff take_bit_eq_mod)

lemma locate_result_settled:
  assumes "cpu_valid c" "li < MAX_TASKS"
  shows "locate_result (of_nat (as_usize c)) (of_nat li) = Inr \<lparr>loc_owner = c, loc_index = of_nat li\<rparr>"
  using assms new_of_valid [OF assms(1)]
  by (simp add: locate_result_def unat_of_nat cpu_index_new_def cpu_valid_def)

lemma reader_check_inv:
  assumes inv: "entry_world_inv tid w" and tid: "task_id_valid tid"
    and r: "ew_reader w = RAfter n k0 before own li" and eq: "before = de_sequence (ew_entry w)"
  shows "reader_inv tid (ew_locations w) (ew_entry w) (ew_count w) (RDone (locate_result own li))"
proof -
  let ?e = "ew_entry w" and ?H = "ew_locations w" and ?k = "ew_count w"
  have "\<exists>c l. (tid, c, l) \<in> ?H \<and> loc = \<lparr>loc_owner = c, loc_index = of_nat l\<rparr>"
    if "?k < 2 ^ 64" "locate_result own li = Inr loc" for loc
  proof -
    have k: "k0 = ?k" "even ?k"
      using inv r eq that(1) of_nat_eq_bounded [of k0 ?k, where 'a = 64]
      by (auto simp: entry_world_inv_def)
    then have vals: "de_published ?e = task_raw tid" "de_owner ?e = own" "de_local ?e = li"
      using inv r by (auto simp: entry_world_inv_def)
    have "settled ?H ?e"
      using inv k(2) by (cases "ew_writer w") (auto simp: entry_world_inv_def)
    then obtain t c l where "(t, c, l) \<in> ?H" "t = tid" "own = of_nat (as_usize c)" "li = of_nat l"
      using vals valid_raw_nonzero [OF tid] by (auto simp: settled_def raw_eq_iff)
    then show ?thesis
      using inv that(2) locate_result_settled [of c l] by (auto simp: entry_world_inv_def)
  qed
  then show ?thesis by simp
qed

lemma reader_step_inv:
  assumes inv: "entry_world_inv tid w" and tid: "task_id_valid tid"
  shows "entry_world_inv tid
    (w\<lparr>ew_reader := reader_next tid (ew_entry w) (ew_count w) (ew_reader w)\<rparr>)"
proof -
  have seq: "even (ew_count w)" if "de_sequence (ew_entry w) AND 1 = 0"
    using that inv by (simp add: entry_world_inv_def and_one_eq mod_2_eq_odd)
  have "reader_inv tid (ew_locations w) (ew_entry w) (ew_count w)
      (reader_next tid (ew_entry w) (ew_count w) (ew_reader w))"
  proof (cases "ew_reader w")
    case (RAfter n k0 before own li)
    then show ?thesis
      using reader_check_inv [OF inv tid RAfter] by (cases "before = de_sequence (ew_entry w)") auto
  qed (use inv seq in \<open>auto simp: entry_world_inv_def\<close>)
  with inv show ?thesis by (simp add: entry_world_inv_def)
qed

lemmas writer_defs = bump_def on_entry_def goto_def bump_sequence_def store_owner_def store_local_def
  store_id_def

lemma retag_inv: "pending_inv R p \<Longrightarrow> pending_inv R (de_pending (retag_pending t (e\<lparr>de_pending := p\<rparr>)))"
  by (simp add: retag_pending_def pending_inv_def)
    (auto simp: generation_tag_def bit_simps)

lemma retag_fields [simp]:
  "de_sequence (retag_pending t e) = de_sequence e" "de_owner (retag_pending t e) = de_owner e"
  "de_local (retag_pending t e) = de_local e" "de_published (retag_pending t e) = de_published e"
  by (simp_all add: retag_pending_def)

lemma unpublish_inv: "unpublish_update p t discard = Some st \<Longrightarrow> pending_inv R st"
  by (auto simp: unpublish_update_def pending_inv_def split: if_splits)

lemma writer_step_inv:
  assumes "writer_step slot w w'" "entry_world_inv tid w"
  shows "entry_world_inv tid w'"
  using assms
proof (induction rule: writer_step.induct)
  case (publish_begin w t c li)
  then show ?case
    by (auto simp: entry_world_inv_def writer_defs elim!: reader_inv_bump)
next
  case (unpublish_begin w)
  then show ?case
    by (auto simp: entry_world_inv_def writer_defs elim!: reader_inv_bump)
next
  case (publish_pending w t c li)
  then show ?case
    using retag_inv [of "ew_requested w" "de_pending (ew_entry w)" t "ew_entry w"]
    by (auto simp: entry_world_inv_def writer_defs elim: reader_inv_odd)
next
  case (unpublish_take w t discard st)
  then show ?case
    using unpublish_inv [OF unpublish_take.hyps(3)]
    by (simp add: entry_world_inv_def writer_defs settled_def)
qed (auto simp: entry_world_inv_def writer_defs settled_def elim: reader_inv_odd reader_inv_bump)

lemma produce_pending_inv:
  assumes "pending_inv R p" "operations AND NOT ALL_OPERATIONS = 0"
    and "operation_update p t operations False = Some st"
  shows "pending_inv (R \<union> {(task_generation t, n) |n. bit operations n}) st"
proof -
  have st: "st = p OR operations" "drop_bit 13 p = task_generation t"
    using assms(3) by (auto simp: operation_update_def split: if_splits)
  moreover have "drop_bit 13 st = drop_bit 13 p"
    by (simp add: st(1) or_operations small_operations [OF assms(2)])
  ultimately show ?thesis
    using assms(1) by (auto simp: pending_inv_def bit_simps)
qed

lemma consume_pending_inv:
  "operation_update p t 0 True = Some st \<Longrightarrow> pending_inv R st"
  by (auto simp: operation_update_def pending_inv_def index_mask bit_simps split: if_splits)

lemma entry_step_inv:
  assumes "entry_step tid w w'" "entry_world_inv tid w" "task_id_valid tid"
  shows "entry_world_inv tid w'"
  using assms
proof (induction rule: entry_step.induct)
  case (writer w w')
  then show ?case by (blast intro: writer_step_inv)
next
  case (reader w)
  then show ?case by (blast intro: reader_step_inv)
next
  case (produce operations w t st)
  then show ?case by (auto simp: entry_world_inv_def intro: produce_pending_inv)
next
  case (consume w t st)
  then show ?case by (auto simp: entry_world_inv_def intro: consume_pending_inv)
qed (simp add: entry_world_inv_def)

lemma entry_world_inv_start: "entry_world_start w \<Longrightarrow> entry_world_inv tid w"
  by (auto simp: entry_world_start_def entry_world_inv_def dir_entry_new_def settled_def pending_inv_def)

interpretation entry_race: invariant_machine
  entry_world_start "\<lambda>w w'. task_id_valid tid \<and> entry_step tid w w'" "entry_world_inv tid" for tid
  by unfold_locales (auto intro: entry_world_inv_start entry_step_inv)

lemma entry_reachable_inv:
  assumes "task_id_valid tid" "entry_world_start w0" "(entry_step tid)\<^sup>*\<^sup>* w0 w"
  shows "entry_world_inv tid w"
proof -
  have "(\<lambda>w w'. task_id_valid tid \<and> entry_step tid w w')\<^sup>*\<^sup>* w0 w"
    using assms(3,1) by (simp add: mono_rtranclp)
  then show ?thesis by (rule entry_race.reachable_inv [OF assms(2)])
qed

section \<open>Runs without interference\<close>

text \<open>
  A writer left alone computes \<open>publish_entry\<close>, and a reader left alone what \<open>locate_loop\<close>
  computes: the whole methods of the previous theory are the uninterrupted runs of this machine.
\<close>

lemma writer_steps:
  "writer_step (task_slot tid) w w' \<Longrightarrow> (entry_step tid)\<^sup>*\<^sup>* w' w'' \<Longrightarrow> (entry_step tid)\<^sup>*\<^sup>* w w''"
  using entry_step.writer by (rule converse_rtranclp_into_rtranclp)

lemma publish_run:
  assumes "ew_writer w = WIdle" "task_slot t = task_slot tid" "task_id_valid t" "cpu_valid c"
    "li < MAX_TASKS"
  shows "(entry_step tid)\<^sup>*\<^sup>* w
    (w\<lparr>ew_entry := publish_entry t c li (ew_entry w), ew_count := ew_count w + 2,
       ew_locations := insert (t, c, li) (ew_locations w)\<rparr>)"
proof -
  let ?w1 = "bump (goto (WOwner t c li) (w\<lparr>ew_locations := insert (t, c, li) (ew_locations w)\<rparr>))"
  let ?w2 = "on_entry (store_owner c) (goto (WLocal t c li) ?w1)"
  let ?w3 = "on_entry (store_local li) (goto (WPending t c li) ?w2)"
  let ?w4 = "on_entry (retag_pending t) (goto (WId t c li) ?w3)"
  let ?w5 = "on_entry (store_id t) (goto (WEnd t c li) ?w4)"
  let ?w6 = "bump (goto WIdle ?w5)"
  note pcs = bump_def goto_def on_entry_def
  have s1: "writer_step (task_slot tid) w ?w1" by (rule writer_step.publish_begin [OF assms])
  have s2: "writer_step (task_slot tid) ?w1 ?w2"
    by (rule writer_step.publish_owner) (simp add: pcs)
  have s3: "writer_step (task_slot tid) ?w2 ?w3"
    by (rule writer_step.publish_local) (simp add: pcs)
  have s4: "writer_step (task_slot tid) ?w3 ?w4"
    by (rule writer_step.publish_pending) (simp add: pcs)
  have s5: "writer_step (task_slot tid) ?w4 ?w5"
    by (rule writer_step.publish_id) (simp add: pcs)
  have s6: "writer_step (task_slot tid) ?w5 ?w6"
    by (rule writer_step.publish_end) (simp add: pcs)
  have "(entry_step tid)\<^sup>*\<^sup>* w ?w6"
    by (rule writer_steps [OF s1 writer_steps [OF s2 writer_steps [OF s3 writer_steps [OF s4
      writer_steps [OF s5 writer_steps [OF s6 rtranclp.rtrancl_refl]]]]]])
  moreover have "?w6 = w\<lparr>ew_entry := publish_entry t c li (ew_entry w), ew_count := ew_count w + 2,
       ew_locations := insert (t, c, li) (ew_locations w)\<rparr>"
    using assms(1) by (cases w) (simp add: pcs publish_entry_def)
  ultimately show ?thesis by (simp only:)
qed

lemma reader_steps:
  "(entry_step tid)\<^sup>*\<^sup>* w
     (w\<lparr>ew_reader := (reader_next tid (ew_entry w) (ew_count w) ^^ m) (ew_reader w)\<rparr>)"
proof (induction m)
  case (Suc m)
  show ?case
    using rtranclp.rtrancl_into_rtrancl [OF Suc entry_step.reader] by simp
qed simp

lemma locate_loop_quiet:
  "even (de_sequence e) \<Longrightarrow> 0 < n \<Longrightarrow> locate_loop n e tid =
     (if de_published e \<noteq> task_raw tid then Inl StaleIdentity
      else locate_result (de_owner e) (de_local e))"
  by (cases n) (simp_all add: Let_def and_one_eq mod_2_eq_odd)

lemma locate_run:
  assumes "even (de_sequence (ew_entry w))" "ew_reader w = RSequence n"
  shows "(entry_step tid)\<^sup>*\<^sup>* w
    (w\<lparr>ew_reader := RDone (locate_loop (Suc n) (ew_entry w) tid)\<rparr>)"
  using reader_steps [of tid w 5] assms
  by (cases "de_published (ew_entry w) = task_raw tid")
    (simp_all add: numeral_eq_Suc Let_def and_one_eq mod_2_eq_odd)

section \<open>Theorems\<close>

text \<open>
  C1: \<open>locate\<close> is coherent under any interleaving with a writer and with producers and consumers:
  a location it returns for an identity is the owner together with the local index of one single
  publication of that very identity, never a mixture, as long as the 64-bit sequence has not
  wrapped.
\<close>

theorem locate_never_torn:
  assumes "task_id_valid tid" "entry_world_start w0" "(entry_step tid)\<^sup>*\<^sup>* w0 w"
    and "ew_reader w = RDone (Inr loc)" "ew_count w < 2 ^ 64"
  shows "\<exists>c li. (tid, c, li) \<in> ew_locations w \<and> loc = \<lparr>loc_owner = c, loc_index = of_nat li\<rparr>"
  using entry_reachable_inv [OF assms(1-3)] assms(4,5) by (auto simp: entry_world_inv_def)

text \<open>A run in which one identity is published and then located.\<close>

definition sample_world :: entry_world where
  "sample_world = \<lparr>ew_entry = dir_entry_new, ew_writer = WIdle, ew_reader = RSequence 7, ew_count = 0,
     ew_locations = {}, ew_requested = {}\<rparr>"

definition sample_published :: entry_world where
  "sample_published = sample_world\<lparr>ew_entry := publish_entry (TaskId 8197) (CpuIndex 3) 7 dir_entry_new,
     ew_count := 2, ew_locations := {(TaskId 8197, CpuIndex 3, 7)}\<rparr>"

lemma sample_runs:
  "entry_world_start sample_world" "(entry_step (TaskId 8197))\<^sup>*\<^sup>* sample_world sample_published"
  "(entry_step (TaskId 8197))\<^sup>*\<^sup>* sample_published
     (sample_published\<lparr>ew_reader := RDone (Inr \<lparr>loc_owner = CpuIndex 3, loc_index = 7\<rparr>)\<rparr>)"
proof -
  have fields: "de_sequence dir_entry_new = 0" by (simp add: dir_entry_new_def)
  show "entry_world_start sample_world"
    by (simp add: entry_world_start_def sample_world_def)
  show "(entry_step (TaskId 8197))\<^sup>*\<^sup>* sample_world sample_published"
    using publish_run [of sample_world "TaskId 8197" "TaskId 8197" "CpuIndex 3" 7] sample_identity
    by (simp add: sample_published_def sample_world_def numeral_2_eq_2)
  show "(entry_step (TaskId 8197))\<^sup>*\<^sup>* sample_published
     (sample_published\<lparr>ew_reader := RDone (Inr \<lparr>loc_owner = CpuIndex 3, loc_index = 7\<rparr>)\<rparr>)"
    using locate_run [of sample_published 7 "TaskId 8197"]
      locate_result_settled [OF sample_identity(3), of 7]
    by (simp add: sample_published_def sample_world_def publish_entry_fields fields locate_loop_quiet)
qed

theorem locate_never_torn_witness:
  "\<exists>w0 w. task_id_valid (TaskId 8197) \<and> entry_world_start w0 \<and> (entry_step (TaskId 8197))\<^sup>*\<^sup>* w0 w
     \<and> ew_reader w = RDone (Inr \<lparr>loc_owner = CpuIndex 3, loc_index = 7\<rparr>) \<and> ew_count w < 2 ^ 64
     \<and> (\<exists>c li. (TaskId 8197, c, li) \<in> ew_locations w
          \<and> \<lparr>loc_owner = CpuIndex 3, loc_index = 7\<rparr> = \<lparr>loc_owner = c, loc_index = of_nat li\<rparr>)"
proof -
  let ?w = "sample_published\<lparr>ew_reader := RDone (Inr \<lparr>loc_owner = CpuIndex 3, loc_index = 7\<rparr>)\<rparr>"
  have run: "(entry_step (TaskId 8197))\<^sup>*\<^sup>* sample_world ?w"
    using sample_runs(2,3) by (rule rtranclp_trans)
  have "ew_count ?w < 2 ^ 64" by (simp add: sample_published_def)
  then show ?thesis
    using locate_never_torn [OF sample_identity(1) sample_runs(1) run] run sample_runs(1)
      sample_identity(1)
    by (intro exI [of _ sample_world] exI [of _ ?w]) simp
qed

text \<open>
  C4: pending operations never cross generations: under any interleaving of publications,
  retirements, producers and consumers, each flag set in the word was requested for exactly the
  generation the word is tagged with.
\<close>

theorem pending_operations_isolated:
  assumes "task_id_valid tid" "entry_world_start w0" "(entry_step tid)\<^sup>*\<^sup>* w0 w"
    and "n < TASK_INDEX_BITS" "bit (de_pending (ew_entry w)) n"
  shows "(drop_bit TASK_INDEX_BITS (de_pending (ew_entry w)), n) \<in> ew_requested w"
  using entry_reachable_inv [OF assms(1-3)] assms(4,5)
  by (auto simp: entry_world_inv_def pending_inv_def)

text \<open>A kill requested for the published identity.\<close>

lemma sample_request:
  "\<exists>w. entry_step (TaskId 8197) sample_published w \<and> bit (de_pending (ew_entry w)) 1"
proof -
  have ops: "KILL AND NOT ALL_OPERATIONS = 0"
    by (simp add: ALL_OPERATIONS_def WAKE_def KILL_def AFFINITY_def POLICY_def THROTTLE_def MIGRATION_def)
  have "drop_bit 13 (de_pending (ew_entry sample_published)) = task_generation (TaskId 8197)"
    by (simp add: sample_published_def publish_entry_fields)
  then have "operation_update (de_pending (ew_entry sample_published)) (TaskId 8197) KILL False
      = Some (de_pending (ew_entry sample_published) OR KILL)"
    by (simp add: operation_update_def)
  note step = entry_step.produce [OF ops this]
  show ?thesis
    by (rule exI, rule conjI, rule step) (simp add: bit_simps KILL_def)
qed

theorem pending_operations_isolated_witness:
  "\<exists>w0 w. task_id_valid (TaskId 8197) \<and> entry_world_start w0 \<and> (entry_step (TaskId 8197))\<^sup>*\<^sup>* w0 w
     \<and> bit (de_pending (ew_entry w)) 1
     \<and> (drop_bit TASK_INDEX_BITS (de_pending (ew_entry w)), 1) \<in> ew_requested w"
proof -
  obtain w where w: "entry_step (TaskId 8197) sample_published w" "bit (de_pending (ew_entry w)) 1"
    using sample_request by blast
  have run: "(entry_step (TaskId 8197))\<^sup>*\<^sup>* sample_world w"
    using sample_runs(2) w(1) by (rule rtranclp.rtrancl_into_rtrancl)
  show ?thesis
    using pending_operations_isolated [OF sample_identity(1) sample_runs(1) run, of 1] w(2) run
      sample_runs(1) sample_identity(1)
    by (intro exI [of _ sample_world] exI [of _ w]) simp
qed

fun reader_run :: "task_id \<Rightarrow> (dir_entry \<times> nat) list \<Rightarrow> reader_pc \<Rightarrow> reader_pc" where
  "reader_run tid [] pc = pc"
| "reader_run tid ((e, k) # views) pc = reader_run tid views (reader_next tid e k pc)"

fun reader_rank :: "reader_pc \<Rightarrow> nat" where
  "reader_rank (RSequence n) = 5 * n + 5"
| "reader_rank (RId n _ _) = 5 * n + 4"
| "reader_rank (ROwner n _ _) = 5 * n + 3"
| "reader_rank (RLocal n _ _ _) = 5 * n + 2"
| "reader_rank (RAfter n _ _ _ _) = 5 * n + 1"
| "reader_rank (RDone _) = 0"

lemma reader_rank_retry: "reader_rank (retry n) \<le> 5 * n" "reader_rank (retry n) \<le> 4 + 5 * n"
  by (cases n; simp)+

lemma reader_rank_next: "reader_rank (reader_next tid e k pc) \<le> reader_rank pc - 1"
  by (cases pc) (simp_all add: reader_rank_retry)

lemma reader_rank_run: "reader_rank (reader_run tid views pc) \<le> reader_rank pc - length views"
proof (induction views arbitrary: pc)
  case (Cons v views)
  obtain e k where "v = (e, k)" by force
  with Cons [of "reader_next tid e k pc"] reader_rank_next [of tid e k pc] show ?case by simp
qed simp

lemma reader_rank_zero: "reader_rank pc = 0 \<Longrightarrow> \<exists>r. pc = RDone r"
  by (cases pc) simp_all

text \<open>
  C19: \<open>locate\<close> is wait-free: whatever other processors do to the entry between its loads, the
  reader has its answer after at most forty loads, five for each of its eight attempts.
\<close>

theorem locate_wait_free:
  assumes "40 \<le> length views"
  shows "\<exists>r. reader_run tid views (RSequence 7) = RDone r"
  using reader_rank_run [of tid views "RSequence 7"] assms by (simp add: reader_rank_zero)

theorem locate_wait_free_witness:
  "40 \<le> length (replicate 40 (dir_entry_new, 0 :: nat))
   \<and> (\<exists>r. reader_run (TaskId 8197) (replicate 40 (dir_entry_new, 0)) (RSequence 7) = RDone r)"
  using locate_wait_free [of "replicate 40 (dir_entry_new, 0)" "TaskId 8197"] by simp

end
