(* ===== verification/Task_Lifecycle.thy ===== *)
theory Task_Lifecycle
  imports Cpu_Mask
begin

unbundle bit_operations_syntax

text \<open>
  The nested execution guards of a task and its lifecycle (\<open>huesos-sched/src/lib.rs\<close>,
  \<open>ExecutionGuards\<close> and \<open>TaskLifecycle\<close>). Each method is a function from the state to its
  result and the new state. The lemmas give the legal state graph, the well-formedness of the
  owner and target fields in every state, that a wake accepted while a task goes to sleep is not
  lost, and that a two-phase migration either moves the task to the target or restores it.
\<close>

section \<open>Execution guards\<close>

record execution_guards =
  eg_preempt_depth :: u16
  eg_migration_depth :: u16

datatype guard_error = GuardOverflow | GuardUnderflow

definition execution_guards_new :: execution_guards where
  "execution_guards_new = \<lparr>eg_preempt_depth = 0, eg_migration_depth = 0\<rparr>"

definition disable_preemption :: "execution_guards \<Rightarrow> (guard_error + unit) \<times> execution_guards" where
  "disable_preemption g =
     (case checked_add (eg_preempt_depth g) 1 of
        None \<Rightarrow> (Inl GuardOverflow, g)
      | Some d \<Rightarrow> (Inr (), g\<lparr>eg_preempt_depth := d\<rparr>))"

definition enable_preemption :: "execution_guards \<Rightarrow> (guard_error + bool) \<times> execution_guards" where
  "enable_preemption g =
     (case checked_sub (eg_preempt_depth g) 1 of
        None \<Rightarrow> (Inl GuardUnderflow, g)
      | Some d \<Rightarrow> (Inr (d = 0), g\<lparr>eg_preempt_depth := d\<rparr>))"

definition disable_migration :: "execution_guards \<Rightarrow> (guard_error + unit) \<times> execution_guards" where
  "disable_migration g =
     (case checked_add (eg_migration_depth g) 1 of
        None \<Rightarrow> (Inl GuardOverflow, g)
      | Some d \<Rightarrow> (Inr (), g\<lparr>eg_migration_depth := d\<rparr>))"

definition enable_migration :: "execution_guards \<Rightarrow> (guard_error + bool) \<times> execution_guards" where
  "enable_migration g =
     (case checked_sub (eg_migration_depth g) 1 of
        None \<Rightarrow> (Inl GuardUnderflow, g)
      | Some d \<Rightarrow> (Inr (d = 0), g\<lparr>eg_migration_depth := d\<rparr>))"

definition can_preempt :: "execution_guards \<Rightarrow> bool" where
  "can_preempt g \<longleftrightarrow> eg_preempt_depth g = 0"

definition can_migrate :: "execution_guards \<Rightarrow> bool" where
  "can_migrate g \<longleftrightarrow> eg_preempt_depth g = 0 \<and> eg_migration_depth g = 0"

definition can_sleep :: "execution_guards \<Rightarrow> bool" where
  "can_sleep g \<longleftrightarrow> eg_preempt_depth g = 0 \<and> eg_migration_depth g = 0"

text \<open>A history of guard calls; a refused call leaves the guards and is not counted.\<close>

datatype guard_call = DisablePreempt | EnablePreempt | DisableMigration | EnableMigration

fun guard_call_run :: "guard_call \<Rightarrow> execution_guards \<Rightarrow> execution_guards option" where
  "guard_call_run DisablePreempt g =
     (case disable_preemption g of (Inl _, _) \<Rightarrow> None | (Inr _, g') \<Rightarrow> Some g')"
| "guard_call_run EnablePreempt g =
     (case enable_preemption g of (Inl _, _) \<Rightarrow> None | (Inr _, g') \<Rightarrow> Some g')"
| "guard_call_run DisableMigration g =
     (case disable_migration g of (Inl _, _) \<Rightarrow> None | (Inr _, g') \<Rightarrow> Some g')"
| "guard_call_run EnableMigration g =
     (case enable_migration g of (Inl _, _) \<Rightarrow> None | (Inr _, g') \<Rightarrow> Some g')"

fun guard_calls :: "guard_call list \<Rightarrow> execution_guards \<Rightarrow> execution_guards option" where
  "guard_calls [] g = Some g"
| "guard_calls (c # cs) g = Option.bind (guard_call_run c g) (guard_calls cs)"

lemma guard_call_depths:
  assumes "guard_call_run c g = Some g'"
  shows "unat (eg_preempt_depth g') + count_list [c] EnablePreempt =
      unat (eg_preempt_depth g) + count_list [c] DisablePreempt
    \<and> unat (eg_migration_depth g') + count_list [c] EnableMigration =
      unat (eg_migration_depth g) + count_list [c] DisableMigration"
  using assms
  by (cases c)
    (auto simp: disable_preemption_def enable_preemption_def disable_migration_def
      enable_migration_def checked_add_Some checked_sub_Some split: option.splits)

lemma guard_calls_depths:
  "guard_calls cs g = Some g' \<Longrightarrow>
     unat (eg_preempt_depth g') + count_list cs EnablePreempt =
       unat (eg_preempt_depth g) + count_list cs DisablePreempt
   \<and> unat (eg_migration_depth g') + count_list cs EnableMigration =
       unat (eg_migration_depth g) + count_list cs DisableMigration"
proof (induction cs arbitrary: g)
  case (Cons c cs)
  then obtain h where h: "guard_call_run c g = Some h" "guard_calls cs h = Some g'"
    by (cases "guard_call_run c g") auto
  show ?case
    using guard_call_depths [OF h(1)] Cons.IH [OF h(2)] by (auto split: if_splits)
qed simp

text \<open>
  the guards count nesting exactly. After any successful history of calls a task may migrate
  (and sleep) if and only if every disable has been matched by its enable, in both counters, and
  may be preempted if and only if the preemption scopes are all closed.
\<close>

theorem guards_balanced:
  assumes "guard_calls cs execution_guards_new = Some g"
  shows "(can_preempt g \<longleftrightarrow> count_list cs DisablePreempt = count_list cs EnablePreempt)
    \<and> (can_migrate g \<longleftrightarrow> count_list cs DisablePreempt = count_list cs EnablePreempt
        \<and> count_list cs DisableMigration = count_list cs EnableMigration)
    \<and> can_sleep g = can_migrate g"
  using guard_calls_depths [OF assms]
  by (auto simp: can_preempt_def can_migrate_def can_sleep_def execution_guards_new_def unat_eq_0)

theorem guards_balanced_witness:
  "\<exists>g. guard_calls [DisablePreempt, DisableMigration, EnablePreempt] execution_guards_new = Some g
     \<and> can_preempt g \<and> \<not> can_migrate g"
proof -
  have "guard_calls [DisablePreempt, DisableMigration, EnablePreempt] execution_guards_new =
      Some \<lparr>eg_preempt_depth = 0, eg_migration_depth = 1\<rparr>"
    by (simp add: disable_preemption_def enable_preemption_def disable_migration_def checked_add_def
        checked_sub_def execution_guards_new_def)
  from this guards_balanced [OF this] show ?thesis
    by (intro exI [of _ "\<lparr>eg_preempt_depth = 0, eg_migration_depth = 1\<rparr>"]) simp
qed

section \<open>The lifecycle\<close>

datatype task_state =
    Embryo | DeferredReady | Ready | Running | Blocking | Blocked | Waking | Migrating
  | Dying | Dead | Reaped

datatype migration_source = FromReady | FromBlocked

datatype lifecycle_error = WrongState | StaleEpoch | SameCpu | MigrationUnsafe

record task_lifecycle =
  tl_state :: task_state
  tl_owner :: "cpu_index option"
  tl_target :: "cpu_index option"
  tl_wait_epoch :: u32
  tl_migration_generation :: u32
  tl_migration_source :: "migration_source option"
  tl_wake_pending :: bool

type_synonym 'a lifecycle_result = "(lifecycle_error + 'a) \<times> task_lifecycle"

definition task_lifecycle_new :: task_lifecycle where
  "task_lifecycle_new =
     \<lparr>tl_state = Embryo, tl_owner = None, tl_target = None, tl_wait_epoch = 0,
      tl_migration_generation = 0, tl_migration_source = None, tl_wake_pending = False\<rparr>"

definition defer_ready :: "task_lifecycle \<Rightarrow> cpu_index \<Rightarrow> unit lifecycle_result" where
  "defer_ready s target =
     (if tl_state s \<noteq> Embryo then (Inl WrongState, s)
      else (Inr (), s\<lparr>tl_state := DeferredReady, tl_target := Some target\<rparr>))"

definition enqueue_ready :: "task_lifecycle \<Rightarrow> cpu_index \<Rightarrow> unit lifecycle_result" where
  "enqueue_ready s cpu =
     (if tl_state s \<noteq> DeferredReady \<or> tl_target s \<noteq> Some cpu then (Inl WrongState, s)
      else (Inr (), s\<lparr>tl_state := Ready, tl_owner := Some cpu, tl_target := None\<rparr>))"

definition start_running :: "task_lifecycle \<Rightarrow> cpu_index \<Rightarrow> unit lifecycle_result" where
  "start_running s cpu =
     (if tl_state s \<noteq> Ready \<or> tl_owner s \<noteq> Some cpu then (Inl WrongState, s)
      else (Inr (), s\<lparr>tl_state := Running\<rparr>))"

definition preempt :: "task_lifecycle \<Rightarrow> cpu_index \<Rightarrow> unit lifecycle_result" where
  "preempt s cpu =
     (if tl_state s \<noteq> Running \<or> tl_owner s \<noteq> Some cpu then (Inl WrongState, s)
      else (Inr (), s\<lparr>tl_state := Ready\<rparr>))"

definition begin_block :: "task_lifecycle \<Rightarrow> cpu_index \<Rightarrow> u32 \<Rightarrow> unit lifecycle_result" where
  "begin_block s cpu epoch =
     (if tl_state s \<noteq> Running \<or> tl_owner s \<noteq> Some cpu then (Inl WrongState, s)
      else (Inr (), s\<lparr>tl_state := Blocking, tl_wait_epoch := epoch, tl_wake_pending := False\<rparr>))"

definition complete_block :: "task_lifecycle \<Rightarrow> cpu_index \<Rightarrow> u32 \<Rightarrow> bool lifecycle_result" where
  "complete_block s cpu epoch =
     (if tl_state s \<noteq> Blocking \<or> tl_owner s \<noteq> Some cpu then (Inl WrongState, s)
      else if tl_wait_epoch s \<noteq> epoch then (Inl StaleEpoch, s)
      else if tl_wake_pending s
        then (Inr False, s\<lparr>tl_state := Waking,
                tl_target := (if tl_target s = None then Some cpu else tl_target s)\<rparr>)
      else (Inr True, s\<lparr>tl_state := Blocked\<rparr>))"

definition wake :: "task_lifecycle \<Rightarrow> cpu_index \<Rightarrow> u32 \<Rightarrow> bool lifecycle_result" where
  "wake s target epoch =
     (if tl_wait_epoch s \<noteq> epoch then (Inl StaleEpoch, s)
      else case tl_state s of
          Blocking \<Rightarrow> (Inr True, s\<lparr>tl_wake_pending := True, tl_target := Some target\<rparr>)
        | Blocked \<Rightarrow> (Inr True, s\<lparr>tl_state := Waking, tl_target := Some target\<rparr>)
        | Waking \<Rightarrow> (Inr False, s)
        | Ready \<Rightarrow> (Inr False, s)
        | Running \<Rightarrow> (Inr False, s)
        | _ \<Rightarrow> (Inl WrongState, s))"

definition complete_wake :: "task_lifecycle \<Rightarrow> cpu_index \<Rightarrow> u32 \<Rightarrow> unit lifecycle_result" where
  "complete_wake s cpu epoch =
     (if tl_state s \<noteq> Waking \<or> tl_target s \<noteq> Some cpu then (Inl WrongState, s)
      else if tl_wait_epoch s \<noteq> epoch then (Inl StaleEpoch, s)
      else (Inr (), s\<lparr>tl_state := Ready, tl_owner := Some cpu, tl_target := None,
                      tl_wake_pending := False\<rparr>))"

definition begin_migration ::
  "task_lifecycle \<Rightarrow> cpu_index \<Rightarrow> execution_guards \<Rightarrow> u32 lifecycle_result" where
  "begin_migration s target guards =
     (if \<not> can_migrate guards then (Inl MigrationUnsafe, s)
      else case (case tl_state s of Ready \<Rightarrow> Some FromReady | Blocked \<Rightarrow> Some FromBlocked | _ \<Rightarrow> None) of
          None \<Rightarrow> (Inl WrongState, s)
        | Some source \<Rightarrow>
            if tl_owner s = Some target then (Inl SameCpu, s)
            else let generation = max (tl_migration_generation s + 1) 1 in
              (Inr generation, s\<lparr>tl_migration_generation := generation, tl_migration_source := Some source,
                 tl_target := Some target, tl_state := Migrating\<rparr>))"

definition source_state :: "migration_source \<Rightarrow> task_state" where
  "source_state source = (case source of FromReady \<Rightarrow> Ready | FromBlocked \<Rightarrow> Blocked)"

definition commit_migration :: "task_lifecycle \<Rightarrow> cpu_index \<Rightarrow> u32 \<Rightarrow> unit lifecycle_result" where
  "commit_migration s target generation =
     (if tl_state s \<noteq> Migrating \<or> tl_target s \<noteq> Some target then (Inl WrongState, s)
      else if tl_migration_generation s \<noteq> generation then (Inl StaleEpoch, s)
      else case tl_migration_source s of
          None \<Rightarrow> (Inl WrongState, s)
        | Some source \<Rightarrow> (Inr (), s\<lparr>tl_state := source_state source, tl_owner := Some target,
                            tl_target := None, tl_migration_source := None\<rparr>))"

definition rollback_migration :: "task_lifecycle \<Rightarrow> u32 \<Rightarrow> unit lifecycle_result" where
  "rollback_migration s generation =
     (if tl_state s \<noteq> Migrating then (Inl WrongState, s)
      else if tl_migration_generation s \<noteq> generation then (Inl StaleEpoch, s)
      else case tl_migration_source s of
          None \<Rightarrow> (Inl WrongState, s)
        | Some source \<Rightarrow> (Inr (), s\<lparr>tl_state := source_state source, tl_target := None,
                            tl_migration_source := None\<rparr>))"

definition begin_dying :: "task_lifecycle \<Rightarrow> unit lifecycle_result" where
  "begin_dying s =
     (if tl_state s = Ready \<or> tl_state s = Running \<or> tl_state s = Blocked
      then (Inr (), s\<lparr>tl_state := Dying, tl_target := None, tl_wake_pending := False\<rparr>)
      else (Inl WrongState, s))"

definition mark_dead :: "task_lifecycle \<Rightarrow> unit lifecycle_result" where
  "mark_dead s =
     (if tl_state s \<noteq> Dying then (Inl WrongState, s) else (Inr (), s\<lparr>tl_state := Dead\<rparr>))"

definition reap :: "task_lifecycle \<Rightarrow> unit lifecycle_result" where
  "reap s =
     (if tl_state s \<noteq> Dead then (Inl WrongState, s)
      else (Inr (), s\<lparr>tl_state := Reaped, tl_owner := None\<rparr>))"

section \<open>The state graph\<close>

datatype lifecycle_call =
    DeferReady cpu_index
  | EnqueueReady cpu_index
  | StartRunning cpu_index
  | Preempt cpu_index
  | BeginBlock cpu_index u32
  | CompleteBlock cpu_index u32
  | Wake cpu_index u32
  | CompleteWake cpu_index u32
  | BeginMigration cpu_index execution_guards
  | CommitMigration cpu_index u32
  | RollbackMigration u32
  | BeginDying
  | MarkDead
  | Reap

text \<open>The outcome of a call: the error if it was refused, and the state it leaves.\<close>

definition outcome :: "'a lifecycle_result \<Rightarrow> lifecycle_error option \<times> task_lifecycle" where
  "outcome r = (case r of (Inl e, s) \<Rightarrow> (Some e, s) | (Inr _, s) \<Rightarrow> (None, s))"

fun lifecycle_apply ::
  "lifecycle_call \<Rightarrow> task_lifecycle \<Rightarrow> lifecycle_error option \<times> task_lifecycle" where
  "lifecycle_apply (DeferReady cpu) s = outcome (defer_ready s cpu)"
| "lifecycle_apply (EnqueueReady cpu) s = outcome (enqueue_ready s cpu)"
| "lifecycle_apply (StartRunning cpu) s = outcome (start_running s cpu)"
| "lifecycle_apply (Preempt cpu) s = outcome (preempt s cpu)"
| "lifecycle_apply (BeginBlock cpu epoch) s = outcome (begin_block s cpu epoch)"
| "lifecycle_apply (CompleteBlock cpu epoch) s = outcome (complete_block s cpu epoch)"
| "lifecycle_apply (Wake cpu epoch) s = outcome (wake s cpu epoch)"
| "lifecycle_apply (CompleteWake cpu epoch) s = outcome (complete_wake s cpu epoch)"
| "lifecycle_apply (BeginMigration cpu guards) s = outcome (begin_migration s cpu guards)"
| "lifecycle_apply (CommitMigration cpu generation) s = outcome (commit_migration s cpu generation)"
| "lifecycle_apply (RollbackMigration generation) s = outcome (rollback_migration s generation)"
| "lifecycle_apply BeginDying s = outcome (begin_dying s)"
| "lifecycle_apply MarkDead s = outcome (mark_dead s)"
| "lifecycle_apply Reap s = outcome (reap s)"

definition lifecycle_edges :: "(task_state \<times> task_state) set" where
  "lifecycle_edges =
     {(Embryo, DeferredReady), (DeferredReady, Ready), (Ready, Running), (Running, Ready),
      (Running, Blocking), (Blocking, Blocked), (Blocking, Waking), (Blocked, Waking),
      (Waking, Ready), (Ready, Migrating), (Blocked, Migrating), (Migrating, Ready),
      (Migrating, Blocked), (Ready, Dying), (Running, Dying), (Blocked, Dying), (Dying, Dead),
      (Dead, Reaped)}"

text \<open>Which of the fields are set in each state.\<close>

definition lifecycle_wf :: "task_lifecycle \<Rightarrow> bool" where
  "lifecycle_wf s \<longleftrightarrow>
     (case tl_state s of
        Embryo \<Rightarrow> tl_owner s = None \<and> tl_target s = None \<and> tl_migration_source s = None \<and> \<not> tl_wake_pending s
      | DeferredReady \<Rightarrow> tl_owner s = None \<and> tl_target s \<noteq> None \<and> tl_migration_source s = None \<and> \<not> tl_wake_pending s
      | Blocking \<Rightarrow> tl_owner s \<noteq> None \<and> (tl_target s \<noteq> None \<longleftrightarrow> tl_wake_pending s) \<and> tl_migration_source s = None
      | Waking \<Rightarrow> tl_owner s \<noteq> None \<and> tl_target s \<noteq> None \<and> tl_migration_source s = None
      | Migrating \<Rightarrow> tl_owner s \<noteq> None \<and> tl_target s \<noteq> None \<and> tl_target s \<noteq> tl_owner s
          \<and> tl_migration_source s \<noteq> None \<and> tl_migration_generation s \<noteq> 0 \<and> \<not> tl_wake_pending s
      | Reaped \<Rightarrow> tl_owner s = None \<and> tl_target s = None \<and> tl_migration_source s = None \<and> \<not> tl_wake_pending s
      | _ \<Rightarrow> tl_owner s \<noteq> None \<and> tl_target s = None \<and> tl_migration_source s = None \<and> \<not> tl_wake_pending s)"

lemmas lifecycle_defs = defer_ready_def enqueue_ready_def start_running_def preempt_def
  begin_block_def complete_block_def wake_def complete_wake_def begin_migration_def
  commit_migration_def rollback_migration_def begin_dying_def mark_dead_def reap_def

lemma lifecycle_wf_new: "lifecycle_wf task_lifecycle_new"
  by (simp add: lifecycle_wf_def task_lifecycle_new_def)

lemma max_one_nonzero: "max (g :: u32) 1 \<noteq> 0"
proof
  assume "max g 1 = 0"
  then have "1 \<le> (0 :: u32)" by (metis max.cobounded2)
  then show False by simp
qed

lemma snd_outcome [simp]: "snd (outcome r) = snd r"
  by (cases r; cases "fst r") (simp_all add: outcome_def)

lemma outcome_error: "outcome r = (Some e, s) \<longleftrightarrow> r = (Inl e, s)"
  by (auto simp: outcome_def split: prod.splits sum.splits)

lemma lifecycle_apply_error: "lifecycle_apply c s = (Some e, s') \<Longrightarrow> s' = s"
  by (cases c)
    (auto simp: outcome_error lifecycle_defs Let_def split: if_splits task_state.splits option.splits)

definition along_edge :: "task_lifecycle \<Rightarrow> task_lifecycle \<Rightarrow> bool" where
  "along_edge s s' \<longleftrightarrow> tl_state s' = tl_state s \<or> (tl_state s, tl_state s') \<in> lifecycle_edges"

lemma along_edge_moves:
  "along_edge s (snd (defer_ready s cpu))" "along_edge s (snd (enqueue_ready s cpu))"
  "along_edge s (snd (start_running s cpu))" "along_edge s (snd (preempt s cpu))"
  "along_edge s (snd (begin_block s cpu epoch))" "along_edge s (snd (complete_block s cpu epoch))"
  "along_edge s (snd (wake s cpu epoch))" "along_edge s (snd (complete_wake s cpu epoch))"
  "along_edge s (snd (begin_migration s cpu guards))" "along_edge s (snd (begin_dying s))"
  "along_edge s (snd (mark_dead s))" "along_edge s (snd (reap s))"
  by (cases "tl_state s"; simp add: lifecycle_defs along_edge_def lifecycle_edges_def Let_def)+

lemma along_edge_migration:
  "along_edge s (snd (commit_migration s cpu generation))"
  "along_edge s (snd (rollback_migration s generation))"
  by (simp_all add: commit_migration_def rollback_migration_def along_edge_def lifecycle_edges_def
      source_state_def split: option.split migration_source.split)

lemma lifecycle_apply_edge: "along_edge s (snd (lifecycle_apply c s))"
  by (cases c) (simp_all add: along_edge_moves along_edge_migration)

lemma lifecycle_wf_at:
  "tl_state s = Embryo \<Longrightarrow> lifecycle_wf s \<longleftrightarrow> tl_owner s = None \<and> tl_target s = None
     \<and> tl_migration_source s = None \<and> \<not> tl_wake_pending s"
  "tl_state s = DeferredReady \<Longrightarrow> lifecycle_wf s \<longleftrightarrow> tl_owner s = None \<and> tl_target s \<noteq> None
     \<and> tl_migration_source s = None \<and> \<not> tl_wake_pending s"
  "tl_state s = Blocking \<Longrightarrow> lifecycle_wf s \<longleftrightarrow> tl_owner s \<noteq> None
     \<and> (tl_target s \<noteq> None \<longleftrightarrow> tl_wake_pending s) \<and> tl_migration_source s = None"
  "tl_state s = Waking \<Longrightarrow> lifecycle_wf s \<longleftrightarrow> tl_owner s \<noteq> None \<and> tl_target s \<noteq> None
     \<and> tl_migration_source s = None"
  "tl_state s = Migrating \<Longrightarrow> lifecycle_wf s \<longleftrightarrow> tl_owner s \<noteq> None \<and> tl_target s \<noteq> None
     \<and> tl_target s \<noteq> tl_owner s \<and> tl_migration_source s \<noteq> None \<and> tl_migration_generation s \<noteq> 0
     \<and> \<not> tl_wake_pending s"
  "tl_state s = Reaped \<Longrightarrow> lifecycle_wf s \<longleftrightarrow> tl_owner s = None \<and> tl_target s = None
     \<and> tl_migration_source s = None \<and> \<not> tl_wake_pending s"
  "tl_state s = Ready \<or> tl_state s = Running \<or> tl_state s = Blocked \<or> tl_state s = Dying
     \<or> tl_state s = Dead \<Longrightarrow> lifecycle_wf s \<longleftrightarrow> tl_owner s \<noteq> None \<and> tl_target s = None
     \<and> tl_migration_source s = None \<and> \<not> tl_wake_pending s"
  by (auto simp: lifecycle_wf_def)

lemma lifecycle_wf_moves [intro]:
  assumes "lifecycle_wf s"
  shows "lifecycle_wf (snd (defer_ready s cpu))"
    "lifecycle_wf (snd (enqueue_ready s cpu))"
    "lifecycle_wf (snd (start_running s cpu))"
    "lifecycle_wf (snd (preempt s cpu))"
    "lifecycle_wf (snd (begin_block s cpu epoch))"
    "lifecycle_wf (snd (complete_block s cpu epoch))"
    "lifecycle_wf (snd (complete_wake s cpu epoch))"
    "lifecycle_wf (snd (begin_dying s))"
    "lifecycle_wf (snd (mark_dead s))"
    "lifecycle_wf (snd (reap s))"
  using assms by (cases "tl_state s"; simp add: lifecycle_wf_at defer_ready_def enqueue_ready_def
      start_running_def preempt_def begin_block_def complete_block_def complete_wake_def
      begin_dying_def mark_dead_def reap_def)+

lemma lifecycle_wf_wake [intro]: "lifecycle_wf s \<Longrightarrow> lifecycle_wf (snd (wake s cpu epoch))"
  by (cases "tl_state s") (simp_all add: wake_def lifecycle_wf_at)

lemma lifecycle_wf_migration [intro]:
  assumes "lifecycle_wf s"
  shows "lifecycle_wf (snd (begin_migration s cpu guards))"
    "lifecycle_wf (snd (commit_migration s cpu generation))"
    "lifecycle_wf (snd (rollback_migration s generation))"
proof -
  have "max (tl_migration_generation s + 1) 1 \<noteq> 0" by (rule max_one_nonzero)
  with assms show "lifecycle_wf (snd (begin_migration s cpu guards))"
    by (cases "tl_state s") (simp_all add: begin_migration_def lifecycle_wf_at Let_def)
  have restored: "lifecycle_wf (s\<lparr>tl_state := source_state m, tl_owner := ow, tl_target := None,
      tl_migration_source := None\<rparr>)" if "tl_state s = Migrating" "ow \<noteq> None" for m ow
    using assms that by (cases m) (simp_all add: lifecycle_wf_at source_state_def)
  show "lifecycle_wf (snd (commit_migration s cpu generation))"
    using assms restored [of "Some cpu"] by (simp add: commit_migration_def split: option.splits)
  have "lifecycle_wf (s\<lparr>tl_state := source_state m, tl_target := None, tl_migration_source := None\<rparr>)"
    if "tl_state s = Migrating" for m
    using assms that by (cases m) (simp_all add: lifecycle_wf_at source_state_def)
  then show "lifecycle_wf (snd (rollback_migration s generation))"
    using assms by (simp add: rollback_migration_def split: option.splits)
qed

lemma lifecycle_apply_wf: "lifecycle_wf s \<Longrightarrow> lifecycle_wf (snd (lifecycle_apply c s))"
  by (cases c) (simp_all add: lifecycle_wf_moves lifecycle_wf_wake lifecycle_wf_migration)

text \<open>
  C26: every lifecycle method either is refused and leaves the task untouched, or keeps the owner,
  target, migration source and pending wake consistent with the state and moves along an edge of
  the state graph. In particular a task has an owner exactly from its first enqueue until it is
  reaped, and nothing leaves \<open>Reaped\<close>.
\<close>

theorem lifecycle_legal:
  assumes "lifecycle_wf s" "lifecycle_apply c s = (r, s')"
  shows "lifecycle_wf s' \<and> (r \<noteq> None \<longrightarrow> s' = s)
    \<and> (tl_state s' = tl_state s \<or> (tl_state s, tl_state s') \<in> lifecycle_edges)"
  using assms lifecycle_apply_wf [of s c] lifecycle_apply_error [of c s _ s']
    lifecycle_apply_edge [of s c]
  by (cases r) (auto simp: along_edge_def)

theorem lifecycle_legal_witness:
  "\<exists>r s'. lifecycle_wf task_lifecycle_new
     \<and> lifecycle_apply (DeferReady (CpuIndex 2)) task_lifecycle_new = (r, s')
     \<and> lifecycle_wf s' \<and> tl_state s' = DeferredReady"
  using lifecycle_legal [OF lifecycle_wf_new, of "DeferReady (CpuIndex 2)"] lifecycle_wf_new
  by (simp add: outcome_def defer_ready_def task_lifecycle_new_def)

section \<open>Wakes are not lost\<close>

text \<open>
  A task with the note whether a wake has been accepted since it last went to sleep and not yet
  been completed. Any sequence of calls from any CPU drives it.
\<close>

record wake_world =
  ww_task :: task_lifecycle
  ww_woken :: bool

fun wake_note :: "lifecycle_call \<Rightarrow> task_lifecycle \<Rightarrow> bool \<Rightarrow> bool" where
  "wake_note (Wake cpu epoch) s woken = (fst (wake s cpu epoch) = Inr True \<or> woken)"
| "wake_note (BeginBlock cpu epoch) s woken = (fst (begin_block s cpu epoch) \<noteq> Inr () \<and> woken)"
| "wake_note (CompleteWake cpu epoch) s woken = (fst (complete_wake s cpu epoch) \<noteq> Inr () \<and> woken)"
| "wake_note _ s woken = woken"

inductive wake_step :: "wake_world \<Rightarrow> wake_world \<Rightarrow> bool" where
  call: "wake_step w \<lparr>ww_task = snd (lifecycle_apply c (ww_task w)),
                      ww_woken = wake_note c (ww_task w) (ww_woken w)\<rparr>"

definition wake_world_start :: "wake_world \<Rightarrow> bool" where
  "wake_world_start w \<longleftrightarrow> w = \<lparr>ww_task = task_lifecycle_new, ww_woken = False\<rparr>"

definition awake_or_waking :: "task_lifecycle \<Rightarrow> bool" where
  "awake_or_waking s \<longleftrightarrow> tl_state s = Waking \<or> tl_state s = Blocking \<and> tl_wake_pending s"

definition wake_world_inv :: "wake_world \<Rightarrow> bool" where
  "wake_world_inv w \<longleftrightarrow> lifecycle_wf (ww_task w) \<and> (ww_woken w \<longrightarrow> awake_or_waking (ww_task w))"

lemma wake_note_inv:
  assumes "wake_note c s woken" "woken \<longrightarrow> awake_or_waking s"
  shows "awake_or_waking (snd (lifecycle_apply c s))"
proof (cases c)
  case (Wake cpu epoch)
  then show ?thesis
    using assms by (cases "tl_state s") (auto simp: wake_def awake_or_waking_def split: if_splits)
qed (use assms in \<open>auto simp: lifecycle_defs awake_or_waking_def Let_def split: if_splits\<close>)

interpretation wake_protocol: invariant_machine wake_world_start wake_step wake_world_inv
proof
  show "wake_world_inv w" if "wake_world_start w" for w
    using that lifecycle_wf_new by (simp add: wake_world_start_def wake_world_inv_def)
  show "wake_world_inv w'" if "wake_world_inv w" "wake_step w w'" for w w'
    using that(2,1)
    by (cases rule: wake_step.cases)
      (auto simp: wake_world_inv_def lifecycle_apply_wf intro: wake_note_inv)
qed

lemma complete_block_woken:
  "tl_state s = Blocking \<Longrightarrow> tl_wake_pending s \<Longrightarrow> tl_owner s = Some cpu \<Longrightarrow>
     complete_block s cpu (tl_wait_epoch s) =
       (Inr False, s\<lparr>tl_state := Waking, tl_target := (if tl_target s = None then Some cpu else tl_target s)\<rparr>)"
  by (simp add: complete_block_def)

text \<open>
  C5: no wakeup is lost. Over any sequence of lifecycle calls, once a wake has been accepted the
  task is not \<open>Blocked\<close> until the wake completes: it is \<open>Waking\<close>, or it is still on its way to
  sleep and its completion of the block turns it to \<open>Waking\<close>; and a waking task has a target CPU
  whose completion makes it \<open>Ready\<close> there.
\<close>

theorem wake_not_lost:
  assumes "wake_world_start w0" "wake_step\<^sup>*\<^sup>* w0 w" "ww_woken w" and s: "s = ww_task w"
  shows "tl_state s \<noteq> Blocked
    \<and> (\<exists>s1. (s1 = s \<or> (\<exists>cpu. complete_block s cpu (tl_wait_epoch s) = (Inr False, s1)))
        \<and> (\<exists>cpu s2. complete_wake s1 cpu (tl_wait_epoch s) = (Inr (), s2)
             \<and> tl_state s2 = Ready \<and> tl_owner s2 = Some cpu))"
proof -
  have inv: "lifecycle_wf s" "awake_or_waking s"
    using wake_protocol.reachable_inv [OF assms(1,2)] assms(3) by (simp_all add: wake_world_inv_def s)
  have wakes: "\<exists>cpu s2. complete_wake t cpu (tl_wait_epoch t) = (Inr (), s2)
      \<and> tl_state s2 = Ready \<and> tl_owner s2 = Some cpu" if "tl_state t = Waking" "tl_target t \<noteq> None" for t
    using that by (auto simp: complete_wake_def)
  show ?thesis
  proof (cases "tl_state s = Waking")
    case True
    with inv(1) wakes [of s] show ?thesis by (auto simp: lifecycle_wf_at)
  next
    case False
    with inv obtain cpu where blocking: "tl_state s = Blocking" "tl_wake_pending s" "tl_owner s = Some cpu"
      by (auto simp: awake_or_waking_def lifecycle_wf_at)
    let ?s1 = "s\<lparr>tl_state := Waking, tl_target := (if tl_target s = None then Some cpu else tl_target s)\<rparr>"
    have "complete_block s cpu (tl_wait_epoch s) = (Inr False, ?s1)"
      using blocking by (rule complete_block_woken)
    moreover have "\<exists>cpu s2. complete_wake ?s1 cpu (tl_wait_epoch s) = (Inr (), s2)
        \<and> tl_state s2 = Ready \<and> tl_owner s2 = Some cpu"
      using wakes [of ?s1] by simp
    ultimately show ?thesis using blocking(1) by auto
  qed
qed

definition wake_calls :: "lifecycle_call list \<Rightarrow> wake_world \<Rightarrow> wake_world" where
  "wake_calls = fold (\<lambda>c w. \<lparr>ww_task = snd (lifecycle_apply c (ww_task w)),
                          ww_woken = wake_note c (ww_task w) (ww_woken w)\<rparr>)"

lemma wake_calls_reach: "wake_step\<^sup>*\<^sup>* w (wake_calls cs w)"
proof (induction cs arbitrary: w)
  case (Cons c cs)
  show ?case
    using converse_rtranclp_into_rtranclp [of wake_step, OF wake_step.call Cons.IH]
    by (simp add: wake_calls_def)
qed (simp add: wake_calls_def)

theorem wake_not_lost_witness:
  "\<exists>w0 w. wake_world_start w0 \<and> wake_step\<^sup>*\<^sup>* w0 w \<and> ww_woken w \<and> tl_state (ww_task w) = Blocking
     \<and> tl_state (ww_task w) \<noteq> Blocked
     \<and> (\<exists>s1. (s1 = ww_task w
            \<or> (\<exists>cpu. complete_block (ww_task w) cpu (tl_wait_epoch (ww_task w)) = (Inr False, s1)))
          \<and> (\<exists>cpu s2. complete_wake s1 cpu (tl_wait_epoch (ww_task w)) = (Inr (), s2)
               \<and> tl_state s2 = Ready \<and> tl_owner s2 = Some cpu))"
proof -
  let ?c = "CpuIndex 1"
  let ?start = "\<lparr>ww_task = task_lifecycle_new, ww_woken = False\<rparr>"
  let ?w = "wake_calls [DeferReady ?c, EnqueueReady ?c, StartRunning ?c, BeginBlock ?c 5,
      Wake (CpuIndex 2) 5] ?start"
  have start: "wake_world_start ?start" by (simp add: wake_world_start_def)
  have woken: "ww_woken ?w" and state: "tl_state (ww_task ?w) = Blocking"
    by (simp_all add: wake_calls_def task_lifecycle_new_def defer_ready_def enqueue_ready_def
        start_running_def begin_block_def wake_def)
  show ?thesis
    using wake_not_lost [OF start wake_calls_reach woken refl] start wake_calls_reach woken state
    by blast
qed

section \<open>Two-phase migration\<close>

text \<open>
  A migration is atomic. Once begun, no CPU can run the task; the commit by the target with the
  returned generation gives exactly the original task owned by the target, the rollback gives
  exactly the original task, and any other generation or CPU is refused without effect.
\<close>

theorem migration_atomic:
  assumes "lifecycle_wf s" "begin_migration s target guards = (Inr generation, s')"
  shows "commit_migration s' target generation =
      (Inr (), s\<lparr>tl_owner := Some target, tl_migration_generation := generation\<rparr>)
    \<and> rollback_migration s' generation = (Inr (), s\<lparr>tl_migration_generation := generation\<rparr>)
    \<and> (\<forall>cpu. start_running s' cpu = (Inl WrongState, s'))
    \<and> (\<forall>cpu g. cpu \<noteq> target \<or> g \<noteq> generation \<longrightarrow>
         (\<exists>e. commit_migration s' cpu g = (Inl e, s')))
    \<and> (\<forall>g. g \<noteq> generation \<longrightarrow> rollback_migration s' g = (Inl StaleEpoch, s'))
    \<and> can_migrate guards \<and> generation \<noteq> 0"
proof -
  have gen: "generation = max (tl_migration_generation s + 1) 1" and guards: "can_migrate guards"
    and state: "tl_state s = Ready \<or> tl_state s = Blocked"
    using assms(2) by (auto simp: begin_migration_def Let_def split: if_splits task_state.splits)
  define source where "source = (if tl_state s = Ready then FromReady else FromBlocked)"
  have s': "s' = s\<lparr>tl_migration_generation := generation, tl_migration_source := Some source,
      tl_target := Some target, tl_state := Migrating\<rparr>"
    using assms(2) state
    by (auto simp: begin_migration_def Let_def source_def split: if_splits)
  have fields: "tl_target s = None" "tl_migration_source s = None"
    using assms(1) state by (auto simp: lifecycle_wf_at)
  have restored: "source_state source = tl_state s"
    using state by (auto simp: source_def source_state_def)
  have "commit_migration s' target generation =
      (Inr (), s\<lparr>tl_owner := Some target, tl_migration_generation := generation\<rparr>)"
    using fields restored by (cases s) (simp add: s' commit_migration_def)
  moreover have "rollback_migration s' generation = (Inr (), s\<lparr>tl_migration_generation := generation\<rparr>)"
    using fields restored by (cases s) (simp add: s' rollback_migration_def)
  moreover have "\<exists>e. commit_migration s' cpu g = (Inl e, s')" if "cpu \<noteq> target \<or> g \<noteq> generation" for cpu g
    using that by (auto simp: s' commit_migration_def)
  moreover have "rollback_migration s' g = (Inl StaleEpoch, s')" if "g \<noteq> generation" for g
    using that by (simp add: s' rollback_migration_def)
  moreover have "start_running s' cpu = (Inl WrongState, s')" for cpu
    by (simp add: s' start_running_def)
  ultimately show ?thesis
    using guards gen max_one_nonzero by auto
qed

definition sample_ready :: task_lifecycle where
  "sample_ready = task_lifecycle_new\<lparr>tl_state := Ready, tl_owner := Some (CpuIndex 0)\<rparr>"

theorem migration_atomic_witness:
  "\<exists>s'. lifecycle_wf sample_ready
     \<and> begin_migration sample_ready (CpuIndex 1) execution_guards_new = (Inr 1, s')
     \<and> commit_migration s' (CpuIndex 1) 1 =
         (Inr (), sample_ready\<lparr>tl_owner := Some (CpuIndex 1), tl_migration_generation := 1\<rparr>)"
proof -
  have wf: "lifecycle_wf sample_ready"
    by (simp add: sample_ready_def lifecycle_wf_at task_lifecycle_new_def)
  obtain s' where "begin_migration sample_ready (CpuIndex 1) execution_guards_new = (Inr 1, s')"
    by (simp add: sample_ready_def task_lifecycle_new_def begin_migration_def can_migrate_def
        execution_guards_new_def Let_def)
  with migration_atomic [OF wf this] wf show ?thesis by blast
qed

end
