(* ===== verification/Task_Inbox.thy ===== *)
theory Task_Inbox
  imports Task_Identity
begin

unbundle bit_operations_syntax

text \<open>
  The notification bitmap of a processor (\<open>huesos-sched/src/lib.rs\<close>, \<open>TaskInbox\<close>): a bit per
  task slot, a summary bit per word of task bits, and the \<open>armed\<close> flag that coalesces
  interprocessor interrupts. The first part shows that, call by call, the inbox is a set of slots
  that a drain returns in order, each once. The second part interleaves the atomic accesses of any
  number of producers with those of the owner's drain and shows that no published slot is stranded.
\<close>

section \<open>The inbox and its methods\<close>

definition TASK_INBOX_WORDS :: nat where
  [simp]: "TASK_INBOX_WORDS = MAX_TASKS div 64"

definition TASK_INBOX_SUMMARY_WORDS :: nat where
  [simp]: "TASK_INBOX_SUMMARY_WORDS = TASK_INBOX_WORDS div 64"

record inbox_location =
  il_task_word :: nat
  il_task_bit :: u64
  il_summary_word :: nat
  il_summary_bit :: u64

definition inbox_location :: "nat \<Rightarrow> inbox_location option" where
  "inbox_location slot =
     (if MAX_TASKS \<le> slot then None
      else let task_word = slot div 64; summary_slot = task_word in
        Some \<lparr>il_task_word = task_word, il_task_bit = push_bit (slot mod 64) 1,
              il_summary_word = summary_slot div 64, il_summary_bit = push_bit (summary_slot mod 64) 1\<rparr>)"

record publish_result =
  pr_send_ipi :: bool
  pr_newly_pending :: bool

record task_inbox =
  ti_words :: "u64 list"
  ti_summary :: "u64 list"
  ti_armed :: bool

definition task_inbox_new :: task_inbox where
  "task_inbox_new =
     \<lparr>ti_words = replicate TASK_INBOX_WORDS 0, ti_summary = replicate TASK_INBOX_SUMMARY_WORDS 0,
      ti_armed = False\<rparr>"

text \<open>The single atomic accesses.\<close>

definition or_word :: "inbox_location \<Rightarrow> task_inbox \<Rightarrow> task_inbox" where
  "or_word l i =
     i\<lparr>ti_words := (ti_words i)[il_task_word l := ti_words i ! il_task_word l OR il_task_bit l]\<rparr>"

definition or_summary :: "inbox_location \<Rightarrow> task_inbox \<Rightarrow> task_inbox" where
  "or_summary l i =
     i\<lparr>ti_summary := (ti_summary i)[il_summary_word l := ti_summary i ! il_summary_word l OR il_summary_bit l]\<rparr>"

definition set_armed :: "bool \<Rightarrow> task_inbox \<Rightarrow> task_inbox" where
  "set_armed b i = i\<lparr>ti_armed := b\<rparr>"

definition take_summary :: "nat \<Rightarrow> task_inbox \<Rightarrow> u64 \<times> task_inbox" where
  "take_summary summary_index i =
     (ti_summary i ! summary_index, i\<lparr>ti_summary := (ti_summary i)[summary_index := 0]\<rparr>)"

definition take_word :: "nat \<Rightarrow> task_inbox \<Rightarrow> u64 \<times> task_inbox" where
  "take_word word_index i =
     (ti_words i ! word_index, i\<lparr>ti_words := (ti_words i)[word_index := 0]\<rparr>)"

definition has_pending :: "task_inbox \<Rightarrow> bool" where
  "has_pending i \<longleftrightarrow> list_ex (\<lambda>word. word \<noteq> 0) (ti_summary i)"

definition inbox_publish :: "task_inbox \<Rightarrow> nat \<Rightarrow> publish_result option \<times> task_inbox" where
  "inbox_publish i slot =
     (case inbox_location slot of
        None \<Rightarrow> (None, i)
      | Some l \<Rightarrow>
          let previous = ti_words i ! il_task_word l;
              i' = or_summary l (or_word l i);
              send_ipi = (\<not> ti_armed i')
          in (Some \<lparr>pr_send_ipi = send_ipi, pr_newly_pending = (previous AND il_task_bit l = 0)\<rparr>,
              set_armed True i'))"

text \<open>
  One pass of \<open>drain\<close>: the inner loops over the set bits are \<open>bits_of\<close>, and the slots are
  returned in the order \<open>consume\<close> is called on them.
\<close>

fun drain_words :: "nat \<Rightarrow> nat list \<Rightarrow> task_inbox \<Rightarrow> nat list \<times> task_inbox" where
  "drain_words summary_index [] i = ([], i)"
| "drain_words summary_index (b # bits) i =
     (let word_index = summary_index * 64 + b;
          (tasks, i') = take_word word_index i;
          (rest, i'') = drain_words summary_index bits i'
      in (map (\<lambda>task_bit. word_index * 64 + task_bit) (bits_of tasks) @ rest, i''))"

fun drain_summaries :: "nat list \<Rightarrow> task_inbox \<Rightarrow> nat list \<times> task_inbox" where
  "drain_summaries [] i = ([], i)"
| "drain_summaries (summary_index # indexes) i =
     (let (dirty, i') = take_summary summary_index i;
          (slots, i'') = drain_words summary_index (bits_of dirty) i';
          (rest, i''') = drain_summaries indexes i''
      in (slots @ rest, i'''))"

text \<open>
  The outer loop. Nothing else touches the inbox here, so a second pass is needed only if the
  first left a summary bit; the fuel bounds the number of passes and \<open>None\<close> means it ran out.
\<close>

fun inbox_drain :: "nat \<Rightarrow> task_inbox \<Rightarrow> (nat list \<times> task_inbox) option" where
  "inbox_drain 0 i = None"
| "inbox_drain (Suc fuel) i =
     (let (slots, i') = drain_summaries [0..<TASK_INBOX_SUMMARY_WORDS] i;
          i'' = set_armed False i'
      in if \<not> has_pending i'' then Some (slots, i'')
         else if ti_armed i'' then Some (slots, set_armed True i'')
         else map_option (\<lambda>(rest, j). (slots @ rest, j)) (inbox_drain fuel (set_armed True i'')))"

section \<open>The inbox as a set of slots\<close>

definition inbox_wf :: "task_inbox \<Rightarrow> bool" where
  "inbox_wf i \<longleftrightarrow> length (ti_words i) = 128 \<and> length (ti_summary i) = 2"

definition inbox_slots :: "task_inbox \<Rightarrow> nat set" where
  "inbox_slots i = {slot. slot < MAX_TASKS \<and> bitmap_test (ti_words i) slot}"

text \<open>Between two calls every nonzero word has its summary bit.\<close>

definition summarised :: "task_inbox \<Rightarrow> bool" where
  "summarised i \<longleftrightarrow> (\<forall>slot. slot \<in> inbox_slots i \<longrightarrow> bitmap_test (ti_summary i) (slot div 64))"

lemma or_word_bitmap:
  "inbox_location slot = Some l \<Longrightarrow> ti_words (or_word l i) = bitmap_set (ti_words i) slot"
  by (auto simp: inbox_location_def or_word_def bitmap_set_def Let_def split: if_splits)

lemma or_summary_bitmap:
  "inbox_location slot = Some l \<Longrightarrow>
     ti_summary (or_summary l i) = bitmap_set (ti_summary i) (slot div 64)"
  by (auto simp: inbox_location_def or_summary_def bitmap_set_def Let_def split: if_splits)

lemma inbox_bits [simp]:
  "inbox_wf i \<Longrightarrow> bitmap_bits (ti_words i) = 8192" "inbox_wf i \<Longrightarrow> bitmap_bits (ti_summary i) = 128"
  by (simp_all add: inbox_wf_def bitmap_bits_def)

lemma access_fields [simp]:
  "ti_summary (or_word l i) = ti_summary i" "ti_armed (or_word l i) = ti_armed i"
  "ti_words (or_summary l i) = ti_words i" "ti_armed (or_summary l i) = ti_armed i"
  "ti_words (set_armed b i) = ti_words i" "ti_summary (set_armed b i) = ti_summary i"
  "ti_armed (set_armed b i) = b"
  by (simp_all add: or_word_def or_summary_def set_armed_def)

lemma inbox_slots_or_word:
  "inbox_wf i \<Longrightarrow> inbox_location slot = Some l \<Longrightarrow> inbox_slots (or_word l i) = insert slot (inbox_slots i)"
  by (auto simp: inbox_slots_def or_word_bitmap bitmap_test_set inbox_location_def split: if_splits)

lemma inbox_slots_cong: "ti_words i = ti_words j \<Longrightarrow> inbox_slots i = inbox_slots j"
  by (simp add: inbox_slots_def)

lemma inbox_wf_access [simp]:
  "inbox_wf (or_word l i) = inbox_wf i" "inbox_wf (or_summary l i) = inbox_wf i"
  "inbox_wf (set_armed b i) = inbox_wf i" "inbox_wf (snd (take_word w i)) = inbox_wf i"
  "inbox_wf (snd (take_summary si i)) = inbox_wf i"
  by (simp_all add: inbox_wf_def or_word_def or_summary_def set_armed_def take_word_def take_summary_def)

lemma inbox_slots_take_word:
  "inbox_wf i \<Longrightarrow> w < 128 \<Longrightarrow>
     inbox_slots (snd (take_word w i)) = inbox_slots i - {slot. slot div 64 = w}"
  by (auto simp: inbox_slots_def take_word_def bitmap_test_zero_word inbox_wf_def)

lemma slots_of_word:
  "inbox_wf i \<Longrightarrow> w < 128 \<Longrightarrow>
     set (map (\<lambda>b. w * 64 + b) (bits_of (fst (take_word w i)))) = {slot \<in> inbox_slots i. slot div 64 = w}"
proof -
  assume w: "w < 128"
  have image: "slot \<in> (\<lambda>b. w * 64 + b) ` {b. bit x b} \<longleftrightarrow> slot div 64 = w \<and> bit x (slot mod 64)"
    for slot and x :: u64
  proof
    assume "slot \<in> (\<lambda>b. w * 64 + b) ` {b. bit x b}"
    then obtain b where "slot = w * 64 + b" "bit x b" by blast
    then show "slot div 64 = w \<and> bit x (slot mod 64)" using bit_imp_le_length [of x b] by simp
  next
    assume "slot div 64 = w \<and> bit x (slot mod 64)"
    moreover have "slot = slot div 64 * 64 + slot mod 64" by simp
    ultimately show "slot \<in> (\<lambda>b. w * 64 + b) ` {b. bit x b}" by blast
  qed
  have "slot < 8192" if "slot div 64 = w" for slot
    using that w by linarith
  then have "slot div 64 = w \<and> bit (ti_words i ! w) (slot mod 64) \<longleftrightarrow> slot \<in> inbox_slots i \<and> slot div 64 = w"
    for slot by (auto simp: inbox_slots_def bitmap_test_bit)
  then show ?thesis
    by (simp only: set_map set_bits_of take_word_def fst_conv set_eq_iff image mem_Collect_eq) blast
qed

lemma sorted_word_slots: "sorted_wrt (<) (map (\<lambda>b. n + b) (bits_of (x :: u64)))"
  using sorted_bits_of [of x] by (simp add: sorted_wrt_map)

text \<open>The words whose summary bits are drained lose exactly their slots, which come out in order.\<close>

definition drained :: "nat set \<Rightarrow> task_inbox \<Rightarrow> nat list \<times> task_inbox \<Rightarrow> bool" where
  "drained W i r \<longleftrightarrow> inbox_wf (snd r) \<and> ti_armed (snd r) = ti_armed i
     \<and> set (fst r) = {slot \<in> inbox_slots i. slot div 64 \<in> W}
     \<and> inbox_slots (snd r) = inbox_slots i - {slot. slot div 64 \<in> W}
     \<and> sorted_wrt (<) (fst r)"

lemma drained_append:
  assumes "drained W i (xs, j)" "drained V j (ys, k)" "\<forall>w\<in>W. \<forall>v\<in>V. w < v"
  shows "drained (W \<union> V) i (xs @ ys, k)"
proof -
  have "x < y" if "x \<in> set xs" "y \<in> set ys" for x y
  proof -
    have "x div 64 < y div 64" using assms that by (auto simp: drained_def)
    then show ?thesis by (metis div_le_mono not_less)
  qed
  moreover have "sorted_wrt (<) xs" "sorted_wrt (<) ys"
    using assms(1,2) by (simp_all only: drained_def fst_conv)
  ultimately have sorted: "sorted_wrt (<) (xs @ ys)" by (simp add: sorted_wrt_append)
  have "set (xs @ ys) = {slot \<in> inbox_slots i. slot div 64 \<in> W \<union> V}"
    "inbox_slots k = inbox_slots i - {slot. slot div 64 \<in> W \<union> V}"
    using assms(1,2) by (auto simp: drained_def)
  with sorted assms(1,2) show ?thesis by (simp only: drained_def fst_conv snd_conv)
qed

lemma drain_words_drained:
  "inbox_wf i \<Longrightarrow> si < 2 \<Longrightarrow> sorted_wrt (<) bs \<Longrightarrow> set bs \<subseteq> {..<64} \<Longrightarrow>
     drained ((\<lambda>b. si * 64 + b) ` set bs) i (drain_words si bs i)
   \<and> ti_summary (snd (drain_words si bs i)) = ti_summary i"
proof (induction bs arbitrary: i)
  case (Cons b bs)
  let ?w = "si * 64 + b"
  obtain tasks j where j: "take_word ?w i = (tasks, j)" by force
  obtain rest k where k: "drain_words si bs j = (rest, k)" by force
  have w: "?w < 128" using Cons.prems by simp
  have jf: "inbox_wf j" "ti_summary j = ti_summary i" "ti_armed j = ti_armed i"
    "inbox_slots j = inbox_slots i - {slot. slot div 64 = ?w}"
    "set (map (\<lambda>t. ?w * 64 + t) (bits_of tasks)) = {slot \<in> inbox_slots i. slot div 64 = ?w}"
    using inbox_slots_take_word [OF Cons.prems(1) w] slots_of_word [OF Cons.prems(1) w]
      inbox_wf_access(4) [of ?w i] Cons.prems(1) j
    by (auto simp: take_word_def)
  have first: "drained {?w} i (map (\<lambda>t. ?w * 64 + t) (bits_of tasks), j)"
    unfolding drained_def fst_conv snd_conv singleton_iff
    by (intro conjI jf) (rule sorted_word_slots)
  have ih: "drained ((\<lambda>b. si * 64 + b) ` set bs) j (rest, k)" "ti_summary k = ti_summary j"
    using Cons.IH [OF jf(1)] Cons.prems k by simp_all
  have "\<forall>w\<in>{?w}. \<forall>v\<in>(\<lambda>b. si * 64 + b) ` set bs. w < v"
    using Cons.prems(3) by auto
  from drained_append [OF first ih(1) this]
  have all: "drained ((\<lambda>b. si * 64 + b) ` set (b # bs)) i
      (map (\<lambda>t. ?w * 64 + t) (bits_of tasks) @ rest, k)"
    by (simp only: list.simps image_insert insert_is_Un [symmetric])
  have "drain_words si (b # bs) i = (map (\<lambda>t. ?w * 64 + t) (bits_of tasks) @ rest, k)"
    by (simp only: drain_words.simps j k Let_def prod.case)
  with all ih(2) jf(2) show ?case by (simp only: snd_conv)
qed (simp add: drained_def)

lemma summary_bits_image:
  "si < length ws \<Longrightarrow> (\<lambda>b. si * 64 + b) ` {b. bit (ws ! si) b} = {w. w div 64 = si \<and> bitmap_test (ws :: u64 list) w}"
proof (intro equalityI subsetI)
  fix w assume "w \<in> (\<lambda>b. si * 64 + b) ` {b. bit (ws ! si) b}"
  then obtain b where "w = si * 64 + b" "bit (ws ! si) b" by blast
  then show "w \<in> {w. w div 64 = si \<and> bitmap_test ws w}"
    using bit_imp_le_length [of "ws ! si" b] by (simp add: bitmap_test_bit)
next
  fix w assume "w \<in> {w. w div 64 = si \<and> bitmap_test ws w}"
  then have "w = si * 64 + w mod 64" "bit (ws ! si) (w mod 64)" by (auto simp: bitmap_test_bit)
  then show "w \<in> (\<lambda>b. si * 64 + b) ` {b. bit (ws ! si) b}" by blast
qed

lemma drain_summaries_drained:
  "inbox_wf i \<Longrightarrow> sorted_wrt (<) sis \<Longrightarrow> set sis \<subseteq> {..<2} \<Longrightarrow>
     drained {w. w div 64 \<in> set sis \<and> bitmap_test (ti_summary i) w} i (drain_summaries sis i)
   \<and> (\<forall>w. bitmap_test (ti_summary (snd (drain_summaries sis i))) w \<longleftrightarrow>
          w div 64 \<notin> set sis \<and> bitmap_test (ti_summary i) w)"
proof (induction sis arbitrary: i)
  case (Cons si sis)
  obtain dirty j where j: "take_summary si i = (dirty, j)" by force
  obtain slots k where k: "drain_words si (bits_of dirty) j = (slots, k)" by force
  obtain rest l where l: "drain_summaries sis k = (rest, l)" by force
  have si: "si < length (ti_summary i)" using Cons.prems by (simp add: inbox_wf_def)
  have jf: "inbox_wf j" "ti_words j = ti_words i" "dirty = ti_summary i ! si" "ti_armed j = ti_armed i"
    "ti_summary j = (ti_summary i)[si := 0]"
    using j inbox_wf_access(5) [of si i] Cons.prems(1) by (auto simp: take_summary_def)
  let ?W = "{w. w div 64 = si \<and> bitmap_test (ti_summary i) w}"
  have "set (bits_of dirty) \<subseteq> {..<64}"
    using bit_imp_le_length [of dirty] by (auto simp: set_bits_of)
  then have dw: "drained ?W i (slots, k)" "ti_summary k = ti_summary j"
    using drain_words_drained [of j si "bits_of dirty"] jf(1) Cons.prems(3) k sorted_bits_of [of dirty]
      summary_bits_image [OF si] inbox_slots_cong [OF jf(2)] jf(4)
    by (auto simp: set_bits_of jf(3) drained_def)
  have sum_k: "bitmap_test (ti_summary k) w \<longleftrightarrow> w div 64 \<noteq> si \<and> bitmap_test (ti_summary i) w" for w
    using bitmap_test_zero_word [OF si, of w] by (simp add: dw(2) jf(5))
  have wf_k: "inbox_wf k" using dw(1) by (simp add: drained_def)
  let ?V = "{w. w div 64 \<in> set sis \<and> bitmap_test (ti_summary k) w}"
  have ih: "drained ?V k (rest, l)"
    "bitmap_test (ti_summary l) w \<longleftrightarrow> w div 64 \<notin> set sis \<and> bitmap_test (ti_summary k) w" for w
    using Cons.IH [OF wf_k] Cons.prems l by auto
  have "x < y" if "x \<in> ?W" "y \<in> ?V" for x y
  proof -
    have "x div 64 < y div 64" using that Cons.prems(2) by auto
    then show ?thesis by (metis div_le_mono not_less)
  qed
  then have "drained (?W \<union> ?V) i (slots @ rest, l)"
    using drained_append [OF dw(1) ih(1)] by blast
  moreover have "?W \<union> ?V = {w. w div 64 \<in> set (si # sis) \<and> bitmap_test (ti_summary i) w}"
    using Cons.prems(2) by (auto simp: sum_k)
  ultimately show ?case
    using j k l ih(2) sum_k by (auto simp: Let_def)
qed (auto simp: drained_def)

lemma has_pending_bitmap: "has_pending i \<longleftrightarrow> (\<exists>w < bitmap_bits (ti_summary i). bitmap_test (ti_summary i) w)"
proof -
  have "has_pending i \<longleftrightarrow> \<not> list_all (\<lambda>w. w = 0) (ti_summary i)"
    by (simp add: has_pending_def list_ex_iff list_all_iff)
  then show ?thesis unfolding all_zero_words by blast
qed

lemma summary_index_lt: "slot < MAX_TASKS \<Longrightarrow> slot div 64 < 128"
  by (simp add: less_mult_imp_div_less)

lemma drain_all:
  assumes "inbox_wf i" "summarised i" "drain_summaries [0..<TASK_INBOX_SUMMARY_WORDS] i = (slots, j)"
  shows "slots = sorted_list_of_set (inbox_slots i) \<and> inbox_slots j = {} \<and> inbox_wf j \<and> \<not> has_pending j"
proof -
  let ?W = "{w. w div 64 \<in> set [0, 1] \<and> bitmap_test (ti_summary i) w}"
  have "[0..<TASK_INBOX_SUMMARY_WORDS] = [0, 1]" by (simp add: upt_rec)
  then have run: "drain_summaries [0, 1] i = (slots, j)" using assms(3) by simp
  have d: "drained ?W i (slots, j)"
    and sum: "\<forall>w. bitmap_test (ti_summary j) w \<longleftrightarrow> w div 64 \<notin> set [0, 1] \<and> bitmap_test (ti_summary i) w"
    using drain_summaries_drained [OF assms(1), of "[0, 1]", unfolded run snd_conv] by simp_all
  have "slot div 64 \<in> ?W" if "slot \<in> inbox_slots i" for slot
    using that assms(2) less_mult_imp_div_less [of "slot div 64" 2 64] summary_index_lt [of slot]
    by (auto simp: summarised_def inbox_slots_def less_2_cases_iff)
  then have all: "{slot \<in> inbox_slots i. slot div 64 \<in> ?W} = inbox_slots i" by blast
  then have "set slots = inbox_slots i" "sorted_wrt (<) slots" "inbox_wf j"
    "inbox_slots j = inbox_slots i - {slot. slot div 64 \<in> ?W}"
    using d by (simp_all only: drained_def fst_conv snd_conv)
  moreover from this all have "inbox_slots j = {}" by blast
  moreover have "\<not> has_pending j"
    using \<open>inbox_wf j\<close> less_mult_imp_div_less [of _ 2 64] sum
    by (auto simp: has_pending_bitmap less_2_cases_iff)
  ultimately show ?thesis
    using sorted_list_of_set.idem_if_sorted_distinct [of slots] strict_sorted_iff by fastforce
qed

lemma publish_refines:
  assumes wf: "inbox_wf i" and sm: "summarised i" and slot: "slot < MAX_TASKS"
  shows "\<exists>j. inbox_publish i slot =
        (Some \<lparr>pr_send_ipi = (\<not> ti_armed i), pr_newly_pending = (slot \<notin> inbox_slots i)\<rparr>, j)
      \<and> inbox_slots j = insert slot (inbox_slots i) \<and> ti_armed j \<and> inbox_wf j \<and> summarised j"
proof -
  obtain l where l: "inbox_location slot = Some l"
    using slot by (simp add: inbox_location_def Let_def)
  let ?j = "set_armed True (or_summary l (or_word l i))"
  have slots: "inbox_slots ?j = insert slot (inbox_slots i)"
    using inbox_slots_cong [of ?j "or_word l i"] inbox_slots_or_word [OF wf l] by simp
  have "ti_words i ! il_task_word l AND il_task_bit l = 0 \<longleftrightarrow> slot \<notin> inbox_slots i"
    using l slot by (auto simp: inbox_location_def inbox_slots_def bitmap_test_def Let_def)
  then have "inbox_publish i slot =
      (Some \<lparr>pr_send_ipi = (\<not> ti_armed i), pr_newly_pending = (slot \<notin> inbox_slots i)\<rparr>, ?j)"
    by (simp add: inbox_publish_def l Let_def)
  moreover have "bitmap_test (ti_summary ?j) w \<longleftrightarrow> w = slot div 64 \<or> bitmap_test (ti_summary i) w" for w
    using wf summary_index_lt [OF slot] by (auto simp: or_summary_bitmap [OF l] bitmap_test_set)
  then have "summarised ?j" using sm slots by (auto simp: summarised_def)
  ultimately show ?thesis using slots wf by auto
qed

lemma inbox_new_props: "inbox_wf task_inbox_new" "summarised task_inbox_new" "inbox_slots task_inbox_new = {}"
proof -
  show "inbox_wf task_inbox_new" by (simp add: inbox_wf_def task_inbox_new_def)
  show "inbox_slots task_inbox_new = {}"
    by (auto simp: inbox_slots_def task_inbox_new_def bitmap_test_bit less_mult_imp_div_less)
  then show "summarised task_inbox_new" by (simp add: summarised_def)
qed

text \<open>
  C27: call by call, the inbox is a set of slots. \<open>publish\<close> adds a slot, reports whether it was
  new and asks for an interrupt exactly when the inbox was not armed; a slot out of range is
  refused. A drain always finishes in one pass, hands out every pending slot exactly once in
  increasing order, and leaves the inbox empty and disarmed.
\<close>

theorem inbox_refines_set:
  assumes "inbox_wf i" "summarised i"
  shows "(slot < MAX_TASKS \<longrightarrow> (\<exists>j. inbox_publish i slot =
          (Some \<lparr>pr_send_ipi = (\<not> ti_armed i), pr_newly_pending = (slot \<notin> inbox_slots i)\<rparr>, j)
        \<and> inbox_slots j = insert slot (inbox_slots i) \<and> ti_armed j \<and> inbox_wf j \<and> summarised j))
    \<and> (MAX_TASKS \<le> slot \<longrightarrow> inbox_publish i slot = (None, i))
    \<and> (\<exists>j. inbox_drain (Suc fuel) i = Some (sorted_list_of_set (inbox_slots i), j)
        \<and> inbox_slots j = {} \<and> \<not> ti_armed j \<and> inbox_wf j \<and> summarised j)"
proof (intro conjI impI)
  obtain slots j where j: "drain_summaries [0..<TASK_INBOX_SUMMARY_WORDS] i = (slots, j)" by force
  note all = drain_all [OF assms j]
  have same: "inbox_slots (set_armed False j) = {}" "\<not> has_pending (set_armed False j)"
    using all inbox_slots_cong [of "set_armed False j" j] by (simp_all add: has_pending_def)
  show "\<exists>j. inbox_drain (Suc fuel) i = Some (sorted_list_of_set (inbox_slots i), j)
      \<and> inbox_slots j = {} \<and> \<not> ti_armed j \<and> inbox_wf j \<and> summarised j"
    using all same j
    by (intro exI [of _ "set_armed False j"]) (simp add: summarised_def del: TASK_INBOX_SUMMARY_WORDS_def)
qed (use publish_refines [OF assms] in \<open>simp_all add: inbox_publish_def inbox_location_def\<close>)

theorem inbox_refines_set_witness:
  "inbox_wf task_inbox_new \<and> summarised task_inbox_new
   \<and> (\<exists>j. inbox_publish task_inbox_new 4097 =
           (Some \<lparr>pr_send_ipi = True, pr_newly_pending = True\<rparr>, j) \<and> inbox_slots j = {4097})
   \<and> (\<exists>j. inbox_drain 1 task_inbox_new = Some ([], j))"
proof -
  have armed: "\<not> ti_armed task_inbox_new" by (simp add: task_inbox_new_def)
  show ?thesis
    using inbox_refines_set [OF inbox_new_props(1,2), of 4097 0] inbox_new_props armed by auto
qed

section \<open>Producers and the owner, access by access\<close>

datatype producer_pc =
    PIdle
  | PSummary nat
  | PArm nat
  | PSend

text \<open>
  The owner's drain: about to swap a summary word; with the set bits of the summary word it still
  has to visit; about to disarm; reading the summary words of \<open>has_pending\<close> one by one; about to
  claim the remaining work.
\<close>

datatype owner_pc =
    OIdle
  | OSummary nat
  | OWords nat "nat list"
  | ODisarm
  | OCheck nat
  | ORearm

record inbox_world =
  iw_inbox :: task_inbox
  iw_producer :: "nat \<Rightarrow> producer_pc"
  iw_owner :: owner_pc
  iw_ipi :: bool
  iw_outstanding :: "nat set"

definition producer_to :: "nat \<Rightarrow> producer_pc \<Rightarrow> inbox_world \<Rightarrow> inbox_world" where
  "producer_to p pc w = w\<lparr>iw_producer := (iw_producer w)(p := pc)\<rparr>"

definition next_summary :: "nat \<Rightarrow> owner_pc" where
  "next_summary si = (if Suc si < TASK_INBOX_SUMMARY_WORDS then OSummary (Suc si) else ODisarm)"

inductive inbox_step :: "inbox_world \<Rightarrow> inbox_world \<Rightarrow> bool" where
  publish_word: "iw_producer w p = PIdle \<Longrightarrow> inbox_location slot = Some l \<Longrightarrow>
     inbox_step w (producer_to p (PSummary slot)
       (w\<lparr>iw_inbox := or_word l (iw_inbox w), iw_outstanding := insert slot (iw_outstanding w)\<rparr>))"
| publish_summary: "iw_producer w p = PSummary slot \<Longrightarrow> inbox_location slot = Some l \<Longrightarrow>
     inbox_step w (producer_to p (PArm slot) (w\<lparr>iw_inbox := or_summary l (iw_inbox w)\<rparr>))"
| publish_arm: "iw_producer w p = PArm slot \<Longrightarrow>
     inbox_step w (producer_to p (if ti_armed (iw_inbox w) then PIdle else PSend)
       (w\<lparr>iw_inbox := set_armed True (iw_inbox w)\<rparr>))"
| send_ipi: "iw_producer w p = PSend \<Longrightarrow> inbox_step w (producer_to p PIdle (w\<lparr>iw_ipi := True\<rparr>))"
| drain_on_ipi: "iw_owner w = OIdle \<Longrightarrow> iw_ipi w \<Longrightarrow>
     inbox_step w (w\<lparr>iw_ipi := False, iw_owner := OSummary 0\<rparr>)"
| drain_on_tick: "iw_owner w = OIdle \<Longrightarrow> inbox_step w (w\<lparr>iw_owner := OSummary 0\<rparr>)"
| drain_summary: "iw_owner w = OSummary si \<Longrightarrow> take_summary si (iw_inbox w) = (dirty, i') \<Longrightarrow>
     inbox_step w (w\<lparr>iw_inbox := i', iw_owner := OWords si (bits_of dirty)\<rparr>)"
| drain_word: "iw_owner w = OWords si (b # bs) \<Longrightarrow> take_word (si * 64 + b) (iw_inbox w) = (tasks, i') \<Longrightarrow>
     inbox_step w (w\<lparr>iw_inbox := i', iw_owner := OWords si bs, iw_outstanding :=
       iw_outstanding w - set (map (\<lambda>t. (si * 64 + b) * 64 + t) (bits_of tasks))\<rparr>)"
| drain_next: "iw_owner w = OWords si [] \<Longrightarrow> inbox_step w (w\<lparr>iw_owner := next_summary si\<rparr>)"
| drain_disarm: "iw_owner w = ODisarm \<Longrightarrow>
     inbox_step w (w\<lparr>iw_inbox := set_armed False (iw_inbox w), iw_owner := OCheck 0\<rparr>)"
| drain_check: "iw_owner w = OCheck si \<Longrightarrow>
     inbox_step w (w\<lparr>iw_owner := (if ti_summary (iw_inbox w) ! si \<noteq> 0 then ORearm
       else if Suc si < TASK_INBOX_SUMMARY_WORDS then OCheck (Suc si) else OIdle)\<rparr>)"
| drain_rearm: "iw_owner w = ORearm \<Longrightarrow>
     inbox_step w (w\<lparr>iw_inbox := set_armed True (iw_inbox w),
       iw_owner := (if ti_armed (iw_inbox w) then OIdle else OSummary 0)\<rparr>)"

definition inbox_world_start :: "inbox_world \<Rightarrow> bool" where
  "inbox_world_start w \<longleftrightarrow> iw_inbox w = task_inbox_new \<and> (\<forall>p. iw_producer w p = PIdle)
     \<and> iw_owner w = OIdle \<and> \<not> iw_ipi w \<and> iw_outstanding w = {}"

subsection \<open>The invariant\<close>

fun owner_todo :: "owner_pc \<Rightarrow> nat set" where
  "owner_todo (OWords si bs) = (\<lambda>b. si * 64 + b) ` set bs"
| "owner_todo _ = {}"

fun before_disarm :: "owner_pc \<Rightarrow> bool" where
  "before_disarm (OSummary si) = True"
| "before_disarm (OWords si bs) = True"
| "before_disarm ODisarm = True"
| "before_disarm _ = False"

fun will_see :: "nat \<Rightarrow> owner_pc \<Rightarrow> bool" where
  "will_see word (OCheck si) = (si \<le> word div 64)"
| "will_see word ORearm = True"
| "will_see word pc = before_disarm pc"

fun owner_bounds :: "owner_pc \<Rightarrow> bool" where
  "owner_bounds (OSummary si) = (si < 2)"
| "owner_bounds (OWords si bs) = (si < 2 \<and> set bs \<subseteq> {..<64})"
| "owner_bounds (OCheck si) = (si < 2)"
| "owner_bounds _ = True"

fun summarising :: "nat \<Rightarrow> producer_pc \<Rightarrow> bool" where
  "summarising word (PSummary slot) = (slot div 64 = word)"
| "summarising word _ = False"

fun arming :: "producer_pc \<Rightarrow> bool" where
  "arming (PArm slot) = True"
| "arming _ = False"

definition some_producer :: "(producer_pc \<Rightarrow> bool) \<Rightarrow> inbox_world \<Rightarrow> bool" where
  "some_producer R w \<longleftrightarrow> (\<exists>p. R (iw_producer w p))"

definition data_inv :: "inbox_world \<Rightarrow> bool" where
  "data_inv w \<longleftrightarrow> inbox_wf (iw_inbox w) \<and> owner_bounds (iw_owner w)
     \<and> iw_outstanding w = inbox_slots (iw_inbox w)"

definition summary_inv :: "inbox_world \<Rightarrow> bool" where
  "summary_inv w \<longleftrightarrow> (\<forall>slot. slot \<in> inbox_slots (iw_inbox w) \<longrightarrow>
     bitmap_test (ti_summary (iw_inbox w)) (slot div 64)
   \<or> some_producer (summarising (slot div 64)) w \<or> slot div 64 \<in> owner_todo (iw_owner w))"

definition arm_inv :: "inbox_world \<Rightarrow> bool" where
  "arm_inv w \<longleftrightarrow> (\<forall>word < 128. bitmap_test (ti_summary (iw_inbox w)) word \<longrightarrow>
     ti_armed (iw_inbox w) \<or> some_producer arming w \<or> will_see word (iw_owner w))"

definition ipi_inv :: "inbox_world \<Rightarrow> bool" where
  "ipi_inv w \<longleftrightarrow> (ti_armed (iw_inbox w) \<longrightarrow>
     iw_ipi w \<or> some_producer (\<lambda>pc. pc = PSend) w \<or> before_disarm (iw_owner w))"

lemma some_producer_other:
  "iw_producer w p = pc0 \<Longrightarrow> \<not> R pc0 \<Longrightarrow> some_producer R (producer_to p pc w) \<longleftrightarrow> R pc \<or> some_producer R w"
  by (auto simp: some_producer_def producer_to_def)

lemma some_producer_to: "R pc \<Longrightarrow> some_producer R (producer_to p pc w)"
  by (auto simp: some_producer_def producer_to_def)

lemma some_producer_same [simp]:
  "some_producer R (w\<lparr>iw_inbox := i\<rparr>) = some_producer R w"
  "some_producer R (w\<lparr>iw_outstanding := out\<rparr>) = some_producer R w"
  "some_producer R (w\<lparr>iw_owner := pc\<rparr>) = some_producer R w"
  "some_producer R (w\<lparr>iw_ipi := b\<rparr>) = some_producer R w"
  by (simp_all add: some_producer_def)

lemma producer_to_fields [simp]:
  "iw_inbox (producer_to p pc w) = iw_inbox w" "iw_owner (producer_to p pc w) = iw_owner w"
  "iw_ipi (producer_to p pc w) = iw_ipi w" "iw_outstanding (producer_to p pc w) = iw_outstanding w"
  by (simp_all add: producer_to_def)

lemma inbox_slots_same [simp]:
  "inbox_slots (or_summary l i) = inbox_slots i" "inbox_slots (set_armed b i) = inbox_slots i"
  "inbox_slots (snd (take_summary si i)) = inbox_slots i"
  by (rule inbox_slots_cong; simp add: take_summary_def)+

lemma data_step:
  assumes "inbox_step w w'" "data_inv w"
  shows "data_inv w'"
  using assms
proof (induction rule: inbox_step.induct)
  case (publish_word w p slot l)
  then show ?case by (simp add: data_inv_def inbox_slots_or_word)
next
  case (drain_summary w si dirty i')
  then have "i' = snd (take_summary si (iw_inbox w))" by simp
  with drain_summary show ?case
    using bit_imp_le_length [of dirty] by (auto simp: data_inv_def set_bits_of)
next
  case (drain_word w si b bs tasks i')
  then have i': "i' = snd (take_word (si * 64 + b) (iw_inbox w))"
    "tasks = fst (take_word (si * 64 + b) (iw_inbox w))" by simp_all
  have wf: "inbox_wf (iw_inbox w)" and lt: "si * 64 + b < 128" and bs: "set bs \<subseteq> {..<64}" "si < 2"
    using drain_word.prems drain_word.hyps(1) by (auto simp: data_inv_def)
  have "inbox_slots i' = inbox_slots (iw_inbox w)
      - set (map (\<lambda>t. (si * 64 + b) * 64 + t) (bits_of tasks))"
    unfolding i' slots_of_word [OF wf lt] inbox_slots_take_word [OF wf lt] by blast
  then show ?case
    using drain_word.prems bs i'(1) inbox_wf_access(4) by (simp add: data_inv_def)
next
  case (drain_next w si)
  then show ?case by (auto simp: data_inv_def next_summary_def)
qed (auto simp: data_inv_def)

lemma location_lt: "inbox_location slot = Some l \<Longrightarrow> slot < MAX_TASKS"
  by (simp add: inbox_location_def split: if_splits)

lemma or_summary_test:
  "inbox_wf i \<Longrightarrow> inbox_location slot = Some l \<Longrightarrow>
     bitmap_test (ti_summary (or_summary l i)) word \<longleftrightarrow> word = slot div 64 \<or> bitmap_test (ti_summary i) word"
  using summary_index_lt [OF location_lt] by (auto simp: or_summary_bitmap bitmap_test_set)

lemma take_summary_test:
  "inbox_wf i \<Longrightarrow> si < 2 \<Longrightarrow>
     bitmap_test (ti_summary (snd (take_summary si i))) word \<longleftrightarrow> word div 64 \<noteq> si \<and> bitmap_test (ti_summary i) word"
  by (simp add: take_summary_def bitmap_test_zero_word inbox_wf_def)

lemma take_summary_todo:
  "inbox_wf i \<Longrightarrow> si < 2 \<Longrightarrow> word div 64 = si \<Longrightarrow> bitmap_test (ti_summary i) word \<Longrightarrow>
     word \<in> owner_todo (OWords si (bits_of (fst (take_summary si i))))"
  using summary_bits_image [of si "ti_summary i"] by (simp add: set_bits_of take_summary_def inbox_wf_def)

lemma summary_step:
  assumes "inbox_step w w'" "data_inv w" "summary_inv w"
  shows "summary_inv w'"
  using assms
proof (induction rule: inbox_step.induct)
  case (publish_word w p slot l)
  let ?w = "w\<lparr>iw_inbox := or_word l (iw_inbox w), iw_outstanding := insert slot (iw_outstanding w)\<rparr>"
  have "some_producer (summarising word) (producer_to p (PSummary slot) ?w)
      \<longleftrightarrow> word = slot div 64 \<or> some_producer (summarising word) w" for word
    using some_producer_other [of ?w p PIdle] publish_word.hyps(1) by auto
  then show ?case
    using publish_word by (auto simp: summary_inv_def data_inv_def inbox_slots_or_word)
next
  case (publish_summary w p slot l)
  let ?w = "w\<lparr>iw_inbox := or_summary l (iw_inbox w)\<rparr>"
  have "some_producer (summarising word) (producer_to p (PArm slot) ?w)"
    if "some_producer (summarising word) w" "word \<noteq> slot div 64" for word
    using that some_producer_other [of ?w p "PSummary slot" "summarising word"] publish_summary.hyps(1) by simp
  then show ?case
    using publish_summary by (auto simp: summary_inv_def data_inv_def or_summary_test)
next
  case (publish_arm w p slot)
  have "some_producer (summarising word) (producer_to p pc (w\<lparr>iw_inbox := i\<rparr>))"
    if "some_producer (summarising word) w" for word pc i
    using that some_producer_other [of "w\<lparr>iw_inbox := i\<rparr>" p "PArm slot" "summarising word"]
      publish_arm.hyps by simp
  then show ?case
    using publish_arm by (auto simp: summary_inv_def)
next
  case (send_ipi w p)
  have "some_producer (summarising word) (producer_to p PIdle (w\<lparr>iw_ipi := True\<rparr>))"
    if "some_producer (summarising word) w" for word
    using that some_producer_other [of "w\<lparr>iw_ipi := True\<rparr>" p PSend "summarising word"] send_ipi.hyps by simp
  then show ?case
    using send_ipi by (auto simp: summary_inv_def)
next
  case (drain_summary w si dirty i')
  then have i': "i' = snd (take_summary si (iw_inbox w))" "dirty = fst (take_summary si (iw_inbox w))"
    by simp_all
  show ?case
    using drain_summary.prems drain_summary.hyps(1) take_summary_todo [of "iw_inbox w" si]
    by (auto simp: summary_inv_def data_inv_def i' take_summary_test simp del: owner_todo.simps(1))
next
  case (drain_word w si b bs tasks i')
  then have i': "i' = snd (take_word (si * 64 + b) (iw_inbox w))" by simp
  have "inbox_wf (iw_inbox w)" "si * 64 + b < 128"
    using drain_word by (auto simp: data_inv_def)
  from inbox_slots_take_word [OF this] show ?case
    using drain_word.prems(2) drain_word.hyps(1)
    by (auto simp: summary_inv_def i' take_word_def)
next
  case (drain_next w si)
  then show ?case by (auto simp: summary_inv_def next_summary_def)
qed (auto simp: summary_inv_def)

lemma arm_inv_owner:
  assumes "arm_inv w"
    and "\<And>word. word < 128 \<Longrightarrow> bitmap_test (ti_summary (iw_inbox w)) word \<Longrightarrow>
      will_see word (iw_owner w) \<Longrightarrow> will_see word pc"
  shows "arm_inv (w\<lparr>iw_owner := pc\<rparr>)"
  using assms by (auto simp: arm_inv_def)

lemma arm_step:
  assumes "inbox_step w w'" "data_inv w" "arm_inv w"
  shows "arm_inv w'"
  using assms
proof (induction rule: inbox_step.induct)
  case (publish_word w p slot l)
  then show ?case
    using some_producer_other
      [of "w\<lparr>iw_inbox := or_word l (iw_inbox w), iw_outstanding := insert slot (iw_outstanding w)\<rparr>" p PIdle arming]
    by (auto simp: arm_inv_def)
next
  case (publish_summary w p slot l)
  then show ?case
    using some_producer_to [of arming "PArm slot" p] by (simp add: arm_inv_def)
next
  case (send_ipi w p)
  then show ?case
    using some_producer_other [of "w\<lparr>iw_ipi := True\<rparr>" p PSend arming] by (auto simp: arm_inv_def)
next
  case (drain_summary w si dirty i')
  then show ?case by (auto simp: arm_inv_def)
next
  case (drain_word w si b bs tasks i')
  then show ?case by (auto simp: arm_inv_def take_word_def)
next
  case (drain_next w si)
  then show ?case by (auto simp: arm_inv_def next_summary_def)
next
  case (drain_check w si)
  have "will_see word (if ti_summary (iw_inbox w) ! si \<noteq> 0 then ORearm
      else if Suc si < TASK_INBOX_SUMMARY_WORDS then OCheck (Suc si) else OIdle)"
    if "word < 128" "bitmap_test (ti_summary (iw_inbox w)) word" "will_see word (iw_owner w)" for word
  proof -
    have "ti_summary (iw_inbox w) ! (word div 64) \<noteq> 0" using that(2) by (auto simp: bitmap_test_bit)
    moreover have "word div 64 < 2" using that(1) by (simp add: less_mult_imp_div_less)
    moreover have "si \<le> word div 64" using that(3) drain_check.hyps by simp
    ultimately show ?thesis by (cases "word div 64 = si") auto
  qed
  then show ?case by (rule arm_inv_owner [OF drain_check.prems(2)])
qed (auto simp: arm_inv_def)

lemma ipi_step:
  assumes "inbox_step w w'" "ipi_inv w"
  shows "ipi_inv w'"
  using assms
proof (induction rule: inbox_step.induct)
  case (publish_word w p slot l)
  then show ?case
    using some_producer_other
      [of "w\<lparr>iw_inbox := or_word l (iw_inbox w), iw_outstanding := insert slot (iw_outstanding w)\<rparr>" p PIdle
        "\<lambda>pc. pc = PSend"]
    by (auto simp: ipi_inv_def)
next
  case (publish_summary w p slot l)
  then show ?case
    using some_producer_other [of "w\<lparr>iw_inbox := or_summary l (iw_inbox w)\<rparr>" p "PSummary slot"
        "\<lambda>pc. pc = PSend"]
    by (auto simp: ipi_inv_def)
next
  case (publish_arm w p slot)
  then show ?case
    using some_producer_other [of "w\<lparr>iw_inbox := set_armed True (iw_inbox w)\<rparr>" p "PArm slot"
        "\<lambda>pc. pc = PSend"]
    by (auto simp: ipi_inv_def)
next
  case (drain_summary w si dirty i')
  then show ?case by (auto simp: ipi_inv_def)
next
  case (drain_word w si b bs tasks i')
  then show ?case by (auto simp: ipi_inv_def take_word_def)
next
  case (drain_next w si)
  then show ?case by (auto simp: ipi_inv_def next_summary_def)
qed (auto simp: ipi_inv_def)

definition inbox_world_inv :: "inbox_world \<Rightarrow> bool" where
  "inbox_world_inv w \<longleftrightarrow> data_inv w \<and> summary_inv w \<and> arm_inv w \<and> ipi_inv w"

interpretation inbox_protocol: invariant_machine inbox_world_start inbox_step inbox_world_inv
proof
  fix w w'
  show "inbox_world_inv w" if "inbox_world_start w"
  proof -
    have "\<not> bitmap_test (ti_summary task_inbox_new) word" if "word < 128" for word
      using that by (simp add: task_inbox_new_def bitmap_test_bit less_mult_imp_div_less)
    with that inbox_new_props show ?thesis
      by (auto simp: inbox_world_start_def inbox_world_inv_def data_inv_def summary_inv_def arm_inv_def
          ipi_inv_def task_inbox_new_def)
  qed
  show "inbox_world_inv w'" if "inbox_world_inv w" "inbox_step w w'"
    using that by (auto simp: inbox_world_inv_def intro: data_step summary_step arm_step ipi_step)
qed

text \<open>
  C2: no published slot is stranded. Under any interleaving of producers with the owner's drain,
  when every producer has returned and the owner is idle, a slot that was published and not
  consumed implies that an interrupt is pending, so that another drain will start; the set of
  slots still in the inbox is exactly the set published and not consumed.
\<close>

theorem inbox_no_stranded_slot:
  assumes "inbox_world_start w0" "inbox_step\<^sup>*\<^sup>* w0 w"
    and "\<forall>p. iw_producer w p = PIdle" "iw_owner w = OIdle"
  shows "inbox_slots (iw_inbox w) = iw_outstanding w \<and> (iw_outstanding w \<noteq> {} \<longrightarrow> iw_ipi w)"
proof -
  have inv: "data_inv w" "summary_inv w" "arm_inv w" "ipi_inv w"
    using inbox_protocol.reachable_inv [OF assms(1,2)] by (simp_all add: inbox_world_inv_def)
  have idle: "\<not> some_producer (summarising n) w" "\<not> some_producer arming w"
    "\<not> some_producer (\<lambda>pc. pc = PSend) w" for n
    using assms(3) by (simp_all add: some_producer_def)
  have "iw_ipi w" if "slot \<in> inbox_slots (iw_inbox w)" for slot
  proof -
    have "slot div 64 < 128" using that summary_index_lt by (auto simp: inbox_slots_def)
    moreover have "bitmap_test (ti_summary (iw_inbox w)) (slot div 64)"
      using inv(2) that idle assms(4) by (auto simp: summary_inv_def)
    ultimately have "ti_armed (iw_inbox w)"
      using inv(3) idle assms(4) by (auto simp: arm_inv_def)
    with inv(4) idle assms(4) show ?thesis by (simp add: ipi_inv_def)
  qed
  with inv(1) show ?thesis by (auto simp: data_inv_def)
qed

lemma inbox_publish_run:
  assumes "iw_producer w p = PIdle" "inbox_location slot = Some l" "\<not> ti_armed (iw_inbox w)"
  shows "inbox_step\<^sup>*\<^sup>* w
    (w\<lparr>iw_inbox := set_armed True (or_summary l (or_word l (iw_inbox w))), iw_ipi := True,
       iw_outstanding := insert slot (iw_outstanding w)\<rparr>)"
proof -
  let ?w1 = "producer_to p (PSummary slot)
      (w\<lparr>iw_inbox := or_word l (iw_inbox w), iw_outstanding := insert slot (iw_outstanding w)\<rparr>)"
  let ?w2 = "producer_to p (PArm slot) (?w1\<lparr>iw_inbox := or_summary l (iw_inbox ?w1)\<rparr>)"
  let ?w3 = "producer_to p PSend (?w2\<lparr>iw_inbox := set_armed True (iw_inbox ?w2)\<rparr>)"
  let ?w4 = "producer_to p PIdle (?w3\<lparr>iw_ipi := True\<rparr>)"
  have s1: "inbox_step w ?w1" by (rule inbox_step.publish_word [OF assms(1,2)])
  have s2: "inbox_step ?w1 ?w2"
    by (rule inbox_step.publish_summary [OF _ assms(2)]) (simp add: producer_to_def)
  have s3: "inbox_step ?w2 ?w3"
    using inbox_step.publish_arm [of ?w2 p slot] assms(3) by (simp add: producer_to_def)
  have s4: "inbox_step ?w3 ?w4" by (rule inbox_step.send_ipi) (simp add: producer_to_def)
  have "(iw_producer w)(p := PIdle) = iw_producer w" using assms(1) by auto
  then have "?w4 = w\<lparr>iw_inbox := set_armed True (or_summary l (or_word l (iw_inbox w))), iw_ipi := True,
       iw_outstanding := insert slot (iw_outstanding w)\<rparr>"
    by (cases w) (simp add: producer_to_def)
  moreover have "inbox_step\<^sup>*\<^sup>* w ?w4"
    using s1 s2 s3 s4 by (meson converse_rtranclp_into_rtranclp rtranclp.rtrancl_refl)
  ultimately show ?thesis by (simp only:)
qed

theorem inbox_no_stranded_slot_witness:
  "\<exists>w0 w. inbox_world_start w0 \<and> inbox_step\<^sup>*\<^sup>* w0 w \<and> (\<forall>p. iw_producer w p = PIdle)
     \<and> iw_owner w = OIdle \<and> iw_outstanding w = {5} \<and> inbox_slots (iw_inbox w) = {5} \<and> iw_ipi w"
proof -
  let ?start = "\<lparr>iw_inbox = task_inbox_new, iw_producer = \<lambda>_. PIdle, iw_owner = OIdle, iw_ipi = False,
      iw_outstanding = {}\<rparr>"
  obtain l where l: "inbox_location 5 = Some l" by (simp add: inbox_location_def Let_def)
  let ?w = "?start\<lparr>iw_inbox := set_armed True (or_summary l (or_word l task_inbox_new)), iw_ipi := True,
      iw_outstanding := {5}\<rparr>"
  have start: "inbox_world_start ?start" by (simp add: inbox_world_start_def)
  have "\<not> ti_armed task_inbox_new" by (simp add: task_inbox_new_def)
  then have run: "inbox_step\<^sup>*\<^sup>* ?start ?w" using inbox_publish_run [of ?start 0 5 l] l by simp
  have "inbox_slots (iw_inbox ?w) = iw_outstanding ?w \<and> (iw_outstanding ?w \<noteq> {} \<longrightarrow> iw_ipi ?w)"
    using inbox_no_stranded_slot [OF start run] by simp
  then show ?thesis
    using start run by (intro exI [of _ ?start] exI [of _ ?w]) simp
qed

end
