(* ===== verification/Eevdf_Model.thy ===== *)
theory Eevdf_Model
  imports Task_Identity "HOL-Library.Product_Lexorder"
begin

unbundle bit_operations_syntax

text \<open>
  The fair-share policy oracle of the scheduler (\<open>huesos-sched/src/lib.rs\<close>, \<open>EevdfModel\<close>):
  earliest eligible virtual deadline first over an array of requests. The lemmas give the
  invariant of the array, that \<open>pick\<close> selects what the policy names and never idles while work
  is queued, and that no queued task starves: there is a bound, computed from the queue, on the
  number of requests served before it is picked, also while tasks join and others leave.
\<close>

section \<open>The model\<close>

definition NICE_0_WEIGHT :: u64 where
  "NICE_0_WEIGHT = 1024"

record eevdf_entity =
  ee_id :: task_id
  ee_weight :: u64
  ee_request_ns :: u64
  ee_virtual_start :: u128
  ee_virtual_finish :: u128
  ee_service_ns :: u64

datatype eevdf_error = InvalidWeight | InvalidRequest | EevdfFull | Duplicate | NotFound | Overflow

record eevdf_model =
  em_virtual_time :: u128
  em_entities :: "eevdf_entity option list"

definition eevdf_model_new :: "nat \<Rightarrow> eevdf_model" where
  "eevdf_model_new n = \<lparr>em_virtual_time = 0, em_entities = replicate n None\<rparr>"

definition eevdf_len :: "eevdf_model \<Rightarrow> nat" where
  "eevdf_len m = length (filter (\<lambda>entry. entry \<noteq> None) (em_entities m))"

definition eevdf_is_empty :: "eevdf_model \<Rightarrow> bool" where
  "eevdf_is_empty m \<longleftrightarrow> eevdf_len m = 0"

definition virtual_delta :: "u64 \<Rightarrow> u64 \<Rightarrow> eevdf_error + u128" where
  "virtual_delta runtime_ns weight =
     (if weight = 0 then Inl InvalidWeight
      else case checked_mul (ucast runtime_ns) (ucast NICE_0_WEIGHT) of
          None \<Rightarrow> Inl Overflow
        | Some numerator \<Rightarrow> Inr (max (div_ceil numerator (ucast weight)) 1))"

definition eevdf_enqueue ::
  "eevdf_model \<Rightarrow> task_id \<Rightarrow> u64 \<Rightarrow> u64 \<Rightarrow> u128 option \<Rightarrow> (eevdf_error + unit) \<times> eevdf_model" where
  "eevdf_enqueue m tid weight request_ns preserved_start =
     (if weight = 0 then (Inl InvalidWeight, m)
      else if request_ns = 0 then (Inl InvalidRequest, m)
      else if list_ex (\<lambda>entity. ee_id entity = tid) (flatten (em_entities m)) then (Inl Duplicate, m)
      else
        let virtual_start = (case preserved_start of None \<Rightarrow> em_virtual_time m | Some s \<Rightarrow> s) in
        case virtual_delta request_ns weight of
          Inl e \<Rightarrow> (Inl e, m)
        | Inr delta \<Rightarrow>
            (case checked_add virtual_start delta of
               None \<Rightarrow> (Inl Overflow, m)
             | Some virtual_finish \<Rightarrow>
                 (case position (\<lambda>entry. entry = None) (em_entities m) of
                    None \<Rightarrow> (Inl EevdfFull, m)
                  | Some slot \<Rightarrow>
                      (Inr (), m\<lparr>em_entities := (em_entities m)[slot := Some
                         \<lparr>ee_id = tid, ee_weight = weight, ee_request_ns = request_ns,
                          ee_virtual_start = virtual_start, ee_virtual_finish = virtual_finish,
                          ee_service_ns = 0\<rparr>]\<rparr>))))"

definition holds_id :: "task_id \<Rightarrow> eevdf_entity option \<Rightarrow> bool" where
  "holds_id tid entry \<longleftrightarrow> (case entry of None \<Rightarrow> False | Some entity \<Rightarrow> ee_id entity = tid)"

definition eevdf_remove :: "eevdf_model \<Rightarrow> task_id \<Rightarrow> (eevdf_error + eevdf_entity) \<times> eevdf_model" where
  "eevdf_remove m tid =
     (case position (holds_id tid) (em_entities m) of
        None \<Rightarrow> (Inl NotFound, m)
      | Some slot \<Rightarrow>
          (case em_entities m ! slot of
             None \<Rightarrow> (Inl NotFound, m)
           | Some entity \<Rightarrow> (Inr entity, m\<lparr>em_entities := (em_entities m)[slot := None]\<rparr>)))"

definition snap_virtual_time :: "eevdf_model \<Rightarrow> eevdf_model" where
  "snap_virtual_time m =
     (if list_ex (\<lambda>entity. ee_virtual_start entity \<le> em_virtual_time m) (flatten (em_entities m)) then m
      else case min_by_key (\<lambda>start. start) (map ee_virtual_start (flatten (em_entities m))) of
          None \<Rightarrow> m
        | Some start \<Rightarrow> m\<lparr>em_virtual_time := start\<rparr>)"

definition eevdf_pick :: "eevdf_model \<Rightarrow> task_id option \<times> eevdf_model" where
  "eevdf_pick m =
     (if eevdf_is_empty m then (None, m)
      else
        let m' = snap_virtual_time m;
            eligible = filter (\<lambda>entity. ee_virtual_start entity \<le> em_virtual_time m')
                         (flatten (em_entities m'))
        in (map_option ee_id (min_by_key (\<lambda>entity. (ee_virtual_finish entity, ee_id entity)) eligible),
            m'))"

fun total_weight :: "u64 \<Rightarrow> eevdf_entity list \<Rightarrow> u64 option" where
  "total_weight acc [] = Some acc"
| "total_weight acc (entity # entities) =
     (case checked_add acc (ee_weight entity) of
        None \<Rightarrow> None
      | Some acc' \<Rightarrow> total_weight acc' entities)"

text \<open>
  \<open>complete_request\<close>. The virtual time is advanced before the entity is looked up, and the
  fields of the entity are assigned one after the other, so an error leaves what was assigned
  before it.
\<close>

definition next_request :: "eevdf_entity \<Rightarrow> u64 \<Rightarrow> (eevdf_error + unit) \<times> eevdf_entity" where
  "next_request entity elapsed_ns =
     (case checked_add (ee_service_ns entity) elapsed_ns of
        None \<Rightarrow> (Inl Overflow, entity)
      | Some service \<Rightarrow>
          let entity' = entity\<lparr>ee_service_ns := service, ee_virtual_start := ee_virtual_finish entity\<rparr> in
          (case virtual_delta (ee_request_ns entity') (ee_weight entity') of
             Inl e \<Rightarrow> (Inl e, entity')
           | Inr delta \<Rightarrow>
               (case checked_add (ee_virtual_start entity') delta of
                  None \<Rightarrow> (Inl Overflow, entity')
                | Some virtual_finish \<Rightarrow> (Inr (), entity'\<lparr>ee_virtual_finish := virtual_finish\<rparr>))))"

definition eevdf_complete_request ::
  "eevdf_model \<Rightarrow> task_id \<Rightarrow> u64 \<Rightarrow> (eevdf_error + unit) \<times> eevdf_model" where
  "eevdf_complete_request m tid elapsed_ns =
     (case total_weight 0 (flatten (em_entities m)) of
        None \<Rightarrow> (Inl Overflow, m)
      | Some weight_sum \<Rightarrow>
          (case virtual_delta elapsed_ns weight_sum of
             Inl e \<Rightarrow> (Inl e, m)
           | Inr consumed \<Rightarrow>
               (case checked_add (em_virtual_time m) consumed of
                  None \<Rightarrow> (Inl Overflow, m)
                | Some virtual_time \<Rightarrow>
                    let m' = m\<lparr>em_virtual_time := virtual_time\<rparr> in
                    (case position (holds_id tid) (em_entities m') of
                       None \<Rightarrow> (Inl NotFound, m')
                     | Some slot \<Rightarrow>
                         let (r, entity) = next_request (the (em_entities m' ! slot)) elapsed_ns
                         in (r, m'\<lparr>em_entities := (em_entities m')[slot := Some entity]\<rparr>)))))"

definition eevdf_entity_of :: "eevdf_model \<Rightarrow> task_id \<Rightarrow> eevdf_entity option" where
  "eevdf_entity_of m tid = find (\<lambda>entity. ee_id entity = tid) (flatten (em_entities m))"

section \<open>Well-formed queues\<close>

abbreviation queue :: "eevdf_model \<Rightarrow> eevdf_entity list" where
  "queue m \<equiv> flatten (em_entities m)"

definition entity_wf :: "eevdf_entity \<Rightarrow> bool" where
  "entity_wf e \<longleftrightarrow> ee_weight e \<noteq> 0 \<and> ee_request_ns e \<noteq> 0
     \<and> (\<exists>d. virtual_delta (ee_request_ns e) (ee_weight e) = Inr d
          \<and> unat (ee_virtual_finish e) = unat (ee_virtual_start e) + unat d)"

definition eevdf_wf :: "eevdf_model \<Rightarrow> bool" where
  "eevdf_wf m \<longleftrightarrow> distinct (map ee_id (queue m)) \<and> (\<forall>e\<in>set (queue m). entity_wf e)"

lemma virtual_delta_value:
  assumes "weight \<noteq> 0"
  obtains d where "virtual_delta runtime_ns weight = Inr d"
    "unat d = max 1 ((unat runtime_ns * 1024 + unat weight - 1) div unat weight)"
proof -
  have "unat runtime_ns < 2 ^ 64" using unsigned_less [of runtime_ns] by simp
  then obtain n :: u128 where n: "checked_mul (ucast runtime_ns) (ucast NICE_0_WEIGHT) = Some n"
    "unat n = unat runtime_ns * 1024"
    by (auto simp: checked_mul_def NICE_0_WEIGHT_def unat_mult_nowrap unat_ucast_up)
  have w: "unat (ucast weight :: u128) = unat weight" by (simp add: unat_ucast_up)
  with assms have "unat (ucast weight :: u128) \<noteq> 0" by (simp add: unat_eq_0)
  from unat_div_ceil [OF this, of n] n w
  have "unat (max (div_ceil n (ucast weight)) 1) =
      max 1 ((unat runtime_ns * 1024 + unat weight - 1) div unat weight)"
    by (auto simp: max_def word_le_nat_alt)
  with that n(1) assms show ?thesis by (auto simp: virtual_delta_def)
qed

lemma virtual_delta_positive: "virtual_delta runtime_ns weight = Inr d \<Longrightarrow> 1 \<le> unat d"
proof (cases "weight = 0")
  case False
  assume d: "virtual_delta runtime_ns weight = Inr d"
  obtain d' where "virtual_delta runtime_ns weight = Inr d'"
    "unat d' = max 1 ((unat runtime_ns * 1024 + unat weight - 1) div unat weight)"
    by (rule virtual_delta_value [OF False])
  with d show ?thesis by simp
qed (simp add: virtual_delta_def)

lemma virtual_delta_le: "virtual_delta runtime_ns weight = Inr d \<Longrightarrow> unat d \<le> 2 ^ 74"
proof (cases "weight = 0")
  case False
  assume d: "virtual_delta runtime_ns weight = Inr d"
  define x where "x = unat runtime_ns * 1024"
  have w: "1 \<le> unat weight" using False by (simp add: unat_gt_0 Suc_leI)
  have "x * 1 \<le> x * unat weight" using w by (rule mult_le_mono2)
  then have "x + unat weight - 1 < unat weight + x * unat weight" using w by linarith
  then have "x + unat weight - 1 < Suc x * unat weight" by simp
  then have "(x + unat weight - 1) div unat weight < Suc x" by (rule less_mult_imp_div_less)
  moreover have "x \<le> 2 ^ 74" using unat_lt_pow [of runtime_ns] by (simp add: x_def)
  moreover obtain d' where "virtual_delta runtime_ns weight = Inr d'"
    "unat d' = max 1 ((unat runtime_ns * 1024 + unat weight - 1) div unat weight)"
    by (rule virtual_delta_value [OF False])
  ultimately show ?thesis using d by (simp add: x_def)
qed (simp add: virtual_delta_def)

lemma entity_wf_less: "entity_wf e \<Longrightarrow> unat (ee_virtual_start e) < unat (ee_virtual_finish e)"
  using virtual_delta_positive by (fastforce simp: entity_wf_def)

lemma eevdf_is_empty_iff: "eevdf_is_empty m \<longleftrightarrow> queue m = []"
  by (simp add: eevdf_is_empty_def eevdf_len_def flatten_def)

lemma eevdf_wf_new: "eevdf_wf (eevdf_model_new n)"
  by (simp add: eevdf_wf_def eevdf_model_new_def)

lemma holds_id_position:
  "position (holds_id tid) xs = Some slot \<Longrightarrow>
     slot < length xs \<and> (\<exists>e. xs ! slot = Some e \<and> ee_id e = tid)"
  using position_SomeD [of "holds_id tid" xs slot] by (auto simp: holds_id_def split: option.splits)

lemma holds_id_absent: "position (holds_id tid) xs = None \<longleftrightarrow> tid \<notin> ee_id ` set (flatten xs)"
  by (auto simp: position_None holds_id_def set_flatten split: option.splits)

lemma distinct_id_inject:
  "distinct (map ee_id xs) \<Longrightarrow> a \<in> set xs \<Longrightarrow> b \<in> set xs \<Longrightarrow> ee_id a = ee_id b \<Longrightarrow> a = b"
  by (auto simp: distinct_map inj_on_def)

lemma enqueue_cases:
  assumes "eevdf_enqueue m tid weight request_ns start = (Inr (), m')"
  obtains ys zs e where "queue m = ys @ zs" "queue m' = ys @ e # zs" "em_virtual_time m' = em_virtual_time m"
    "tid \<notin> ee_id ` set (queue m)" "entity_wf e" "ee_id e = tid" "ee_weight e = weight"
    "ee_request_ns e = request_ns" "ee_service_ns e = 0"
    "ee_virtual_start e = (case start of None \<Rightarrow> em_virtual_time m | Some s \<Rightarrow> s)"
    "length (em_entities m') = length (em_entities m)"
proof -
  let ?start = "case start of None \<Rightarrow> em_virtual_time m | Some s \<Rightarrow> s"
  obtain d f slot where ok: "weight \<noteq> 0" "request_ns \<noteq> 0" "tid \<notin> ee_id ` set (queue m)"
    and d: "virtual_delta request_ns weight = Inr d" "checked_add ?start d = Some f"
    and slot: "position (\<lambda>entry. entry = None) (em_entities m) = Some slot"
    and m': "m' = m\<lparr>em_entities := (em_entities m)[slot := Some
        \<lparr>ee_id = tid, ee_weight = weight, ee_request_ns = request_ns, ee_virtual_start = ?start,
         ee_virtual_finish = f, ee_service_ns = 0\<rparr>]\<rparr>"
    using assms
    by (auto simp: eevdf_enqueue_def Let_def list_ex_iff split: if_splits sum.splits option.splits)
  have s: "slot < length (em_entities m)" "em_entities m ! slot = None"
    using position_SomeD [OF slot] by auto
  obtain ys zs where "queue m = ys @ flatten [em_entities m ! slot] @ zs"
    "\<And>x. flatten ((em_entities m)[slot := x]) = ys @ flatten [x] @ zs"
    by (rule flatten_update [OF s(1)]) blast
  then show ?thesis
    using that [of ys zs "\<lparr>ee_id = tid, ee_weight = weight, ee_request_ns = request_ns,
        ee_virtual_start = ?start, ee_virtual_finish = f, ee_service_ns = 0\<rparr>"] s ok d
    by (simp add: m' entity_wf_def checked_add_Some)
qed

lemma remove_cases:
  assumes "eevdf_remove m tid = (Inr e, m')"
  obtains ys zs where "queue m = ys @ e # zs" "queue m' = ys @ zs" "ee_id e = tid"
    "em_virtual_time m' = em_virtual_time m"
proof -
  obtain slot where slot: "position (holds_id tid) (em_entities m) = Some slot"
    "em_entities m ! slot = Some e" "m' = m\<lparr>em_entities := (em_entities m)[slot := None]\<rparr>"
    using assms by (auto simp: eevdf_remove_def split: option.splits)
  have e: "slot < length (em_entities m)" "ee_id e = tid"
    using holds_id_position [OF slot(1)] slot(2) by auto
  obtain ys zs where "queue m = ys @ flatten [em_entities m ! slot] @ zs"
    "\<And>x. flatten ((em_entities m)[slot := x]) = ys @ flatten [x] @ zs"
    by (rule flatten_update [OF e(1)]) blast
  then show ?thesis
    using that [of ys zs] e slot(2,3) by simp
qed

lemma complete_cases:
  assumes "eevdf_complete_request m tid elapsed = (Inr (), m')"
  obtains ys e zs d c where "queue m = ys @ e # zs" "ee_id e = tid"
    "queue m' = ys @ e\<lparr>ee_service_ns := ee_service_ns e + elapsed,
        ee_virtual_start := ee_virtual_finish e, ee_virtual_finish := ee_virtual_finish e + d\<rparr> # zs"
    "virtual_delta (ee_request_ns e) (ee_weight e) = Inr d"
    "unat (ee_virtual_finish e + d) = unat (ee_virtual_finish e) + unat d"
    "unat (ee_service_ns e + elapsed) = unat (ee_service_ns e) + unat elapsed"
    "unat (em_virtual_time m') = unat (em_virtual_time m) + unat (c :: u128)" "1 \<le> unat c" "unat c \<le> 2 ^ 74"
    "length (em_entities m') = length (em_entities m)"
proof -
  obtain w c vt slot where w: "total_weight 0 (queue m) = Some w" "virtual_delta elapsed w = Inr c"
    and vt: "checked_add (em_virtual_time m) c = Some vt"
    and slot: "position (holds_id tid) (em_entities m) = Some slot"
    and r: "fst (next_request (the (em_entities m ! slot)) elapsed) = Inr ()"
    and m': "m' = m\<lparr>em_virtual_time := vt, em_entities := (em_entities m)[slot :=
        Some (snd (next_request (the (em_entities m ! slot)) elapsed))]\<rparr>"
    using assms
    by (auto simp: eevdf_complete_request_def Let_def split: option.splits sum.splits prod.splits)
  obtain e where e: "slot < length (em_entities m)" "em_entities m ! slot = Some e" "ee_id e = tid"
    using holds_id_position [OF slot] by blast
  obtain d where d: "virtual_delta (ee_request_ns e) (ee_weight e) = Inr d"
    "unat (ee_virtual_finish e + d) = unat (ee_virtual_finish e) + unat d"
    "unat (ee_service_ns e + elapsed) = unat (ee_service_ns e) + unat elapsed"
    "snd (next_request e elapsed) = e\<lparr>ee_service_ns := ee_service_ns e + elapsed,
        ee_virtual_start := ee_virtual_finish e, ee_virtual_finish := ee_virtual_finish e + d\<rparr>"
    using r e
    by (auto simp: next_request_def Let_def checked_add_def unat_add_nowrap
        split: option.splits sum.splits if_splits)
  obtain ys zs where "queue m = ys @ flatten [em_entities m ! slot] @ zs"
    "\<And>x. flatten ((em_entities m)[slot := x]) = ys @ flatten [x] @ zs"
    by (rule flatten_update [OF e(1)]) blast
  then show ?thesis
    using that [of ys e zs d c] e d w(2) vt virtual_delta_positive [OF w(2)] virtual_delta_le [OF w(2)]
    by (simp add: m' checked_add_Some)
qed

section \<open>The pick\<close>

lemma snap_same [simp]: "em_entities (snap_virtual_time m) = em_entities m"
  by (simp add: snap_virtual_time_def split: option.splits)

text \<open>After the snap something is eligible, and the clock has only moved if nothing was.\<close>

lemma snap_props:
  assumes "queue m \<noteq> []"
  shows "\<exists>e\<in>set (queue m). ee_virtual_start e \<le> em_virtual_time (snap_virtual_time m)"
    and "em_virtual_time m \<le> em_virtual_time (snap_virtual_time m)"
    and "e \<in> set (queue m) \<Longrightarrow> ee_virtual_start e \<le> em_virtual_time m \<Longrightarrow> snap_virtual_time m = m"
    and "e \<in> set (queue m) \<Longrightarrow> em_virtual_time m < em_virtual_time (snap_virtual_time m) \<Longrightarrow>
      em_virtual_time (snap_virtual_time m) \<le> ee_virtual_start e"
proof -
  let ?starts = "map ee_virtual_start (queue m)"
  obtain v where v: "min_by_key (\<lambda>start. start) ?starts = Some v"
    using assms min_by_key_None [of "\<lambda>start. start" ?starts] by (cases "min_by_key (\<lambda>start. start) ?starts") auto
  note least = min_by_key_Some [OF v]
  have snap: "snap_virtual_time m = (if \<exists>e\<in>set (queue m). ee_virtual_start e \<le> em_virtual_time m
      then m else m\<lparr>em_virtual_time := v\<rparr>)"
    by (simp add: snap_virtual_time_def list_ex_iff v)
  show "\<exists>e\<in>set (queue m). ee_virtual_start e \<le> em_virtual_time (snap_virtual_time m)"
    using least by (auto simp: snap)
  show "em_virtual_time m \<le> em_virtual_time (snap_virtual_time m)"
    using least by (auto simp: snap not_le dest: less_imp_le)
  show "ee_virtual_start e \<le> em_virtual_time m \<Longrightarrow> snap_virtual_time m = m" if "e \<in> set (queue m)"
    using that by (auto simp: snap)
  show "em_virtual_time (snap_virtual_time m) \<le> ee_virtual_start e"
    if "e \<in> set (queue m)" "em_virtual_time m < em_virtual_time (snap_virtual_time m)"
    using that least by (auto simp: snap split: if_splits)
qed

lemma pick_cases:
  assumes "queue m \<noteq> []"
  obtains e where "eevdf_pick m = (Some (ee_id e), snap_virtual_time m)" "e \<in> set (queue m)"
    "ee_virtual_start e \<le> em_virtual_time (snap_virtual_time m)"
    "\<And>g. g \<in> set (queue m) \<Longrightarrow> ee_virtual_start g \<le> em_virtual_time (snap_virtual_time m) \<Longrightarrow>
       (ee_virtual_finish e, ee_id e) \<le> (ee_virtual_finish g, ee_id g)"
proof -
  let ?m = "snap_virtual_time m" and ?key = "\<lambda>e. (ee_virtual_finish e, ee_id e)"
  let ?eligible = "filter (\<lambda>e. ee_virtual_start e \<le> em_virtual_time ?m) (queue m)"
  have "?eligible \<noteq> []" using snap_props(1) [OF assms] by (auto simp: filter_empty_conv)
  then obtain e where e: "min_by_key ?key ?eligible = Some e"
    using min_by_key_None [of ?key ?eligible] by (cases "min_by_key ?key ?eligible") auto
  then have "eevdf_pick m = (Some (ee_id e), ?m)"
    using assms by (simp add: eevdf_pick_def eevdf_is_empty_iff Let_def)
  moreover have "e \<in> set (queue m)" "ee_virtual_start e \<le> em_virtual_time ?m"
    using min_by_key_Some [OF e] by simp_all
  moreover have "?key e \<le> ?key g" if "g \<in> set (queue m)" "ee_virtual_start g \<le> em_virtual_time ?m" for g
  proof -
    have "g \<in> set ?eligible" using that by simp
    with min_by_key_Some [OF e] show ?thesis by blast
  qed
  ultimately show ?thesis by (rule that)
qed

text \<open>
  \<open>pick\<close> follows the policy and never idles. On a nonempty queue it returns a queued task whose
  request has started, with the least (virtual finish, identity) among the started ones; it moves
  the virtual clock only when nothing had started, and then exactly to the earliest start. On an
  empty queue it returns nothing.
\<close>

theorem eevdf_pick_policy:
  "(queue m = [] \<longrightarrow> eevdf_pick m = (None, m))
   \<and> (queue m \<noteq> [] \<longrightarrow> (\<exists>e m'. eevdf_pick m = (Some (ee_id e), m') \<and> e \<in> set (queue m)
        \<and> em_entities m' = em_entities m \<and> em_virtual_time m \<le> em_virtual_time m'
        \<and> ee_virtual_start e \<le> em_virtual_time m'
        \<and> (\<forall>g. g \<in> set (queue m) \<and> ee_virtual_start g \<le> em_virtual_time m' \<longrightarrow>
              (ee_virtual_finish e, ee_id e) \<le> (ee_virtual_finish g, ee_id g))
        \<and> (em_virtual_time m < em_virtual_time m' \<longrightarrow>
              (\<forall>g. g \<in> set (queue m) \<longrightarrow> em_virtual_time m' \<le> ee_virtual_start g))))"
proof (intro conjI impI)
  assume "queue m \<noteq> []"
  moreover from this obtain e where "eevdf_pick m = (Some (ee_id e), snap_virtual_time m)"
    "e \<in> set (queue m)" "ee_virtual_start e \<le> em_virtual_time (snap_virtual_time m)"
    "\<And>g. g \<in> set (queue m) \<Longrightarrow> ee_virtual_start g \<le> em_virtual_time (snap_virtual_time m) \<Longrightarrow>
       (ee_virtual_finish e, ee_id e) \<le> (ee_virtual_finish g, ee_id g)"
    by (rule pick_cases) blast
  ultimately show "\<exists>e m'. eevdf_pick m = (Some (ee_id e), m') \<and> e \<in> set (queue m)
        \<and> em_entities m' = em_entities m \<and> em_virtual_time m \<le> em_virtual_time m'
        \<and> ee_virtual_start e \<le> em_virtual_time m'
        \<and> (\<forall>g. g \<in> set (queue m) \<and> ee_virtual_start g \<le> em_virtual_time m' \<longrightarrow>
              (ee_virtual_finish e, ee_id e) \<le> (ee_virtual_finish g, ee_id g))
        \<and> (em_virtual_time m < em_virtual_time m' \<longrightarrow>
              (\<forall>g. g \<in> set (queue m) \<longrightarrow> em_virtual_time m' \<le> ee_virtual_start g))"
    using snap_props(2,4) snap_same by blast
qed (simp add: eevdf_pick_def eevdf_is_empty_iff)

section \<open>The invariant\<close>

lemma enqueue_wf: "eevdf_wf m \<Longrightarrow> eevdf_enqueue m tid w r s = (Inr (), m') \<Longrightarrow> eevdf_wf m'"
  by (erule enqueue_cases) (auto simp: eevdf_wf_def)

lemma remove_wf: "eevdf_wf m \<Longrightarrow> eevdf_remove m tid = (Inr e, m') \<Longrightarrow> eevdf_wf m'"
  by (erule remove_cases) (auto simp: eevdf_wf_def)

lemma complete_wf:
  "eevdf_wf m \<Longrightarrow> eevdf_complete_request m tid el = (Inr (), m') \<Longrightarrow> eevdf_wf m'"
  by (erule complete_cases) (auto simp: eevdf_wf_def entity_wf_def)

lemma pick_wf: "eevdf_wf (snd (eevdf_pick m)) = eevdf_wf m"
  by (simp add: eevdf_wf_def eevdf_pick_def Let_def)

text \<open>
  What every call keeps, whatever it answers: distinct identities, nonzero weights and requests, and no
  virtual finish before its start. A completion that overflows may stop half way, after the start
  has been moved to the old finish, so the strict form survives only calls that do not overflow.
\<close>

definition entity_weak :: "eevdf_entity \<Rightarrow> bool" where
  "entity_weak e \<longleftrightarrow> ee_weight e \<noteq> 0 \<and> ee_request_ns e \<noteq> 0 \<and> ee_virtual_start e \<le> ee_virtual_finish e"

definition eevdf_weak :: "eevdf_model \<Rightarrow> bool" where
  "eevdf_weak m \<longleftrightarrow> distinct (map ee_id (queue m)) \<and> (\<forall>e\<in>set (queue m). entity_weak e)"

lemma entity_wf_weak: "entity_wf e \<Longrightarrow> entity_weak e"
  using entity_wf_less [of e] by (simp add: entity_wf_def entity_weak_def word_le_nat_alt)

lemma next_request_keeps:
  assumes "next_request e el = (r, e')"
  shows "ee_id e' = ee_id e" "entity_weak e \<Longrightarrow> entity_weak e'" "entity_wf e \<Longrightarrow> r \<noteq> Inl Overflow \<Longrightarrow> entity_wf e'"
proof -
  show "ee_id e' = ee_id e"
    using assms by (auto simp: next_request_def Let_def split: option.splits sum.splits)
  show "entity_weak e'" if "entity_weak e"
    using assms that
    by (auto simp: next_request_def entity_weak_def Let_def checked_add_Some word_le_nat_alt split: option.splits sum.splits)
  show "entity_wf e'" if wf: "entity_wf e" "r \<noteq> Inl Overflow"
  proof -
    obtain d where "virtual_delta (ee_request_ns e) (ee_weight e) = Inr d" using wf(1) by (auto simp: entity_wf_def)
    then show ?thesis using assms wf
      by (auto simp: next_request_def entity_wf_def Let_def checked_add_Some split: option.splits)
  qed
qed

lemma complete_effect:
  "em_entities (snd (eevdf_complete_request m tid el)) = em_entities m
   \<or> (\<exists>slot e r e'. slot < length (em_entities m) \<and> em_entities m ! slot = Some e \<and> next_request e el = (r, e')
        \<and> fst (eevdf_complete_request m tid el) = r
        \<and> em_entities (snd (eevdf_complete_request m tid el)) = (em_entities m)[slot := Some e'])"
proof (cases "\<exists>w c vt slot. total_weight 0 (queue m) = Some w \<and> virtual_delta el w = Inr c
    \<and> checked_add (em_virtual_time m) c = Some vt \<and> position (holds_id tid) (em_entities m) = Some slot")
  case True
  then obtain w c vt slot where c: "total_weight 0 (queue m) = Some w" "virtual_delta el w = Inr c"
    "checked_add (em_virtual_time m) c = Some vt" and slot: "position (holds_id tid) (em_entities m) = Some slot" by blast
  obtain e where e: "slot < length (em_entities m)" "em_entities m ! slot = Some e" using holds_id_position [OF slot] by blast
  obtain r e' where r: "next_request e el = (r, e')" by fastforce
  show ?thesis using c slot e r by (intro disjI2 exI [of _ slot] exI [of _ e] exI [of _ r] exI [of _ e']) (simp add: eevdf_complete_request_def Let_def)
next
  case False
  then show ?thesis by (auto simp: eevdf_complete_request_def Let_def split: option.splits sum.splits)
qed

lemma complete_keeps:
  shows "eevdf_weak m \<Longrightarrow> eevdf_weak (snd (eevdf_complete_request m tid el))"
    and "eevdf_wf m \<Longrightarrow> fst (eevdf_complete_request m tid el) \<noteq> Inl Overflow \<Longrightarrow> eevdf_wf (snd (eevdf_complete_request m tid el))"
proof (atomize (full), cases "em_entities (snd (eevdf_complete_request m tid el)) = em_entities m")
  case True
  then show "(eevdf_weak m \<longrightarrow> eevdf_weak (snd (eevdf_complete_request m tid el)))
    \<and> (eevdf_wf m \<longrightarrow> fst (eevdf_complete_request m tid el) \<noteq> Inl Overflow \<longrightarrow> eevdf_wf (snd (eevdf_complete_request m tid el)))"
    by (simp add: eevdf_weak_def eevdf_wf_def)
next
  case False
  then obtain slot e r e' where s: "slot < length (em_entities m)" "em_entities m ! slot = Some e" "next_request e el = (r, e')"
    "fst (eevdf_complete_request m tid el) = r"
    "em_entities (snd (eevdf_complete_request m tid el)) = (em_entities m)[slot := Some e']"
    using complete_effect [of m tid el] by blast
  obtain ys zs where "queue m = ys @ flatten [em_entities m ! slot] @ zs"
    "\<And>x. flatten ((em_entities m)[slot := x]) = ys @ flatten [x] @ zs"
    by (rule flatten_update [OF s(1)]) blast
  then have q: "queue m = ys @ e # zs" "queue (snd (eevdf_complete_request m tid el)) = ys @ e' # zs" using s(2,5) by simp_all
  show "(eevdf_weak m \<longrightarrow> eevdf_weak (snd (eevdf_complete_request m tid el)))
    \<and> (eevdf_wf m \<longrightarrow> fst (eevdf_complete_request m tid el) \<noteq> Inl Overflow \<longrightarrow> eevdf_wf (snd (eevdf_complete_request m tid el)))"
    unfolding eevdf_weak_def eevdf_wf_def q s(4) using next_request_keeps [OF s(3)] by auto
qed

lemma enqueue_refused: "eevdf_enqueue m tid w r s = (Inl err, m') \<Longrightarrow> m' = m"
  by (auto simp: eevdf_enqueue_def Let_def split: if_splits option.splits sum.splits)

lemma remove_refused: "eevdf_remove m tid = (Inl err, m') \<Longrightarrow> m' = m"
  by (auto simp: eevdf_remove_def split: option.splits)

lemma enqueue_call_keeps:
  "eevdf_weak m \<Longrightarrow> eevdf_weak (snd (eevdf_enqueue m tid w r s))" "eevdf_wf m \<Longrightarrow> eevdf_wf (snd (eevdf_enqueue m tid w r s))"
proof -
  obtain res m' where e: "eevdf_enqueue m tid w r s = (res, m')" by fastforce
  show "eevdf_weak (snd (eevdf_enqueue m tid w r s))" if "eevdf_weak m"
  proof (cases res)
    case (Inl err)
    then show ?thesis using enqueue_refused [of m tid w r s err m'] e that by simp
  next
    case (Inr u)
    then have "eevdf_enqueue m tid w r s = (Inr (), m')" using e by simp
    then have "eevdf_weak m'" using that by (elim enqueue_cases) (auto simp: eevdf_weak_def entity_wf_weak)
    then show ?thesis by (simp add: e)
  qed
  show "eevdf_wf (snd (eevdf_enqueue m tid w r s))" if "eevdf_wf m"
    using that enqueue_refused [of m tid w r s _ m'] enqueue_wf [OF that, of tid w r s m'] e by (cases res) auto
qed

lemma dequeue_keeps:
  "eevdf_weak m \<Longrightarrow> eevdf_weak (snd (eevdf_remove m tid))" "eevdf_wf m \<Longrightarrow> eevdf_wf (snd (eevdf_remove m tid))"
proof -
  obtain res m' where e: "eevdf_remove m tid = (res, m')" by fastforce
  show "eevdf_weak (snd (eevdf_remove m tid))" if "eevdf_weak m"
  proof (cases res)
    case (Inl err)
    then show ?thesis using remove_refused [of m tid err m'] e that by simp
  next
    case (Inr x)
    then have "eevdf_remove m tid = (Inr x, m')" using e by simp
    then have "eevdf_weak m'" using that by (elim remove_cases) (auto simp: eevdf_weak_def)
    then show ?thesis by (simp add: e)
  qed
  show "eevdf_wf (snd (eevdf_remove m tid))" if "eevdf_wf m"
    using that remove_refused [of m tid _ m'] remove_wf [OF that, of tid _ m'] e by (cases res) auto
qed

lemma pick_keeps: "eevdf_weak (snd (eevdf_pick m)) = eevdf_weak m"
  by (simp add: eevdf_weak_def eevdf_pick_def Let_def)

text \<open>One call, with a flag that says whether no completion has overflowed so far.\<close>

inductive eevdf_call :: "eevdf_model \<times> bool \<Rightarrow> eevdf_model \<times> bool \<Rightarrow> bool" where
  call_enqueue: "eevdf_call (m, ok) (snd (eevdf_enqueue m tid w r s), ok)"
| call_remove: "eevdf_call (m, ok) (snd (eevdf_remove m tid), ok)"
| call_pick: "eevdf_call (m, ok) (snd (eevdf_pick m), ok)"
| call_complete: "eevdf_call (m, ok) (snd (eevdf_complete_request m tid el),
    ok \<and> fst (eevdf_complete_request m tid el) \<noteq> Inl Overflow)"

interpretation eevdf_history: invariant_machine "\<lambda>w. \<exists>n. w = (eevdf_model_new n, True)" eevdf_call
  "\<lambda>w. eevdf_weak (fst w) \<and> (snd w \<longrightarrow> eevdf_wf (fst w))"
proof
  show "eevdf_weak (fst w) \<and> (snd w \<longrightarrow> eevdf_wf (fst w))" if "\<exists>n. w = (eevdf_model_new n, True)" for w
    using that by (auto simp: eevdf_weak_def eevdf_wf_def eevdf_model_new_def)
  show "eevdf_weak (fst w') \<and> (snd w' \<longrightarrow> eevdf_wf (fst w'))"
    if "eevdf_weak (fst w) \<and> (snd w \<longrightarrow> eevdf_wf (fst w))" "eevdf_call w w'" for w w'
    using that(2,1)
    by cases (simp_all add: enqueue_call_keeps dequeue_keeps pick_keeps pick_wf complete_keeps)
qed

text \<open>
  C39: the invariant of the queue, over every history of calls on a new model, failing calls
  included. Identities stay distinct, weights and requests nonzero, and no virtual finish lies before
  its start. As long as no completion has answered \<open>Overflow\<close>, every request is exactly one virtual
  slice long: its finish is its start plus the requested time scaled by the weight, so it lies
  strictly after the start. A refused enqueue or remove changes nothing.
\<close>

theorem eevdf_invariant:
  assumes "eevdf_call\<^sup>*\<^sup>* (eevdf_model_new n, True) (m, ok)"
  shows "distinct (map ee_id (queue m))
    \<and> (\<forall>e\<in>set (queue m). ee_weight e \<noteq> 0 \<and> ee_request_ns e \<noteq> 0 \<and> ee_virtual_start e \<le> ee_virtual_finish e)
    \<and> (ok \<longrightarrow> (\<forall>e\<in>set (queue m). \<exists>d. virtual_delta (ee_request_ns e) (ee_weight e) = Inr d \<and> 0 < unat d
          \<and> unat (ee_virtual_finish e) = unat (ee_virtual_start e) + unat d))
    \<and> (eevdf_enqueue m tid w r s = (Inl err, m1) \<longrightarrow> m1 = m)
    \<and> (eevdf_remove m tid = (Inl err, m2) \<longrightarrow> m2 = m)"
proof -
  have inv: "eevdf_weak m" "ok \<longrightarrow> eevdf_wf m" using eevdf_history.reachable_inv [OF _ assms] by auto
  have "\<exists>d. virtual_delta (ee_request_ns e) (ee_weight e) = Inr d \<and> 0 < unat d
      \<and> unat (ee_virtual_finish e) = unat (ee_virtual_start e) + unat d" if "entity_wf e" for e
    using that virtual_delta_positive by (fastforce simp: entity_wf_def)
  then show ?thesis
    using inv enqueue_refused [of m tid w r s err m1] remove_refused [of m tid err m2]
    by (auto simp: eevdf_weak_def entity_weak_def eevdf_wf_def)
qed

section \<open>No task starves\<close>

text \<open>
  A run of the policy: the dispatcher serves a request (pick a task, run it for some time, complete
  its request), a task joins at the current virtual time, a task leaves. Serving records the task
  that was picked and the answer of the completion.
\<close>

datatype eevdf_event = Serves u64 | Joins task_id u64 u64 | Leaves task_id

fun eevdf_run :: "eevdf_event list \<Rightarrow> eevdf_model \<Rightarrow> (task_id option \<times> (eevdf_error + unit)) list" where
  "eevdf_run [] m = []"
| "eevdf_run (Serves el # evs) m =
     (case eevdf_pick m of
        (None, m1) \<Rightarrow> (None, Inr ()) # eevdf_run evs m1
      | (Some tid, m1) \<Rightarrow>
          let (r, m2) = eevdf_complete_request m1 tid el in (Some tid, r) # eevdf_run evs m2)"
| "eevdf_run (Joins tid w r # evs) m = eevdf_run evs (snd (eevdf_enqueue m tid w r None))"
| "eevdf_run (Leaves tid # evs) m = eevdf_run evs (snd (eevdf_remove m tid))"

fun served_ns :: "eevdf_event list \<Rightarrow> nat" where
  "served_ns [] = 0"
| "served_ns (Serves el # evs) = unat el + served_ns evs"
| "served_ns (_ # evs) = served_ns evs"

fun rounds :: "eevdf_event list \<Rightarrow> nat" where
  "rounds [] = 0"
| "rounds (Serves el # evs) = Suc (rounds evs)"
| "rounds (_ # evs) = rounds evs"

text \<open>
  No counter can overflow during the run: weights at most \<open>W\<close>, and room in every accumulator for the
  events to come, each of which moves virtual time by at most \<open>2 ^ 74\<close>.
\<close>

definition entity_room :: "nat \<Rightarrow> eevdf_event list \<Rightarrow> eevdf_entity \<Rightarrow> bool" where
  "entity_room W evs e \<longleftrightarrow> unat (ee_weight e) \<le> W \<and> unat (ee_service_ns e) + served_ns evs < 2 ^ 64
     \<and> unat (ee_virtual_finish e) + length evs * 2 ^ 74 < 2 ^ 128"

definition run_room :: "nat \<Rightarrow> eevdf_event list \<Rightarrow> eevdf_model \<Rightarrow> bool" where
  "run_room W evs m \<longleftrightarrow> length (em_entities m) * W < 2 ^ 64
     \<and> unat (em_virtual_time m) + length evs * 2 ^ 74 < 2 ^ 128
     \<and> (\<forall>e\<in>set (queue m). entity_room W evs e)
     \<and> list_all (\<lambda>ev. case ev of Joins _ w _ \<Rightarrow> unat w \<le> W | _ \<Rightarrow> True) evs"

lemma entity_room_next: "entity_room W (ev # evs) e \<Longrightarrow> entity_room W evs e"
  by (cases ev) (simp_all add: entity_room_def)

lemma length_flatten: "length (flatten xs) \<le> length xs"
  by (simp add: flatten_def)

lemma total_weight_ok:
  "unat acc + (\<Sum>e\<leftarrow>es. unat (ee_weight e)) < 2 ^ 64 \<Longrightarrow>
     \<exists>w. total_weight acc es = Some w \<and> unat w = unat acc + (\<Sum>e\<leftarrow>es. unat (ee_weight e))"
proof (induction es arbitrary: acc)
  case (Cons e es)
  then have s: "unat acc + unat (ee_weight e) < 2 ^ 64" by simp
  then have a: "checked_add acc (ee_weight e) = Some (acc + ee_weight e)" "unat (acc + ee_weight e) = unat acc + unat (ee_weight e)"
    using unat_add_nowrap [of acc "ee_weight e"] by (simp_all add: checked_add_def)
  then show ?case using Cons.IH [of "acc + ee_weight e"] Cons.prems by (simp add: add.assoc)
qed simp

lemma weight_sum_le: "\<forall>e\<in>set es. unat (ee_weight e) \<le> W \<Longrightarrow> (\<Sum>e\<leftarrow>es. unat (ee_weight e)) \<le> length es * W"
  by (induction es) auto

text \<open>With room, completing the request of a queued task succeeds.\<close>

lemma complete_ok:
  assumes wf: "eevdf_wf m" and room: "run_room W (Serves el # evs) m" and e: "e \<in> set (queue m)"
  shows "\<exists>m'. eevdf_complete_request m (ee_id e) el = (Inr (), m')"
proof -
  have we: "entity_wf e" using wf e by (simp add: eevdf_wf_def)
  have r: "length (em_entities m) * W < 2 ^ 64" "unat (em_virtual_time m) + 2 ^ 74 < 2 ^ 128"
    "unat (ee_service_ns e) + unat el < 2 ^ 64" "unat (ee_virtual_finish e) + 2 ^ 74 < 2 ^ 128"
    using room e by (auto simp: run_room_def entity_room_def)
  have "(\<Sum>e\<leftarrow>queue m. unat (ee_weight e)) \<le> length (queue m) * W"
    using room by (intro weight_sum_le) (simp add: run_room_def entity_room_def)
  also have "\<dots> \<le> length (em_entities m) * W" using length_flatten by (rule mult_le_mono1)
  finally obtain w where w: "total_weight 0 (queue m) = Some w" "unat w = (\<Sum>e\<leftarrow>queue m. unat (ee_weight e))"
    using total_weight_ok [of 0 "queue m"] r(1) by auto
  have "unat (ee_weight e) \<le> unat w" unfolding w(2) using e by (intro member_le_sum_list) auto
  moreover have "0 < unat (ee_weight e)" using we by (simp add: entity_wf_def unat_gt_0)
  ultimately have "w \<noteq> 0" by auto
  then obtain c where c: "virtual_delta el w = Inr c" by (rule virtual_delta_value)
  have vt: "checked_add (em_virtual_time m) c = Some (em_virtual_time m + c)"
    using virtual_delta_le [OF c] r(2) by (simp add: checked_add_def)
  obtain slot where slot: "position (holds_id (ee_id e)) (em_entities m) = Some slot"
    using holds_id_absent [of "ee_id e" "em_entities m"] e by (cases "position (holds_id (ee_id e)) (em_entities m)") auto
  obtain e' where e': "slot < length (em_entities m)" "em_entities m ! slot = Some e'" "ee_id e' = ee_id e"
    using holds_id_position [OF slot] by blast
  then have "Some e' \<in> set (em_entities m)" by (metis nth_mem)
  then have "e' \<in> set (queue m)" by (simp add: set_flatten)
  then have "e' = e" using distinct_id_inject [of "queue m" e' e] wf e e'(3) by (simp add: eevdf_wf_def)
  obtain d where d: "virtual_delta (ee_request_ns e) (ee_weight e) = Inr d" using we by (auto simp: entity_wf_def)
  have "fst (next_request e el) = Inr ()"
    using r(3,4) d virtual_delta_le [OF d] by (simp add: next_request_def checked_add_def Let_def)
  then obtain e2 where "next_request e el = (Inr (), e2)" by (cases "next_request e el") simp
  then show ?thesis using w(1) c vt slot e'(2) \<open>e' = e\<close>
    by (simp add: eevdf_complete_request_def Let_def)
qed

text \<open>One round: the pick, and what serving the picked request changes.\<close>

lemma serve_round:
  assumes wf: "eevdf_wf m" and room: "run_room W (Serves el # evs) m" and ne: "queue m \<noteq> []"
  obtains ys e zs e' m1 m2 where "eevdf_pick m = (Some (ee_id e), m1)" "eevdf_complete_request m1 (ee_id e) el = (Inr (), m2)"
    "queue m = ys @ e # zs" "queue m2 = ys @ e' # zs" "ee_id e' = ee_id e"
    "unat (ee_virtual_finish e) < unat (ee_virtual_finish e')" "eevdf_wf m2" "run_room W evs m2"
    "unat (em_virtual_time m) < unat (em_virtual_time m2)" "length (em_entities m2) = length (em_entities m)"
    "\<And>g. g \<in> set (queue m) \<Longrightarrow> ee_virtual_start g \<le> em_virtual_time m \<Longrightarrow> ee_virtual_finish e \<le> ee_virtual_finish g"
proof -
  obtain p where p: "eevdf_pick m = (Some (ee_id p), snap_virtual_time m)" "p \<in> set (queue m)"
    "ee_virtual_start p \<le> em_virtual_time (snap_virtual_time m)"
    "\<And>g. g \<in> set (queue m) \<Longrightarrow> ee_virtual_start g \<le> em_virtual_time (snap_virtual_time m) \<Longrightarrow>
       (ee_virtual_finish p, ee_id p) \<le> (ee_virtual_finish g, ee_id g)"
    by (rule pick_cases [OF ne]) blast
  define m1 where "m1 = snap_virtual_time m"
  have same: "em_entities m1 = em_entities m" by (simp add: m1_def)
  have wf1: "eevdf_wf m1" using wf by (simp add: eevdf_wf_def same)
  have up: "unat (em_virtual_time m) \<le> unat (em_virtual_time m1)"
    using snap_props(2) [OF ne] by (simp add: m1_def word_le_nat_alt)
  have vt1: "em_virtual_time m1 = em_virtual_time m \<or> (\<exists>g\<in>set (queue m). unat (em_virtual_time m1) \<le> unat (ee_virtual_finish g))"
    using snap_props(4) [OF ne p(2)] wf p(2) entity_wf_less [of p] up
    by (fastforce simp: m1_def eevdf_wf_def word_le_nat_alt word_less_nat_alt word_unat_eq_iff)
  then have room1: "run_room W (Serves el # evs) m1" using room unfolding run_room_def same
    by (elim disjE bexE) (auto simp: entity_room_def)
  obtain m2 where c: "eevdf_complete_request m1 (ee_id p) el = (Inr (), m2)"
    using complete_ok [OF wf1 room1, of p] p(2) by (auto simp: same)
  obtain ys e zs d k where q: "queue m1 = ys @ e # zs" "ee_id e = ee_id p"
    and q2: "queue m2 = ys @ e\<lparr>ee_service_ns := ee_service_ns e + el,
        ee_virtual_start := ee_virtual_finish e, ee_virtual_finish := ee_virtual_finish e + d\<rparr> # zs"
    and d: "virtual_delta (ee_request_ns e) (ee_weight e) = Inr d"
      "unat (ee_virtual_finish e + d) = unat (ee_virtual_finish e) + unat d"
    and sv: "unat (ee_service_ns e + el) = unat (ee_service_ns e) + unat el"
    and vt2: "unat (em_virtual_time m2) = unat (em_virtual_time m1) + unat (k :: u128)" "1 \<le> unat k" "unat k \<le> 2 ^ 74"
    and len: "length (em_entities m2) = length (em_entities m1)"
    by (rule complete_cases [OF c]) blast
  have qm: "queue m = ys @ e # zs" using q(1) by (simp add: same)
  have "e = p" using distinct_id_inject [of "queue m" e p] wf p(2) q(2) by (simp add: eevdf_wf_def qm)
  let ?e = "e\<lparr>ee_service_ns := ee_service_ns e + el, ee_virtual_start := ee_virtual_finish e,
        ee_virtual_finish := ee_virtual_finish e + d\<rparr>"
  have "entity_room W (Serves el # evs) e" using room1 by (simp add: run_room_def q(1))
  then have "entity_room W evs ?e" using virtual_delta_le [OF d(1)] d(2) sv by (simp add: entity_room_def)
  moreover have "entity_room W evs x" if "x \<in> set ys \<union> set zs" for x
    using room1 that entity_room_next [of W "Serves el" evs x] by (auto simp: run_room_def q(1))
  ultimately have "run_room W evs m2" using room1 vt2 len unfolding run_room_def q2 by auto
  moreover have "ee_virtual_finish e \<le> ee_virtual_finish g"
    if "g \<in> set (queue m)" "ee_virtual_start g \<le> em_virtual_time m" for g
  proof -
    have "ee_virtual_start g \<le> em_virtual_time (snap_virtual_time m)" using that(2) snap_props(2) [OF ne] by (rule order_trans)
    then show ?thesis using p(4) [OF that(1)] \<open>e = p\<close> by auto
  qed
  ultimately show ?thesis
    using that [of e m1 m2 ys zs, OF _ _ qm q2] p(1) c \<open>e = p\<close> d(2) virtual_delta_positive [OF d(1)]
      complete_wf [OF wf1 c] up vt2 len same by (simp add: m1_def)
qed

text \<open>
  What another queued task can still be served before the given one, the virtual time until
  newcomers can no longer overtake it, and the resulting bound on the number of rounds.
\<close>

definition ahead :: "eevdf_entity \<Rightarrow> eevdf_entity \<Rightarrow> nat" where
  "ahead f e = (if ee_id e = ee_id f then 0
     else unat (ee_virtual_finish f) + 1 - unat (ee_virtual_finish e))"

definition open_for :: "eevdf_model \<Rightarrow> eevdf_entity \<Rightarrow> nat" where
  "open_for m f = unat (ee_virtual_finish f) - unat (em_virtual_time m)"

definition waiting :: "nat \<Rightarrow> eevdf_model \<Rightarrow> eevdf_entity \<Rightarrow> nat" where
  "waiting A m f = (if open_for m f = 0 then sum_list (map (ahead f) (queue m))
     else open_for m f + length (em_entities m) * A)"

definition wait_bound :: "eevdf_model \<Rightarrow> eevdf_entity \<Rightarrow> nat" where
  "wait_bound m f = waiting (foldr max (map (ahead f) (queue m)) (open_for m f)) m f"

definition ahead_within :: "nat \<Rightarrow> eevdf_model \<Rightarrow> eevdf_entity \<Rightarrow> bool" where
  "ahead_within A m f \<longleftrightarrow> open_for m f \<le> A \<and> (\<forall>e\<in>set (queue m). ahead f e \<le> A)"

lemma ahead_within_start: "ahead_within (foldr max (map (ahead f) (queue m)) (open_for m f)) m f"
proof -
  have "b \<le> foldr max xs b \<and> (\<forall>x\<in>set xs. x \<le> foldr max xs b)" for b :: nat and xs
    by (induction xs) (auto simp: le_max_iff_disj)
  from this [where b = "open_for m f" and xs = "map (ahead f) (queue m)"] show ?thesis by (simp add: ahead_within_def)
qed

lemma sum_ahead_le: "\<forall>e\<in>set es. ahead f e \<le> A \<Longrightarrow> sum_list (map (ahead f) es) \<le> length es * A"
  by (induction es) auto

lemma serve_progress:
  assumes wf: "eevdf_wf m" and f: "f \<in> set (queue m)" and A: "ahead_within A m f"
    and q: "queue m = ys @ e # zs" "queue m2 = ys @ e' # zs" "ee_id e' = ee_id e" "ee_id e \<noteq> ee_id f"
    and fin: "unat (ee_virtual_finish e) < unat (ee_virtual_finish e')"
    and vt: "unat (em_virtual_time m) < unat (em_virtual_time m2)" and len: "length (em_entities m2) = length (em_entities m)"
    and least: "\<And>g. g \<in> set (queue m) \<Longrightarrow> ee_virtual_start g \<le> em_virtual_time m \<Longrightarrow> ee_virtual_finish e \<le> ee_virtual_finish g"
  shows "f \<in> set (queue m2) \<and> ahead_within A m2 f \<and> waiting A m2 f < waiting A m f"
proof -
  have less: "ahead f e' \<le> ahead f e" using fin q(3) by (cases "ee_id e = ee_id f") (simp_all add: ahead_def diff_le_mono2)
  have op: "open_for m2 f \<le> open_for m f" "open_for m f \<noteq> 0 \<Longrightarrow> open_for m2 f < open_for m f"
    using vt by (auto simp: open_for_def)
  have in2: "f \<in> set (queue m2)" using f q by auto
  have w2: "ahead_within A m2 f"
    using A less op(1) unfolding ahead_within_def q by auto
  have "waiting A m2 f < waiting A m f"
  proof (cases "open_for m f = 0")
    case True
    have "entity_wf f" using wf f by (simp add: eevdf_wf_def)
    then have "ee_virtual_start f \<le> em_virtual_time m"
      using True entity_wf_less [of f] by (simp add: open_for_def word_le_nat_alt)
    then have "unat (ee_virtual_finish e) \<le> unat (ee_virtual_finish f)" using least [OF f] by (simp add: word_le_nat_alt)
    then have "ahead f e' < ahead f e" using fin q(3,4) by (simp add: ahead_def)
    then show ?thesis using True op(1) by (simp add: waiting_def q)
  next
    case False
    have "sum_list (map (ahead f) (queue m2)) \<le> length (queue m2) * A"
      using w2 by (intro sum_ahead_le) (simp add: ahead_within_def)
    also have "\<dots> \<le> length (em_entities m) * A" using length_flatten [of "em_entities m2"] len by (simp add: mult_le_mono1)
    finally show ?thesis using False op(2) len by (simp add: waiting_def)
  qed
  then show ?thesis using in2 w2 by blast
qed

lemma join_step:
  assumes wf: "eevdf_wf m" and f: "f \<in> set (queue m)" and A: "ahead_within A m f"
    and room: "run_room W (Joins tid w r # evs) m" and m': "m' = snd (eevdf_enqueue m tid w r None)"
  shows "f \<in> set (queue m') \<and> ahead_within A m' f \<and> waiting A m' f = waiting A m f \<and> run_room W evs m'"
proof -
  obtain res where e: "eevdf_enqueue m tid w r None = (res, m')" using m' by (metis prod.collapse)
  have old: "entity_room W evs x" if "x \<in> set (queue m)" for x
    using room that entity_room_next by (auto simp: run_room_def)
  show ?thesis
  proof (cases res)
    case (Inl err)
    then have "m' = m" using enqueue_refused e by blast
    then show ?thesis using f A room old by (auto simp: run_room_def)
  next
    case (Inr u)
    then have e: "eevdf_enqueue m tid w r None = (Inr (), m')" using e by simp
    obtain ys zs x where q: "queue m = ys @ zs" "queue m' = ys @ x # zs" "em_virtual_time m' = em_virtual_time m"
      "tid \<notin> ee_id ` set (queue m)" "entity_wf x" "ee_id x = tid" "ee_weight x = w" "ee_service_ns x = 0"
      "ee_virtual_start x = em_virtual_time m" "length (em_entities m') = length (em_entities m)"
      by (rule enqueue_cases [OF e]) simp
    obtain d where d: "virtual_delta (ee_request_ns x) (ee_weight x) = Inr d"
      "unat (ee_virtual_finish x) = unat (em_virtual_time m) + unat d" using q(5,9) by (auto simp: entity_wf_def)
    have "ee_id x \<noteq> ee_id f" using q(4,6) f by auto
    then have x: "ahead f x \<le> open_for m f"
      using d virtual_delta_positive [OF d(1)] by (simp add: ahead_def open_for_def)
    have op: "open_for m' f = open_for m f" by (simp add: open_for_def q(3))
    have "ahead_within A m' f" using A x unfolding ahead_within_def op q(1,2) by auto
    moreover have "waiting A m' f = waiting A m f" using x by (simp add: waiting_def op q)
    moreover have "served_ns evs < 2 ^ 64" using room f unfolding run_room_def entity_room_def by fastforce
    then have "entity_room W evs x"
      using room d virtual_delta_le [OF d(1)] q(7,8) by (simp add: entity_room_def run_room_def)
    then have "run_room W evs m'" using room old unfolding run_room_def q(1-3,10) by auto
    ultimately show ?thesis using f by (auto simp: q)
  qed
qed

lemma leave_step:
  assumes f: "f \<in> set (queue m)" and A: "ahead_within A m f" and other: "tid \<noteq> ee_id f"
    and room: "run_room W (Leaves tid # evs) m" and m': "m' = snd (eevdf_remove m tid)"
  shows "f \<in> set (queue m') \<and> ahead_within A m' f \<and> waiting A m' f \<le> waiting A m f \<and> run_room W evs m'"
proof -
  obtain res where e: "eevdf_remove m tid = (res, m')" using m' by (metis prod.collapse)
  have old: "entity_room W evs x" if "x \<in> set (queue m)" for x
    using room that entity_room_next by (auto simp: run_room_def)
  show ?thesis
  proof (cases res)
    case (Inl err)
    then have "m' = m" using remove_refused e by blast
    then show ?thesis using f A room old by (auto simp: run_room_def)
  next
    case (Inr x)
    then have e: "eevdf_remove m tid = (Inr x, m')" using e by simp
    have len: "length (em_entities m') = length (em_entities m)"
      using e by (auto simp: eevdf_remove_def split: option.splits)
    obtain ys zs where q: "queue m = ys @ x # zs" "queue m' = ys @ zs" "ee_id x = tid" "em_virtual_time m' = em_virtual_time m"
      by (rule remove_cases [OF e])
    have op: "open_for m' f = open_for m f" by (simp add: open_for_def q(4))
    have "ahead_within A m' f" using A unfolding ahead_within_def op q(1,2) by auto
    moreover have "waiting A m' f \<le> waiting A m f" by (simp add: waiting_def op q len)
    moreover have "run_room W evs m'" using room old unfolding run_room_def q len by auto
    ultimately show ?thesis using f other by (auto simp: q)
  qed
qed

lemma queued_id_kept:
  assumes "eevdf_wf m" "i \<in> ee_id ` set (queue m)"
  shows "i \<in> ee_id ` set (queue (snd (eevdf_enqueue m tid w r s)))"
    "tid \<noteq> i \<Longrightarrow> i \<in> ee_id ` set (queue (snd (eevdf_remove m tid)))"
proof -
  obtain res m' where e: "eevdf_enqueue m tid w r s = (res, m')" by fastforce
  show "i \<in> ee_id ` set (queue (snd (eevdf_enqueue m tid w r s)))"
  proof (cases res)
    case (Inl err)
    then show ?thesis using e enqueue_refused [of m tid w r s err m'] assms(2) by simp
  next
    case (Inr u)
    then have "eevdf_enqueue m tid w r s = (Inr (), m')" using e by simp
    then have "i \<in> ee_id ` set (queue m')" using assms(2) by (elim enqueue_cases) auto
    then show ?thesis by (simp add: e)
  qed
  obtain res m' where e: "eevdf_remove m tid = (res, m')" by fastforce
  show "i \<in> ee_id ` set (queue (snd (eevdf_remove m tid)))" if "tid \<noteq> i"
  proof (cases res)
    case (Inl err)
    then show ?thesis using e remove_refused [of m tid err m'] assms(2) by simp
  next
    case (Inr x)
    then have "eevdf_remove m tid = (Inr x, m')" using e by simp
    then have "i \<in> ee_id ` set (queue m')" using assms(2) that by (elim remove_cases) auto
    then show ?thesis by (simp add: e)
  qed
qed

lemma room_after:
  "run_room W (Joins tid w r # evs) m \<Longrightarrow> eevdf_wf m \<Longrightarrow> queue m \<noteq> [] \<Longrightarrow> run_room W evs (snd (eevdf_enqueue m tid w r None))"
  "run_room W (Leaves tid # evs) m \<Longrightarrow> run_room W evs (snd (eevdf_remove m tid))"
proof -
  show "run_room W evs (snd (eevdf_enqueue m tid w r None))"
    if "run_room W (Joins tid w r # evs) m" "eevdf_wf m" and ne: "queue m \<noteq> []"
  proof -
    have f: "hd (queue m) \<in> set (queue m)" using ne by (rule hd_in_set)
    then show ?thesis using join_step [OF that(2) f ahead_within_start that(1) refl] by blast
  qed
  obtain res m' where e: "eevdf_remove m tid = (res, m')" by fastforce
  show "run_room W evs (snd (eevdf_remove m tid))" if room: "run_room W (Leaves tid # evs) m"
  proof (cases res)
    case (Inl err)
    then have "m' = m" using remove_refused e by blast
    then show ?thesis using e room entity_room_next by (auto simp: run_room_def)
  next
    case (Inr x)
    then have r: "eevdf_remove m tid = (Inr x, m')" using e by simp
    have "length (em_entities m') = length (em_entities m)" using r by (auto simp: eevdf_remove_def split: option.splits)
    moreover have "entity_room W evs y" if "y \<in> set (queue m)" for y
      using room that entity_room_next [of W "Leaves tid" evs y] by (simp add: run_room_def)
    ultimately have "run_room W evs m'" using room r by (elim remove_cases) (auto simp: run_room_def)
    then show ?thesis using e by simp
  qed
qed

text \<open>With room, and while one task stays queued, every round picks a task and completes its request.\<close>

lemma run_never_idles:
  "eevdf_wf m \<Longrightarrow> i \<in> ee_id ` set (queue m) \<Longrightarrow> run_room W evs m \<Longrightarrow> Leaves i \<notin> set evs \<Longrightarrow>
     length (eevdf_run evs m) = rounds evs \<and> (\<forall>x\<in>set (eevdf_run evs m). \<exists>tid. x = (Some tid, Inr ()))"
proof (induction evs arbitrary: m)
  case (Cons ev evs)
  show ?case
  proof (cases ev)
    case (Serves el)
    have "queue m \<noteq> []" using Cons.prems(2) by auto
    then obtain ys e zs e' m1 m2 where r: "eevdf_pick m = (Some (ee_id e), m1)" "eevdf_complete_request m1 (ee_id e) el = (Inr (), m2)"
      "queue m = ys @ e # zs" "queue m2 = ys @ e' # zs" "ee_id e' = ee_id e" "eevdf_wf m2" "run_room W evs m2"
      using serve_round [OF Cons.prems(1) Cons.prems(3) [unfolded Serves]] by metis
    then have "i \<in> ee_id ` set (queue m2)" using Cons.prems(2) by auto
    then show ?thesis using Cons.IH [of m2] r Cons.prems(4) by (simp add: Serves)
  next
    case (Joins tid w r)
    have "queue m \<noteq> []" using Cons.prems(2) by auto
    then show ?thesis
      using Cons.IH [of "snd (eevdf_enqueue m tid w r None)"] Cons.prems Joins enqueue_call_keeps(2) queued_id_kept(1) room_after(1) by simp
  next
    case (Leaves tid)
    then show ?thesis
      using Cons.IH [of "snd (eevdf_remove m tid)"] Cons.prems dequeue_keeps(2) [OF Cons.prems(1)]
        queued_id_kept(2) [OF Cons.prems(1,2), of tid] room_after(2) by auto
  qed
qed simp

lemma run_serves:
  "eevdf_wf m \<Longrightarrow> f \<in> set (queue m) \<Longrightarrow> ahead_within A m f \<Longrightarrow> run_room W evs m \<Longrightarrow> Leaves (ee_id f) \<notin> set evs \<Longrightarrow>
     waiting A m f < rounds evs \<Longrightarrow> Some (ee_id f) \<in> fst ` set (take (Suc (waiting A m f)) (eevdf_run evs m))"
proof (induction evs arbitrary: m)
  case (Cons ev evs)
  show ?case
  proof (cases ev)
    case (Serves el)
    have "queue m \<noteq> []" using Cons.prems(2) by auto
    then obtain ys e zs e' m1 m2 where r: "eevdf_pick m = (Some (ee_id e), m1)" "eevdf_complete_request m1 (ee_id e) el = (Inr (), m2)"
      "queue m = ys @ e # zs" "queue m2 = ys @ e' # zs" "ee_id e' = ee_id e"
      "unat (ee_virtual_finish e) < unat (ee_virtual_finish e')" "eevdf_wf m2" "run_room W evs m2"
      "unat (em_virtual_time m) < unat (em_virtual_time m2)" "length (em_entities m2) = length (em_entities m)"
      and least: "\<And>g. g \<in> set (queue m) \<Longrightarrow> ee_virtual_start g \<le> em_virtual_time m \<Longrightarrow> ee_virtual_finish e \<le> ee_virtual_finish g"
      using serve_round [OF Cons.prems(1) Cons.prems(4) [unfolded Serves]] by metis
    show ?thesis
    proof (cases "ee_id e = ee_id f")
      case True
      then show ?thesis using r by (simp add: Serves)
    next
      case False
      have p: "f \<in> set (queue m2)" "ahead_within A m2 f" "waiting A m2 f < waiting A m f"
        using serve_progress [OF Cons.prems(1-3) r(3-5) False r(6,9,10) least] by auto
      have "Some (ee_id f) \<in> fst ` set (take (Suc (waiting A m2 f)) (eevdf_run evs m2))"
        using Cons.prems p r(7,8) by (intro Cons.IH) (simp_all add: Serves)
      moreover have "set (take (Suc (waiting A m2 f)) (eevdf_run evs m2)) \<subseteq> set (take (waiting A m f) (eevdf_run evs m2))"
        using p(3) by (intro set_take_subset_set_take) simp
      ultimately show ?thesis using r(1,2) by (auto simp: Serves)
    qed
  next
    case (Joins tid w r)
    let ?m = "snd (eevdf_enqueue m tid w r None)"
    have j: "f \<in> set (queue ?m)" "ahead_within A ?m f" "waiting A ?m f = waiting A m f" "run_room W evs ?m"
      using join_step [OF Cons.prems(1-3) Cons.prems(4) [unfolded Joins] refl] by blast+
    have "Some (ee_id f) \<in> fst ` set (take (Suc (waiting A ?m f)) (eevdf_run evs ?m))"
      using Cons.prems j enqueue_call_keeps(2) by (intro Cons.IH) (simp_all add: Joins)
    then show ?thesis unfolding j(3) by (simp add: Joins)
  next
    case (Leaves tid)
    let ?m = "snd (eevdf_remove m tid)"
    have "tid \<noteq> ee_id f" using Cons.prems(5) Leaves by auto
    then have j: "f \<in> set (queue ?m)" "ahead_within A ?m f" "waiting A ?m f \<le> waiting A m f" "run_room W evs ?m"
      using leave_step [OF Cons.prems(2,3) _ Cons.prems(4) [unfolded Leaves] refl] by blast+
    have "Some (ee_id f) \<in> fst ` set (take (Suc (waiting A ?m f)) (eevdf_run evs ?m))"
      using Cons.prems j dequeue_keeps(2) by (intro Cons.IH) (simp_all add: Leaves)
    moreover have "set (take (Suc (waiting A ?m f)) (eevdf_run evs ?m)) \<subseteq> set (take (Suc (waiting A m f)) (eevdf_run evs ?m))"
      using j(3) by (intro set_take_subset_set_take) simp
    ultimately show ?thesis by (auto simp: Leaves)
  qed
qed simp

text \<open>
  C9: no queued task starves, and the policy never idles. Consider any run in which requests are
  served, tasks join at the current virtual time and other tasks leave, and whose numbers leave
  room in the counters. Every round picks a task and completes its request, and the given task,
  which does not leave, is among the first \<open>wait_bound + 1\<close> tasks picked. The bound is computed from
  the queue at the start: the virtual time until newcomers can no longer overtake the task, plus the
  service that a full array of other tasks can still receive before its deadline.
\<close>

theorem eevdf_no_starvation:
  assumes "eevdf_wf m" "f \<in> set (queue m)" "run_room W evs m" "Leaves (ee_id f) \<notin> set evs"
    and "wait_bound m f < rounds evs"
  shows "length (eevdf_run evs m) = rounds evs
    \<and> (\<forall>x\<in>set (eevdf_run evs m). \<exists>tid. x = (Some tid, Inr ()))
    \<and> Some (ee_id f) \<in> fst ` set (take (Suc (wait_bound m f)) (eevdf_run evs m))"
  using run_never_idles [OF assms(1) imageI [OF assms(2)] assms(3,4)]
    run_serves [OF assms(1,2) ahead_within_start assms(3,4)] assms(5) unfolding wait_bound_def by blast

definition sample_entity :: eevdf_entity where
  "sample_entity = \<lparr>ee_id = TaskId 8192, ee_weight = 1024, ee_request_ns = 5, ee_virtual_start = 0,
     ee_virtual_finish = 5, ee_service_ns = 0\<rparr>"

definition sample_queue :: eevdf_model where
  "sample_queue = \<lparr>em_virtual_time = 0, em_entities = [None, Some sample_entity]\<rparr>"

lemma sample_delta: "virtual_delta 5 1024 = Inr 5"
  by (simp add: virtual_delta_def NICE_0_WEIGHT_def checked_mul_def div_ceil_def)

lemma sample_queue_wf: "eevdf_wf sample_queue"
  by (simp add: eevdf_wf_def sample_queue_def entity_wf_def sample_entity_def sample_delta)

definition sample_pair :: eevdf_model where
  "sample_pair = \<lparr>em_virtual_time = 0, em_entities = [Some (sample_entity\<lparr>ee_virtual_start := 3, ee_virtual_finish := 8\<rparr>), None,
     Some (sample_entity\<lparr>ee_id := TaskId 8193, ee_virtual_start := 4, ee_virtual_finish := 9\<rparr>)]\<rparr>"

lemma repeated_rounds:
  "rounds (replicate n (Serves el)) = n" "served_ns (replicate n (Serves el)) = n * unat el"
  by (induction n) simp_all

theorem eevdf_no_starvation_witness:
  "eevdf_wf sample_pair \<and> length (eevdf_run (Joins (TaskId 8194) 1024 5 # replicate 40 (Serves 5)) sample_pair) = 40
   \<and> Some (TaskId 8193) \<in> fst ` set (eevdf_run (Joins (TaskId 8194) 1024 5 # replicate 40 (Serves 5)) sample_pair)"
proof -
  let ?f = "sample_entity\<lparr>ee_id := TaskId 8193, ee_virtual_start := 4, ee_virtual_finish := 9\<rparr>"
  let ?evs = "Joins (TaskId 8194) 1024 5 # replicate 40 (Serves 5)"
  have wf: "eevdf_wf sample_pair"
    by (simp add: eevdf_wf_def sample_pair_def entity_wf_def sample_entity_def sample_delta)
  have f: "?f \<in> set (queue sample_pair)" by (simp add: sample_pair_def)
  have room: "run_room 1024 ?evs sample_pair"
    by (simp add: run_room_def entity_room_def sample_pair_def sample_entity_def repeated_rounds list_all_iff del: replicate.simps)
  have "wait_bound sample_pair ?f = 36"
    by (simp add: wait_bound_def waiting_def open_for_def ahead_def sample_pair_def sample_entity_def)
  then have bound: "wait_bound sample_pair ?f < rounds ?evs" by (simp add: repeated_rounds del: replicate.simps)
  have id: "ee_id ?f = TaskId 8193" by simp
  have stays: "Leaves (ee_id ?f) \<notin> set ?evs" by simp
  have "Some (TaskId 8193) \<in> fst ` set (eevdf_run ?evs sample_pair)"
    using eevdf_no_starvation [OF wf f room stays bound] unfolding id by (meson image_mono set_take_subset subsetD)
  moreover have "length (eevdf_run ?evs sample_pair) = 40"
    using eevdf_no_starvation [OF wf f room stays bound] by (simp add: repeated_rounds del: replicate.simps)
  ultimately show ?thesis using wf by blast
qed

theorem eevdf_pick_policy_witness:
  "\<exists>e m'. queue sample_queue \<noteq> [] \<and> eevdf_pick sample_queue = (Some (ee_id e), m') \<and> e \<in> set (queue sample_queue)"
  using eevdf_pick_policy [of sample_queue] by (auto simp: sample_queue_def)

lemma sample_enqueued:
  "eevdf_enqueue (eevdf_model_new 1) (TaskId 8193) 1024 5 None =
     (Inr (), \<lparr>em_virtual_time = 0, em_entities = [Some (sample_entity\<lparr>ee_id := TaskId 8193\<rparr>)]\<rparr>)"
  by (simp add: eevdf_enqueue_def eevdf_model_new_def sample_delta checked_add_def sample_entity_def)

theorem eevdf_invariant_witness:
  "\<exists>m1. eevdf_enqueue (eevdf_model_new 1) (TaskId 8193) 1024 5 None = (Inr (), m1)
     \<and> sample_entity\<lparr>ee_id := TaskId 8193\<rparr> \<in> set (queue m1) \<and> distinct (map ee_id (queue m1))"
proof -
  define m1 where "m1 = \<lparr>em_virtual_time = 0, em_entities = [Some (sample_entity\<lparr>ee_id := TaskId 8193\<rparr>)]\<rparr>"
  have enq: "eevdf_enqueue (eevdf_model_new 1) (TaskId 8193) 1024 5 None = (Inr (), m1)"
    unfolding m1_def by (rule sample_enqueued)
  have "eevdf_call (eevdf_model_new 1, True) (snd (eevdf_enqueue (eevdf_model_new 1) (TaskId 8193) 1024 5 None), True)"
    by (rule call_enqueue)
  then have "eevdf_call\<^sup>*\<^sup>* (eevdf_model_new 1, True) (m1, True)" unfolding enq snd_conv by (rule r_into_rtranclp)
  then have "distinct (map ee_id (queue m1))" by (rule eevdf_invariant [THEN conjunct1])
  moreover have "sample_entity\<lparr>ee_id := TaskId 8193\<rparr> \<in> set (queue m1)" by (simp add: m1_def)
  ultimately show ?thesis using enq by blast
qed

end
