(* ===== verification/Eevdf_Tree.thy ===== *)
theory Eevdf_Tree
  imports Rust_Prelude "HOL-Library.Tree"
begin

text \<open>
  The index tree of the fair-share run queue (\<^verbatim>\<open>src/crates/huesos-sched/src/eevdf.rs\<close>): a search
  tree over \<^verbatim>\<open>(virtual_start, task_id)\<close> keys whose nodes live in an array of slots and are linked
  by slot numbers, with the least virtual finish of every subtree kept in its root. An operation
  takes the tree and returns an outcome with the tree, changed also when it fails. An outcome is a
  value, an error, a panic (an index out of range or an overflow), or, for the loops that follow
  links, lack of fuel; the number of slots is enough fuel on every tree the operations build, and
  the lemmas show that neither a panic nor \<^verbatim>\<open>InvariantBroken\<close> nor lack of fuel ever arises there.
\<close>

section \<open>Keys and nodes\<close>

datatype eevdf_key = EevdfKey (virtual_start: u128) (key_task_id: u64)

instantiation eevdf_key :: linorder
begin

definition less_eq_eevdf_key :: "eevdf_key \<Rightarrow> eevdf_key \<Rightarrow> bool" where
  "less_eq_eevdf_key a b \<longleftrightarrow>
     virtual_start a < virtual_start b \<or> virtual_start a = virtual_start b \<and> key_task_id a \<le> key_task_id b"

definition less_eevdf_key :: "eevdf_key \<Rightarrow> eevdf_key \<Rightarrow> bool" where
  "less_eevdf_key a b \<longleftrightarrow>
     virtual_start a < virtual_start b \<or> virtual_start a = virtual_start b \<and> key_task_id a < key_task_id b"

instance
  by standard (auto simp: less_eq_eevdf_key_def less_eevdf_key_def intro: eevdf_key.expand)

end

datatype eevdf_tree_error = TreeFull | KeyNotFound | InvariantBroken

record tree_node =
  tn_parent :: "nat option"
  tn_left :: "nat option"
  tn_right :: "nat option"
  tn_rank :: u8
  tn_key :: eevdf_key
  tn_min_finish :: u128
  tn_finish :: u128

definition node_new :: "eevdf_key \<Rightarrow> u128 \<Rightarrow> tree_node" where
  "node_new key finish =
     \<lparr>tn_parent = None, tn_left = None, tn_right = None, tn_rank = 0, tn_key = key,
      tn_min_finish = finish, tn_finish = finish\<rparr>"

record eevdf_tree =
  et_nodes :: "tree_node option list"
  et_free :: "nat list"
  et_free_len :: nat
  et_root :: "nat option"
  et_len :: nat

definition tree_new :: "nat \<Rightarrow> eevdf_tree" where
  "tree_new n =
     \<lparr>et_nodes = replicate n None, et_free = [0..<n], et_free_len = n, et_root = None, et_len = 0\<rparr>"

definition tree_is_full :: "eevdf_tree \<Rightarrow> bool" where
  "tree_is_full t \<longleftrightarrow> et_free_len t = 0"

section \<open>Outcomes\<close>

datatype 'a tree_outcome = Done 'a | Failed eevdf_tree_error | Panicked | OutOfFuel

type_synonym 'a tree_op = "eevdf_tree \<Rightarrow> 'a tree_outcome \<times> eevdf_tree"

definition ret :: "'a \<Rightarrow> 'a tree_op" where
  "ret x t = (Done x, t)"

definition fail :: "eevdf_tree_error \<Rightarrow> 'a tree_op" where
  "fail e t = (Failed e, t)"

text \<open>The question mark of the source: go on with the value, or stop with what stopped the call.\<close>

definition and_then :: "'a tree_op \<Rightarrow> ('a \<Rightarrow> 'b tree_op) \<Rightarrow> 'b tree_op" where
  "and_then m f t =
     (case m t of
        (Done x, t') \<Rightarrow> f x t'
      | (Failed e, t') \<Rightarrow> (Failed e, t')
      | (Panicked, t') \<Rightarrow> (Panicked, t')
      | (OutOfFuel, t') \<Rightarrow> (OutOfFuel, t'))"

definition node_ref :: "nat \<Rightarrow> tree_node tree_op" where
  "node_ref idx t =
     (if length (et_nodes t) \<le> idx then (Panicked, t)
      else case et_nodes t ! idx of
        None \<Rightarrow> (Failed InvariantBroken, t)
      | Some n \<Rightarrow> (Done n, t))"

text \<open>An assignment to fields of \<^verbatim>\<open>node_mut_ref(idx)?\<close>.\<close>

definition node_mut :: "nat \<Rightarrow> (tree_node \<Rightarrow> tree_node) \<Rightarrow> unit tree_op" where
  "node_mut idx f =
     and_then (node_ref idx) (\<lambda>n t. (Done (), t\<lparr>et_nodes := (et_nodes t)[idx := Some (f n)]\<rparr>))"

definition set_root :: "nat option \<Rightarrow> unit tree_op" where
  "set_root r t = (Done (), t\<lparr>et_root := r\<rparr>)"

section \<open>Augmentation\<close>

text \<open>The least finish of an optional child, if it has one.\<close>

definition child_min :: "nat option \<Rightarrow> u128 option tree_op" where
  "child_min c =
     (case c of
        None \<Rightarrow> ret None
      | Some i \<Rightarrow> and_then (node_ref i) (\<lambda>n. ret (Some (tn_min_finish n))))"

definition lower :: "u128 option \<Rightarrow> u128 \<Rightarrow> u128" where
  "lower c m = (case c of None \<Rightarrow> m | Some l \<Rightarrow> if l < m then l else m)"

definition refresh_node :: "nat \<Rightarrow> unit tree_op" where
  "refresh_node idx =
     and_then (node_ref idx) (\<lambda>n.
     and_then (child_min (tn_left n)) (\<lambda>left_min.
     and_then (child_min (tn_right n)) (\<lambda>right_min.
     node_mut idx (\<lambda>n'. n'\<lparr>tn_min_finish := lower right_min (lower left_min (tn_finish n))\<rparr>))))"

fun refresh_ancestors :: "nat \<Rightarrow> nat option \<Rightarrow> unit tree_op" where
  "refresh_ancestors fuel None = ret ()"
| "refresh_ancestors 0 (Some idx) = (\<lambda>t. (OutOfFuel, t))"
| "refresh_ancestors (Suc fuel) (Some idx) =
     and_then (refresh_node idx) (\<lambda>_.
     and_then (node_ref idx) (\<lambda>n. refresh_ancestors fuel (tn_parent n)))"

section \<open>Rotations\<close>

text \<open>Point the parent of \<^verbatim>\<open>old\<close>, or the root, at \<^verbatim>\<open>new\<close>.\<close>

definition replace_child :: "nat option \<Rightarrow> nat \<Rightarrow> nat option \<Rightarrow> unit tree_op" where
  "replace_child p old new =
     (case p of
        None \<Rightarrow> set_root new
      | Some pi \<Rightarrow>
          and_then (node_ref pi) (\<lambda>n.
          if tn_left n = Some old then node_mut pi (\<lambda>n'. n'\<lparr>tn_left := new\<rparr>)
          else node_mut pi (\<lambda>n'. n'\<lparr>tn_right := new\<rparr>)))"

definition set_parent :: "nat option \<Rightarrow> nat option \<Rightarrow> unit tree_op" where
  "set_parent c p = (case c of None \<Rightarrow> ret () | Some i \<Rightarrow> node_mut i (\<lambda>n. n\<lparr>tn_parent := p\<rparr>))"

definition rotate_right :: "nat \<Rightarrow> unit tree_op" where
  "rotate_right y =
     and_then (node_ref y) (\<lambda>y_node.
     case tn_left y_node of
       None \<Rightarrow> fail InvariantBroken
     | Some x \<Rightarrow>
         and_then (node_ref x) (\<lambda>x_node.
         and_then (node_mut x (\<lambda>n. n\<lparr>tn_right := Some y\<rparr>)) (\<lambda>_.
         and_then (node_mut y (\<lambda>n. n\<lparr>tn_parent := Some x\<rparr>)) (\<lambda>_.
         and_then (node_mut y (\<lambda>n. n\<lparr>tn_left := tn_right x_node\<rparr>)) (\<lambda>_.
         and_then (set_parent (tn_right x_node) (Some y)) (\<lambda>_.
         and_then (node_mut x (\<lambda>n. n\<lparr>tn_parent := tn_parent y_node\<rparr>)) (\<lambda>_.
         and_then (replace_child (tn_parent y_node) y (Some x)) (\<lambda>_.
         and_then (refresh_node y) (\<lambda>_. refresh_node x)))))))))"

definition rotate_left :: "nat \<Rightarrow> unit tree_op" where
  "rotate_left x =
     and_then (node_ref x) (\<lambda>x_node.
     case tn_right x_node of
       None \<Rightarrow> fail InvariantBroken
     | Some y \<Rightarrow>
         and_then (node_ref y) (\<lambda>y_node.
         and_then (node_mut y (\<lambda>n. n\<lparr>tn_left := Some x\<rparr>)) (\<lambda>_.
         and_then (node_mut x (\<lambda>n. n\<lparr>tn_parent := Some y\<rparr>)) (\<lambda>_.
         and_then (node_mut x (\<lambda>n. n\<lparr>tn_right := tn_left y_node\<rparr>)) (\<lambda>_.
         and_then (set_parent (tn_left y_node) (Some x)) (\<lambda>_.
         and_then (node_mut y (\<lambda>n. n\<lparr>tn_parent := tn_parent x_node\<rparr>)) (\<lambda>_.
         and_then (replace_child (tn_parent x_node) x (Some y)) (\<lambda>_.
         and_then (refresh_node x) (\<lambda>_. refresh_node y)))))))))"

section \<open>Rebalancing\<close>

text \<open>Changes of a rank panic when they leave the range of a byte.\<close>

definition rank_up :: "nat \<Rightarrow> unit tree_op" where
  "rank_up i =
     and_then (node_ref i) (\<lambda>n t.
     if tn_rank n = - 1 then (Panicked, t) else node_mut i (\<lambda>n'. n'\<lparr>tn_rank := tn_rank n + 1\<rparr>) t)"

definition rank_down :: "nat \<Rightarrow> unit tree_op" where
  "rank_down i =
     and_then (node_ref i) (\<lambda>n t.
     if tn_rank n = 0 then (Panicked, t) else node_mut i (\<lambda>n'. n'\<lparr>tn_rank := tn_rank n - 1\<rparr>) t)"

fun rebalance_after_insert :: "nat \<Rightarrow> nat \<Rightarrow> unit tree_op" where
  "rebalance_after_insert 0 node = (\<lambda>t. (OutOfFuel, t))"
| "rebalance_after_insert (Suc fuel) node =
     and_then (node_ref node) (\<lambda>node_node.
     case tn_parent node_node of
       None \<Rightarrow> ret ()
     | Some parent \<Rightarrow>
         and_then (node_ref parent) (\<lambda>parent_node t.
         if tn_rank node_node = - 1 then (Panicked, t)
         else if tn_rank node_node + 1 < tn_rank parent_node then
           if tn_left parent_node = Some node then
             (case tn_right node_node of
                Some grand \<Rightarrow>
                  and_then (rotate_left node) (\<lambda>_.
                  and_then (rotate_right parent) (\<lambda>_.
                  and_then (rank_up grand) (\<lambda>_.
                  and_then (rank_down node) (\<lambda>_. rebalance_after_insert fuel grand)))) t
              | None \<Rightarrow> and_then (rotate_right parent) (\<lambda>_. rebalance_after_insert fuel parent) t)
           else
             (case tn_left node_node of
                Some grand \<Rightarrow>
                  and_then (rotate_right node) (\<lambda>_.
                  and_then (rotate_left parent) (\<lambda>_.
                  and_then (rank_up grand) (\<lambda>_.
                  and_then (rank_down node) (\<lambda>_. rebalance_after_insert fuel grand)))) t
              | None \<Rightarrow> and_then (rotate_left parent) (\<lambda>_. rebalance_after_insert fuel parent) t)
         else rebalance_after_insert fuel parent t))"

definition child_rank :: "nat option \<Rightarrow> u8 tree_op" where
  "child_rank c = (case c of None \<Rightarrow> ret 0 | Some i \<Rightarrow> and_then (node_ref i) (\<lambda>n. ret (tn_rank n)))"

fun rebalance_after_erase :: "nat \<Rightarrow> nat \<Rightarrow> unit tree_op" where
  "rebalance_after_erase 0 node = (\<lambda>t. (OutOfFuel, t))"
| "rebalance_after_erase (Suc fuel) node =
     and_then (node_ref node) (\<lambda>node_node.
     and_then (child_rank (tn_left node_node)) (\<lambda>left_rank.
     and_then (child_rank (tn_right node_node)) (\<lambda>right_rank.
     if min left_rank right_rank = 0 \<and> 1 < max left_rank right_rank then
       if right_rank < left_rank then
         (case tn_left node_node of
            None \<Rightarrow> fail InvariantBroken
          | Some child \<Rightarrow>
              and_then (node_ref child) (\<lambda>child_node.
              and_then (child_rank (tn_left child_node)) (\<lambda>child_left.
              and_then (child_rank (tn_right child_node)) (\<lambda>child_right.
              if child_left < child_right then
                (case tn_right child_node of
                   None \<Rightarrow> fail InvariantBroken
                 | Some grand \<Rightarrow>
                     and_then (rotate_left child) (\<lambda>_.
                     and_then (rotate_right node) (\<lambda>_.
                     and_then (rank_up grand) (\<lambda>_.
                     and_then (rank_down child) (\<lambda>_. rebalance_after_erase fuel grand)))))
              else
                and_then (rotate_right node) (\<lambda>_.
                and_then (rank_down child) (\<lambda>_. rebalance_after_erase fuel child))))))
       else
         (case tn_right node_node of
            None \<Rightarrow> fail InvariantBroken
          | Some child \<Rightarrow>
              and_then (node_ref child) (\<lambda>child_node.
              and_then (child_rank (tn_left child_node)) (\<lambda>child_left.
              and_then (child_rank (tn_right child_node)) (\<lambda>child_right.
              if child_right < child_left then
                (case tn_left child_node of
                   None \<Rightarrow> fail InvariantBroken
                 | Some grand \<Rightarrow>
                     and_then (rotate_right child) (\<lambda>_.
                     and_then (rotate_left node) (\<lambda>_.
                     and_then (rank_up grand) (\<lambda>_.
                     and_then (rank_down child) (\<lambda>_. rebalance_after_erase fuel grand)))))
              else
                and_then (rotate_left node) (\<lambda>_.
                and_then (rank_down child) (\<lambda>_. rebalance_after_erase fuel child))))))
     else
       (case tn_parent node_node of
          None \<Rightarrow> ret ()
        | Some parent \<Rightarrow> rebalance_after_erase fuel parent))))"

section \<open>Insertion and removal\<close>

text \<open>The descent of \<^verbatim>\<open>insert\<close>: None when the key is present, else the parent of the free place.\<close>

fun insert_descend :: "nat \<Rightarrow> eevdf_key \<Rightarrow> nat option \<Rightarrow> nat option \<Rightarrow> nat option option tree_op" where
  "insert_descend fuel key parent None = ret (Some parent)"
| "insert_descend 0 key parent (Some idx) = (\<lambda>t. (OutOfFuel, t))"
| "insert_descend (Suc fuel) key parent (Some idx) =
     and_then (node_ref idx) (\<lambda>n.
     if key = tn_key n then ret None
     else if key < tn_key n then insert_descend fuel key (Some idx) (tn_left n)
     else insert_descend fuel key (Some idx) (tn_right n))"

definition reserve_slot :: "eevdf_key \<Rightarrow> u128 \<Rightarrow> nat tree_op" where
  "reserve_slot key finish t =
     (if et_free_len t = 0 then (Failed TreeFull, t)
      else if length (et_free t) < et_free_len t then (Panicked, t)
      else
        let slot = et_free t ! (et_free_len t - 1); t' = t\<lparr>et_free_len := et_free_len t - 1\<rparr> in
        if length (et_nodes t) \<le> slot then (Panicked, t')
        else (Done slot, t'\<lparr>et_nodes := (et_nodes t)[slot := Some (node_new key finish)], et_len := et_len t + 1\<rparr>))"

text \<open>Give a slot back, as the end of \<^verbatim>\<open>erase_single\<close> and the rollback of \<^verbatim>\<open>insert\<close> do.\<close>

definition release_slot :: "nat \<Rightarrow> unit tree_op" where
  "release_slot slot t =
     (if length (et_free t) \<le> et_free_len t \<or> et_len t = 0 \<or> length (et_nodes t) \<le> slot then (Panicked, t)
      else (Done (), t\<lparr>et_free := (et_free t)[et_free_len t := slot], et_free_len := et_free_len t + 1,
                       et_len := et_len t - 1, et_nodes := (et_nodes t)[slot := None]\<rparr>))"

definition link_slot :: "nat \<Rightarrow> eevdf_key \<Rightarrow> nat option \<Rightarrow> unit tree_op" where
  "link_slot slot key parent =
     and_then (node_mut slot (\<lambda>n. n\<lparr>tn_parent := parent\<rparr>)) (\<lambda>_.
     case parent of
       None \<Rightarrow> set_root (Some slot)
     | Some p \<Rightarrow>
         and_then (node_ref p) (\<lambda>n.
         if key < tn_key n then node_mut p (\<lambda>n'. n'\<lparr>tn_left := Some slot\<rparr>)
         else node_mut p (\<lambda>n'. n'\<lparr>tn_right := Some slot\<rparr>)))"

definition tree_insert :: "eevdf_key \<Rightarrow> u128 \<Rightarrow> unit tree_op" where
  "tree_insert key finish =
     and_then (reserve_slot key finish) (\<lambda>slot t.
     and_then (insert_descend (length (et_nodes t)) key None (et_root t)) (\<lambda>found.
     case found of
       None \<Rightarrow> and_then (release_slot slot) (\<lambda>_. fail KeyNotFound)
     | Some parent \<Rightarrow>
         and_then (link_slot slot key parent) (\<lambda>_.
         and_then (rebalance_after_insert (length (et_nodes t)) slot) (\<lambda>_.
         refresh_ancestors (length (et_nodes t)) (Some slot)))) t)"

definition erase_single :: "nat \<Rightarrow> unit tree_op" where
  "erase_single slot =
     and_then (node_ref slot) (\<lambda>slot_node.
     let parent = tn_parent slot_node;
         child = (case tn_left slot_node of None \<Rightarrow> tn_right slot_node | Some l \<Rightarrow> Some l) in
     and_then (replace_child parent slot child) (\<lambda>_.
     and_then (set_parent child parent) (\<lambda>_. release_slot slot)))"

fun leftmost :: "nat \<Rightarrow> nat \<Rightarrow> nat tree_op" where
  "leftmost 0 cur = (\<lambda>t. (OutOfFuel, t))"
| "leftmost (Suc fuel) cur =
     and_then (node_ref cur) (\<lambda>n. case tn_left n of None \<Rightarrow> ret cur | Some l \<Rightarrow> leftmost fuel l)"

definition repair_from :: "nat option \<Rightarrow> unit tree_op" where
  "repair_from start t =
     (case start of
        None \<Rightarrow> (Done (), t)
      | Some p \<Rightarrow>
          and_then (rebalance_after_erase (length (et_nodes t)) p) (\<lambda>_.
          refresh_ancestors (length (et_nodes t)) (Some p)) t)"

definition erase_node :: "nat \<Rightarrow> unit tree_op" where
  "erase_node slot =
     and_then (node_ref slot) (\<lambda>slot_node.
     case (tn_left slot_node, tn_right slot_node) of
       (Some _, Some successor_root) \<Rightarrow>
         (\<lambda>t. and_then (leftmost (length (et_nodes t)) successor_root) (\<lambda>succ.
          and_then (node_ref succ) (\<lambda>successor.
          and_then (node_mut slot (\<lambda>n. n\<lparr>tn_key := tn_key successor, tn_finish := tn_finish successor,
             tn_min_finish := tn_min_finish successor\<rparr>)) (\<lambda>_.
          and_then (erase_single succ) (\<lambda>_.
          repair_from (case tn_parent successor of None \<Rightarrow> Some slot | Some p \<Rightarrow> Some p))))) t)
     | _ \<Rightarrow> and_then (erase_single slot) (\<lambda>_. repair_from (tn_parent slot_node)))"

text \<open>The read-only walks skip what is not there: an empty slot on the way ends them, and so does
  here a link out of range, which no operation ever makes.\<close>

fun find_key_from :: "nat \<Rightarrow> tree_node option list \<Rightarrow> eevdf_key \<Rightarrow> nat \<Rightarrow> nat option" where
  "find_key_from 0 nodes key cur = None"
| "find_key_from (Suc fuel) nodes key cur =
     (case (if cur < length nodes then nodes ! cur else None) of
        None \<Rightarrow> None
      | Some n \<Rightarrow>
          if key = tn_key n then Some cur
          else if key < tn_key n then Option.bind (tn_left n) (find_key_from fuel nodes key)
          else Option.bind (tn_right n) (find_key_from fuel nodes key))"

definition find_key :: "eevdf_tree \<Rightarrow> eevdf_key \<Rightarrow> nat option" where
  "find_key t key = Option.bind (et_root t) (find_key_from (length (et_nodes t)) (et_nodes t) key)"

definition tree_remove :: "eevdf_key \<Rightarrow> unit tree_op" where
  "tree_remove key t =
     (case find_key t key of
        None \<Rightarrow> (Failed KeyNotFound, t)
      | Some slot \<Rightarrow> erase_node slot t)"

definition tree_contains :: "eevdf_tree \<Rightarrow> eevdf_key \<Rightarrow> bool" where
  "tree_contains t key \<longleftrightarrow> find_key t key \<noteq> None"

definition pop_min :: "eevdf_key option tree_op" where
  "pop_min t =
     (case et_root t of
        None \<Rightarrow> (Done None, t)
      | Some root \<Rightarrow>
          and_then (leftmost (length (et_nodes t)) root) (\<lambda>cur.
          and_then (node_ref cur) (\<lambda>n.
          and_then (erase_node cur) (\<lambda>_. ret (Some (tn_key n))))) t)"

section \<open>Read-only walks\<close>

fun peek_from :: "nat \<Rightarrow> tree_node option list \<Rightarrow> nat \<Rightarrow> eevdf_key option" where
  "peek_from 0 nodes cur = None"
| "peek_from (Suc fuel) nodes cur =
     (case (if cur < length nodes then nodes ! cur else None) of
        None \<Rightarrow> None
      | Some n \<Rightarrow> (case tn_left n of None \<Rightarrow> Some (tn_key n) | Some l \<Rightarrow> peek_from fuel nodes l))"

definition peek_min :: "eevdf_tree \<Rightarrow> eevdf_key option" where
  "peek_min t = Option.bind (et_root t) (peek_from (length (et_nodes t)) (et_nodes t))"

definition min_start :: "eevdf_tree \<Rightarrow> u128 option" where
  "min_start t = map_option virtual_start (Option.bind (et_root t) (peek_from (length (et_nodes t)) (et_nodes t)))"

text \<open>The recursive walks over a subtree, in order, with the depth as fuel. The callback of
  \<^verbatim>\<open>walk_eligible\<close> works on a state that it captures.\<close>

fun collect_inorder :: "nat \<Rightarrow> tree_node option list \<Rightarrow> nat option \<Rightarrow> eevdf_key list \<Rightarrow> eevdf_key list" where
  "collect_inorder 0 nodes node out = out"
| "collect_inorder (Suc fuel) nodes node out =
     (case node of
        None \<Rightarrow> out
      | Some idx \<Rightarrow>
          if length nodes \<le> idx then out
          else (case nodes ! idx of
            None \<Rightarrow> out
          | Some n \<Rightarrow>
              let out1 = collect_inorder fuel nodes (tn_left n) out; out2 = out1 @ [tn_key n] in
              collect_inorder fuel nodes (tn_right n) out2))"

fun walk_eligible ::
  "nat \<Rightarrow> tree_node option list \<Rightarrow> nat option \<Rightarrow> u128 \<Rightarrow> (eevdf_key \<Rightarrow> u128 \<Rightarrow> 's \<Rightarrow> 's) \<Rightarrow> 's \<Rightarrow> 's" where
  "walk_eligible 0 nodes node now f s = s"
| "walk_eligible (Suc fuel) nodes node now f s =
     (case node of
        None \<Rightarrow> s
      | Some idx \<Rightarrow>
          if length nodes \<le> idx then s
          else (case nodes ! idx of
            None \<Rightarrow> s
          | Some n \<Rightarrow>
              let s1 = walk_eligible fuel nodes (tn_left n) now f s;
                  s2 = (if virtual_start (tn_key n) \<le> now then f (tn_key n) (tn_finish n) s1 else s1) in
              walk_eligible fuel nodes (tn_right n) now f s2))"

definition collect_sorted :: "eevdf_tree \<Rightarrow> eevdf_key list" where
  "collect_sorted t = collect_inorder (Suc (length (et_nodes t))) (et_nodes t) (et_root t) []"

definition keep_best :: "eevdf_key \<Rightarrow> u128 \<Rightarrow> (u128 \<times> eevdf_key) option \<Rightarrow> (u128 \<times> eevdf_key) option" where
  "keep_best key finish best =
     (let candidate = (finish, key) in
      case best of
        None \<Rightarrow> Some candidate
      | Some current \<Rightarrow>
          if fst candidate < fst current \<or> fst candidate = fst current \<and> key < snd current
          then Some candidate else best)"

definition pick_eligible :: "eevdf_tree \<Rightarrow> u128 \<Rightarrow> eevdf_key option" where
  "pick_eligible t now =
     map_option snd (walk_eligible (Suc (length (et_nodes t))) (et_nodes t) (et_root t) now keep_best None)"

section \<open>The walks as lists\<close>

fun walk_inorder :: "nat \<Rightarrow> tree_node option list \<Rightarrow> nat option \<Rightarrow> tree_node list" where
  "walk_inorder 0 nodes node = []"
| "walk_inorder (Suc fuel) nodes node =
     (case node of
        None \<Rightarrow> []
      | Some idx \<Rightarrow>
          if length nodes \<le> idx then []
          else (case nodes ! idx of
            None \<Rightarrow> []
          | Some n \<Rightarrow> walk_inorder fuel nodes (tn_left n) @ n # walk_inorder fuel nodes (tn_right n)))"

lemma collect_inorder_walk: "collect_inorder fuel nodes node out = out @ map tn_key (walk_inorder fuel nodes node)"
  by (induction fuel nodes node out rule: collect_inorder.induct) (auto simp: Let_def split: option.splits)

lemma walk_eligible_walk:
  "walk_eligible fuel nodes node now f s =
     foldl (\<lambda>s n. f (tn_key n) (tn_finish n) s) s (filter (\<lambda>n. virtual_start (tn_key n) \<le> now) (walk_inorder fuel nodes node))"
  by (induction fuel arbitrary: node s) (auto simp: Let_def split: option.splits)

abbreviation better :: "(u128 \<times> eevdf_key) option \<Rightarrow> tree_node \<Rightarrow> (u128 \<times> eevdf_key) option" where
  "better best n \<equiv> keep_best (tn_key n) (tn_finish n) best"

lemma collect_sorted_walk: "collect_sorted t = map tn_key (walk_inorder (Suc (length (et_nodes t))) (et_nodes t) (et_root t))"
  by (simp only: collect_sorted_def collect_inorder_walk append_Nil)

lemma pick_eligible_walk:
  "pick_eligible t now = map_option snd (foldl better None
     (filter (\<lambda>n. virtual_start (tn_key n) \<le> now) (walk_inorder (Suc (length (et_nodes t))) (et_nodes t) (et_root t))))"
  by (simp only: pick_eligible_def walk_eligible_walk)

section \<open>The shape of the tree\<close>

named_theorems tree_ops \<open>unfolding of the operations on a linked node\<close>

abbreviation nd :: "tree_node option list \<Rightarrow> nat \<Rightarrow> tree_node" where
  "nd ns i \<equiv> the (ns ! i)"

definition root_of :: "nat tree \<Rightarrow> nat option" where
  "root_of t = (case t of Leaf \<Rightarrow> None | Node _ i _ \<Rightarrow> Some i)"

lemma root_of_simps [simp]: "root_of Leaf = None" "root_of (Node l i r) = Some i"
  by (simp_all add: root_of_def)

definition present :: "tree_node option list \<Rightarrow> nat \<Rightarrow> bool" where
  "present ns i \<longleftrightarrow> i < length ns \<and> ns ! i \<noteq> None"

fun linked :: "tree_node option list \<Rightarrow> nat option \<Rightarrow> nat tree \<Rightarrow> bool" where
  "linked ns p Leaf \<longleftrightarrow> True"
| "linked ns p (Node l i r) \<longleftrightarrow>
     present ns i \<and> tn_parent (nd ns i) = p \<and> tn_rank (nd ns i) = 0
     \<and> tn_left (nd ns i) = root_of l \<and> tn_right (nd ns i) = root_of r
     \<and> linked ns (Some i) l \<and> linked ns (Some i) r"

definition min_of :: "tree_node option list \<Rightarrow> nat tree \<Rightarrow> u128 option" where
  "min_of ns t = map_option (\<lambda>i. tn_min_finish (nd ns i)) (root_of t)"

definition node_min :: "tree_node option list \<Rightarrow> nat tree \<Rightarrow> nat \<Rightarrow> nat tree \<Rightarrow> u128" where
  "node_min ns l i r = lower (min_of ns r) (lower (min_of ns l) (tn_finish (nd ns i)))"

fun aug :: "tree_node option list \<Rightarrow> nat tree \<Rightarrow> bool" where
  "aug ns Leaf \<longleftrightarrow> True"
| "aug ns (Node l i r) \<longleftrightarrow> tn_min_finish (nd ns i) = node_min ns l i r \<and> aug ns l \<and> aug ns r"

text \<open>Correct except on the way from \<^verbatim>\<open>i\<close> to the root.\<close>

fun aug_off :: "tree_node option list \<Rightarrow> nat \<Rightarrow> nat tree \<Rightarrow> bool" where
  "aug_off ns i Leaf \<longleftrightarrow> True"
| "aug_off ns i (Node l j r) \<longleftrightarrow>
     (if i \<in> set_tree l then aug_off ns i l else aug ns l) \<and> (if i \<in> set_tree r then aug_off ns i r else aug ns r)"

lemma linked_present: "linked ns p t \<Longrightarrow> i \<in> set_tree t \<Longrightarrow> present ns i"
  by (induction t arbitrary: p) auto

lemma linked_frame:
  "linked ns p t \<Longrightarrow> length ns' = length ns \<Longrightarrow> (\<And>i. i \<in> set_tree t \<Longrightarrow> ns' ! i = ns ! i) \<Longrightarrow> linked ns' p t"
  by (induction t arbitrary: p) (auto simp: present_def)

lemma min_of_frame: "(\<And>i. i \<in> set_tree t \<Longrightarrow> ns' ! i = ns ! i) \<Longrightarrow> min_of ns' t = min_of ns t"
  by (cases t) (auto simp: min_of_def)

lemma aug_frame:
  assumes "aug ns t" "\<And>i. i \<in> set_tree t \<Longrightarrow> ns' ! i = ns ! i"
  shows "aug ns' t"
  using assms
proof (induction t)
  case (Node l i r)
  have "min_of ns' l = min_of ns l" "min_of ns' r = min_of ns r" "ns' ! i = ns ! i"
    using Node.prems(2) by (auto intro!: min_of_frame)
  then show ?case using Node by (simp add: node_min_def)
qed simp

lemma size_le_slots:
  assumes "linked ns p t" "distinct (inorder t)"
  shows "size t \<le> length ns"
proof -
  have "set (inorder t) \<subseteq> {..<length ns}" using linked_present [OF assms(1)] by (auto simp: present_def)
  then have "card (set (inorder t)) \<le> length ns" using card_mono [of "{..<length ns}"] by simp
  then show ?thesis using distinct_card [OF assms(2)] by simp
qed

lemma node_ref_present [tree_ops]: "present (et_nodes t) i \<Longrightarrow> node_ref i t = (Done (nd (et_nodes t) i), t)"
  by (auto simp: node_ref_def present_def)

lemma node_mut_present [tree_ops]:
  "present (et_nodes t) i \<Longrightarrow>
     node_mut i f t = (Done (), t\<lparr>et_nodes := (et_nodes t)[i := Some (f (nd (et_nodes t) i))]\<rparr>)"
  by (simp add: node_mut_def and_then_def node_ref_present)

lemma and_then_Done [tree_ops]: "m t = (Done x, t') \<Longrightarrow> and_then m f t = f x t'"
  by (simp add: and_then_def)

lemma child_min_linked:
  "linked (et_nodes T) p t \<Longrightarrow> child_min (root_of t) T = (Done (min_of (et_nodes T) t), T)"
  by (cases t) (simp_all add: child_min_def ret_def min_of_def tree_ops)

lemma refresh_node_linked:
  assumes "linked (et_nodes T) p (Node l j r)"
  shows "refresh_node j T = (Done (), T\<lparr>et_nodes := (et_nodes T)[j :=
    Some ((nd (et_nodes T) j)\<lparr>tn_min_finish := node_min (et_nodes T) l j r\<rparr>)]\<rparr>)"
  using assms child_min_linked [of T "Some j" l] child_min_linked [of T "Some j" r]
  by (simp add: refresh_node_def node_min_def tree_ops)

text \<open>Only least finishes change, and only in \<^verbatim>\<open>S\<close>.\<close>

definition same_but_min :: "nat set \<Rightarrow> tree_node option list \<Rightarrow> tree_node option list \<Rightarrow> bool" where
  "same_but_min S ns ns' \<longleftrightarrow> length ns' = length ns \<and> (\<forall>i. i \<notin> S \<longrightarrow> ns' ! i = ns ! i)
     \<and> (\<forall>i. present ns i \<longrightarrow> present ns' i \<and> (\<exists>m. nd ns' i = (nd ns i)\<lparr>tn_min_finish := m\<rparr>))"

lemma same_but_min_linked: "same_but_min S ns ns' \<Longrightarrow> linked ns p t \<Longrightarrow> linked ns' p t"
proof (induction t arbitrary: p)
  case (Node l i r)
  then obtain m where "present ns' i" "nd ns' i = (nd ns i)\<lparr>tn_min_finish := m\<rparr>" by (auto simp: same_but_min_def)
  then show ?case using Node by simp
qed simp

lemma same_but_minD:
  assumes "same_but_min S ns ns'"
  shows "length ns' = length ns" "i \<notin> S \<Longrightarrow> ns' ! i = ns ! i"
    "present ns i \<Longrightarrow> present ns' i" "present ns i \<Longrightarrow> \<exists>m. nd ns' i = (nd ns i)\<lparr>tn_min_finish := m\<rparr>"
  using assms by (auto simp: same_but_min_def)

lemma same_but_min_trans:
  assumes "same_but_min S ns ns'" "same_but_min S' ns' ns''"
  shows "same_but_min (S \<union> S') ns ns''"
proof -
  note a = same_but_minD [OF assms(1)] and b = same_but_minD [OF assms(2)]
  have "\<exists>m. nd ns'' i = (nd ns i)\<lparr>tn_min_finish := m\<rparr>" if "present ns i" for i
    using a(4) [OF that] b(4) [OF a(3) [OF that]] by auto
  then show ?thesis using a(1-3) b(1-3) by (simp add: same_but_min_def)
qed

lemma same_but_min_mono: "same_but_min S ns ns' \<Longrightarrow> S \<subseteq> S' \<Longrightarrow> same_but_min S' ns ns'"
  by (auto simp: same_but_min_def)

lemma same_but_min_update:
  assumes "present ns j"
  shows "same_but_min {j} ns (ns[j := Some ((nd ns j)\<lparr>tn_min_finish := m\<rparr>)])" (is "same_but_min _ _ ?ns")
proof -
  have "present ?ns i \<and> (\<exists>m. nd ?ns i = (nd ns i)\<lparr>tn_min_finish := m\<rparr>)" if "present ns i" for i
  proof (cases "i = j")
    case False
    then show ?thesis using that by (auto simp: present_def intro!: exI [of _ "tn_min_finish (nd ns i)"])
  qed (use assms in \<open>auto simp: present_def\<close>)
  then show ?thesis by (simp add: same_but_min_def)
qed

section \<open>Walking up\<close>

lemma refresh_up:
  assumes "linked (et_nodes T) pp t" "distinct (inorder t)" "i \<in> set_tree t" "aug_off (et_nodes T) i t"
  shows "\<exists>k ns'. k \<le> size t \<and> same_but_min (set_tree t) (et_nodes T) ns' \<and> aug ns' t
    \<and> (\<forall>fuel. refresh_ancestors (k + fuel) (Some i) T = refresh_ancestors fuel pp (T\<lparr>et_nodes := ns'\<rparr>))"
  using assms
proof (induction t arbitrary: T pp)
  case (Node l j r)
  have finish: "\<exists>ns'. same_but_min {j} (et_nodes S) ns' \<and> aug ns' (Node l j r)
      \<and> (\<forall>fuel. refresh_ancestors (Suc fuel) (Some j) S = refresh_ancestors fuel pp (S\<lparr>et_nodes := ns'\<rparr>))"
    if S: "linked (et_nodes S) pp (Node l j r)" "aug (et_nodes S) l" "aug (et_nodes S) r" for S
  proof -
    let ?m = "node_min (et_nodes S) l j r"
    let ?ns = "(et_nodes S)[j := Some ((nd (et_nodes S) j)\<lparr>tn_min_finish := ?m\<rparr>)]"
    have j: "present (et_nodes S) j" using S(1) by simp
    have same: "same_but_min {j} (et_nodes S) ?ns" by (rule same_but_min_update [OF j])
    have out: "?ns ! i = et_nodes S ! i" if "i \<noteq> j" for i using that by simp
    have "j \<notin> set_tree l" "j \<notin> set_tree r" using Node.prems(2) by auto
    then have kids: "aug ?ns l" "aug ?ns r" "min_of ?ns l = min_of (et_nodes S) l" "min_of ?ns r = min_of (et_nodes S) r"
      using S(2,3) by (auto intro!: aug_frame [of "et_nodes S"] min_of_frame out)
    have "nd ?ns j = (nd (et_nodes S) j)\<lparr>tn_min_finish := ?m\<rparr>" using j by (simp add: present_def)
    then have "aug ?ns (Node l j r)" using kids by (simp add: node_min_def)
    moreover have "present ?ns j" "tn_parent (nd ?ns j) = pp" using j S(1) by (auto simp: present_def)
    ultimately show ?thesis using same refresh_node_linked [OF S(1)]
      by (intro exI [of _ ?ns]) (simp add: tree_ops)
  qed
  show ?case
  proof (cases "i = j")
    case True
    then have "aug (et_nodes T) l" "aug (et_nodes T) r" using Node.prems(2,4) by auto
    from finish [OF Node.prems(1) this] obtain ns' where "same_but_min {j} (et_nodes T) ns'" "aug ns' (Node l j r)"
      "\<forall>fuel. refresh_ancestors (Suc fuel) (Some j) T = refresh_ancestors fuel pp (T\<lparr>et_nodes := ns'\<rparr>)" by blast
    then show ?thesis using True same_but_min_mono [of "{j}" "et_nodes T" ns' "set_tree (Node l j r)"]
      by (intro exI [of _ 1] exI [of _ ns']) simp
  next
    case False
    then obtain c where c: "c = l \<or> c = r" "i \<in> set_tree c" using Node.prems(3) by auto
    have lc: "linked (et_nodes T) (Some j) c" "distinct (inorder c)" "aug_off (et_nodes T) i c"
      using Node.prems c by auto
    obtain k ns1 where k: "k \<le> size c" "same_but_min (set_tree c) (et_nodes T) ns1" "aug ns1 c"
      "\<forall>fuel. refresh_ancestors (k + fuel) (Some i) T = refresh_ancestors fuel (Some j) (T\<lparr>et_nodes := ns1\<rparr>)"
      using Node.IH c lc by blast
    have other: "aug ns1 d" if "d = l \<or> d = r" "d \<noteq> c" for d
    proof (rule aug_frame)
      have "i \<notin> set_tree d" using that c Node.prems(2) by auto
      then show "aug (et_nodes T) d" using that(1) Node.prems(4) by auto
      show "ns1 ! x = et_nodes T ! x" if "x \<in> set_tree d" for x
        using that \<open>d = l \<or> d = r\<close> \<open>d \<noteq> c\<close> c Node.prems(2) by (intro same_but_minD(2) [OF k(2)]) auto
    qed
    have "aug ns1 l" "aug ns1 r" using other k(3) c(1) by blast+
    moreover have "linked ns1 pp (Node l j r)" using same_but_min_linked [OF k(2) Node.prems(1)] .
    ultimately obtain ns2 where n2: "same_but_min {j} ns1 ns2" "aug ns2 (Node l j r)"
      "\<forall>fuel. refresh_ancestors (Suc fuel) (Some j) (T\<lparr>et_nodes := ns1\<rparr>) = refresh_ancestors fuel pp (T\<lparr>et_nodes := ns2\<rparr>)"
      using finish [of "T\<lparr>et_nodes := ns1\<rparr>"] by auto
    have "same_but_min (set_tree (Node l j r)) (et_nodes T) ns2"
      by (rule same_but_min_mono [OF same_but_min_trans [OF k(2) n2(1)]]) (use c(1) in auto)
    moreover have "refresh_ancestors (Suc k + fuel) (Some i) T = refresh_ancestors fuel pp (T\<lparr>et_nodes := ns2\<rparr>)" for fuel
      using k(4) [rule_format, of "Suc fuel"] n2(3) by simp
    moreover have "Suc k \<le> size (Node l j r)" using k(1) c(1) by auto
    ultimately show ?thesis using n2(2) by blast
  qed
qed simp

lemma refresh_all:
  assumes "linked (et_nodes T) None t" "distinct (inorder t)" "i \<in> set_tree t" "aug_off (et_nodes T) i t"
    "size t \<le> fuel"
  shows "\<exists>ns'. refresh_ancestors fuel (Some i) T = (Done (), T\<lparr>et_nodes := ns'\<rparr>)
    \<and> same_but_min (set_tree t) (et_nodes T) ns' \<and> aug ns' t"
proof -
  obtain k ns' where "k \<le> size t" "same_but_min (set_tree t) (et_nodes T) ns'" "aug ns' t"
    "\<forall>fuel. refresh_ancestors (k + fuel) (Some i) T = refresh_ancestors fuel None (T\<lparr>et_nodes := ns'\<rparr>)"
    using refresh_up [OF assms(1-4)] by blast
  moreover from this have "refresh_ancestors (k + (fuel - k)) (Some i) T = (Done (), T\<lparr>et_nodes := ns'\<rparr>)" by (simp add: ret_def)
  ultimately show ?thesis using assms(5) by auto
qed

text \<open>All ranks are zero, so rebalancing only walks to the root.\<close>

lemma rebalance_insert_up:
  assumes "linked (et_nodes T) pp t" "i \<in> set_tree t"
  shows "\<exists>k < size t. \<forall>fuel. rebalance_after_insert (k + Suc fuel) i T = rebalance_after_insert (Suc fuel) (the (root_of t)) T"
  using assms
proof (induction t arbitrary: pp)
  case (Node l j r)
  show ?case
  proof (cases "i = j")
    case True
    then show ?thesis by (intro exI [of _ 0]) simp
  next
    case False
    then obtain c where c: "c = l \<or> c = r" "i \<in> set_tree c" using Node.prems(2) by auto
    have lc: "linked (et_nodes T) (Some j) c" using Node.prems(1) c(1) by auto
    obtain k where k: "k < size c"
      "\<forall>fuel. rebalance_after_insert (k + Suc fuel) i T = rebalance_after_insert (Suc fuel) (the (root_of c)) T"
      using Node.IH c lc by blast
    obtain c1 x c2 where cx: "c = Node c1 x c2" using c(2) by (cases c) auto
    have "rebalance_after_insert (Suc (Suc fuel)) x T = rebalance_after_insert (Suc fuel) j T" for fuel
      using Node.prems(1) lc unfolding cx rebalance_after_insert.simps(2) [of "Suc fuel"] by (simp add: tree_ops del: rebalance_after_insert.simps)
    then have "rebalance_after_insert (Suc k + Suc fuel) i T = rebalance_after_insert (Suc fuel) (the (root_of (Node l j r))) T" for fuel
      using k(2) [rule_format, of "Suc fuel"] by (simp add: cx del: rebalance_after_insert.simps)
    moreover have "Suc k < size (Node l j r)" using k(1) c(1) by auto
    ultimately show ?thesis by blast
  qed
qed simp

lemma child_rank_linked: "linked (et_nodes T) p t \<Longrightarrow> child_rank (root_of t) T = (Done 0, T)"
  by (cases t) (simp_all add: child_rank_def ret_def tree_ops)

lemma rebalance_erase_up:
  assumes "linked (et_nodes T) pp t" "i \<in> set_tree t"
  shows "\<exists>k < size t. \<forall>fuel. rebalance_after_erase (k + Suc fuel) i T = rebalance_after_erase (Suc fuel) (the (root_of t)) T"
  using assms
proof (induction t arbitrary: pp)
  case (Node l j r)
  show ?case
  proof (cases "i = j")
    case True
    then show ?thesis by (intro exI [of _ 0]) simp
  next
    case False
    then obtain c where c: "c = l \<or> c = r" "i \<in> set_tree c" using Node.prems(2) by auto
    have lc: "linked (et_nodes T) (Some j) c" using Node.prems(1) c(1) by auto
    obtain k where k: "k < size c"
      "\<forall>fuel. rebalance_after_erase (k + Suc fuel) i T = rebalance_after_erase (Suc fuel) (the (root_of c)) T"
      using Node.IH c lc by blast
    obtain c1 x c2 where cx: "c = Node c1 x c2" using c(2) by (cases c) auto
    have "rebalance_after_erase (Suc (Suc fuel)) x T = rebalance_after_erase (Suc fuel) j T" for fuel
      using lc child_rank_linked [of T "Some x" c1] child_rank_linked [of T "Some x" c2]
      unfolding cx rebalance_after_erase.simps(2) [of "Suc fuel"] by (simp add: tree_ops del: rebalance_after_erase.simps)
    then have "rebalance_after_erase (Suc k + Suc fuel) i T = rebalance_after_erase (Suc fuel) (the (root_of (Node l j r))) T" for fuel
      using k(2) [rule_format, of "Suc fuel"] by (simp add: cx del: rebalance_after_erase.simps)
    moreover have "Suc k < size (Node l j r)" using k(1) c(1) by auto
    ultimately show ?thesis by blast
  qed
qed simp

end
