(* ===== verification/Eevdf_Tree_Insert.thy ===== *)
theory Eevdf_Tree_Insert
  imports Eevdf_Tree
begin

text \<open>
  Insertion and the queries of the index tree of \<^verbatim>\<open>huesos-sched/src/eevdf.rs\<close>: the invariant that
  the arena, its free list and a binary tree of slots satisfy, that \<^verbatim>\<open>insert\<close> keeps it on every branch,
  and what \<^verbatim>\<open>contains\<close>, \<^verbatim>\<open>collect_sorted\<close> and \<^verbatim>\<open>pick_eligible\<close> answer.
\<close>

section \<open>Inserting a leaf\<close>

abbreviation key_of :: "tree_node option list \<Rightarrow> nat \<Rightarrow> eevdf_key" where
  "key_of ns i \<equiv> tn_key (nd ns i)"

definition ordered :: "(nat \<Rightarrow> eevdf_key) \<Rightarrow> nat tree \<Rightarrow> bool" where
  "ordered K t \<longleftrightarrow> sorted_wrt (<) (map K (inorder t))"

lemma ordered_Node [simp]:
  "ordered K Leaf"
  "ordered K (Node l i r) \<longleftrightarrow> ordered K l \<and> ordered K r \<and> (\<forall>x\<in>set_tree l. K x < K i) \<and> (\<forall>x\<in>set_tree r. K i < K x)
     \<and> (\<forall>x\<in>set_tree l. \<forall>y\<in>set_tree r. K x < K y)"
  by (auto simp: ordered_def sorted_wrt_append)

lemma ordered_cong:
  assumes "\<And>i. i \<in> set_tree t \<Longrightarrow> K' i = K i"
  shows "ordered K' t = ordered K t"
proof -
  have "map K' (inorder t) = map K (inorder t)" using assms by simp
  then show ?thesis unfolding ordered_def by (simp only:)
qed

fun ins :: "(nat \<Rightarrow> eevdf_key) \<Rightarrow> eevdf_key \<Rightarrow> nat \<Rightarrow> nat tree \<Rightarrow> nat tree" where
  "ins K k s Leaf = Node Leaf s Leaf"
| "ins K k s (Node l i r) = (if k < K i then Node (ins K k s l) i r else Node l i (ins K k s r))"

fun place :: "(nat \<Rightarrow> eevdf_key) \<Rightarrow> eevdf_key \<Rightarrow> nat option \<Rightarrow> nat tree \<Rightarrow> nat option" where
  "place K k pp Leaf = pp"
| "place K k pp (Node l i r) = (if k < K i then place K k (Some i) l else place K k (Some i) r)"

lemma set_ins [simp]: "set_tree (ins K k s t) = insert s (set_tree t)"
  by (induction t) auto

lemma distinct_ins: "distinct (inorder t) \<Longrightarrow> s \<notin> set_tree t \<Longrightarrow> distinct (inorder (ins K k s t))"
  by (induction t) auto

lemma size_ins [simp]: "size (ins K k s t) = Suc (size t)"
  by (induction t) auto

lemma root_of_ins: "root_of (ins K k s t) = (if t = Leaf then Some s else root_of t)"
  by (cases t) auto

lemma place_in: "t \<noteq> Leaf \<Longrightarrow> \<exists>p\<in>set_tree t. place K k pp t = Some p"
proof (induction t arbitrary: pp)
  case (Node l i r)
  then show ?case by (cases "k < K i"; cases l; cases r) auto
qed simp

lemma ordered_ins:
  "ordered K t \<Longrightarrow> k \<notin> K ` set_tree t \<Longrightarrow> s \<notin> set_tree t \<Longrightarrow> K' s = k \<Longrightarrow> (\<And>i. i \<in> set_tree t \<Longrightarrow> K' i = K i) \<Longrightarrow>
     ordered K' (ins K k s t)"
proof (induction t)
  case (Node l i r)
  have K': "ordered K' l" "ordered K' r" "\<forall>x\<in>set_tree l. K' x < K' i" "\<forall>x\<in>set_tree r. K' i < K' x"
    "\<forall>x\<in>set_tree l. \<forall>y\<in>set_tree r. K' x < K' y"
    using Node.prems(1,5) ordered_cong [of l K' K] ordered_cong [of r K' K] by simp_all
  have k: "k \<noteq> K i" "K' i = K i" "k \<notin> K ` set_tree l" "k \<notin> K ` set_tree r" using Node.prems by auto
  show ?case
  proof (cases "k < K i")
    case True
    have "ordered K' (ins K k s l)" using Node.prems k by (intro Node.IH(1)) auto
    moreover have "\<forall>y\<in>set_tree r. k < K' y" using True K'(4) k(2) by (metis less_trans)
    ultimately show ?thesis using True K' k Node.prems(4) by auto
  next
    case False
    then have gt: "K i < k" using k(1) by simp
    have "ordered K' (ins K k s r)" using Node.prems k by (intro Node.IH(2)) auto
    moreover have "\<forall>y\<in>set_tree l. K' y < k" using gt K'(3) k(2) by (metis less_trans)
    ultimately show ?thesis using False gt K' k Node.prems(4) by auto
  qed
qed simp

lemma insert_descend_linked:
  assumes "linked (et_nodes T) pp t" "ordered (key_of (et_nodes T)) t" "size t \<le> fuel"
  shows "insert_descend fuel k pp' (root_of t) T =
    (Done (if k \<in> key_of (et_nodes T) ` set_tree t then None else Some (place (key_of (et_nodes T)) k pp' t)), T)"
  using assms
proof (induction t arbitrary: fuel pp pp')
  case Leaf
  then show ?case by (simp add: ret_def)
next
  case (Node l i r)
  let ?K = "key_of (et_nodes T)"
  obtain f where f: "fuel = Suc f" "size l \<le> f" "size r \<le> f" using Node.prems(3) by (cases fuel) auto
  have L: "insert_descend f k (Some i) (root_of l) T = (Done (if k \<in> ?K ` set_tree l then None else Some (place ?K k (Some i) l)), T)"
    using Node.prems f by (intro Node.IH(1)) auto
  have R: "insert_descend f k (Some i) (root_of r) T = (Done (if k \<in> ?K ` set_tree r then None else Some (place ?K k (Some i) r)), T)"
    using Node.prems f by (intro Node.IH(2)) auto
  have less: "k < ?K i \<Longrightarrow> k \<in> ?K ` set_tree (Node l i r) \<longleftrightarrow> k \<in> ?K ` set_tree l"
    and greater: "?K i < k \<Longrightarrow> k \<in> ?K ` set_tree (Node l i r) \<longleftrightarrow> k \<in> ?K ` set_tree r"
    using Node.prems(2) by (auto dest: less_asym)
  consider "k = ?K i" | "k < ?K i" | "?K i < k" by (rule linorder_cases)
  then show ?case
  proof cases
    case 1
    then show ?thesis using Node.prems f by (simp add: tree_ops ret_def)
  next
    case 2
    then show ?thesis unfolding less [OF 2] using Node.prems L f by (simp add: tree_ops less_imp_neq)
  next
    case 3
    then show ?thesis unfolding greater [OF 3] using Node.prems R f by (simp add: tree_ops less_not_sym less_imp_neq [symmetric])
  qed
qed

definition hung :: "tree_node option list \<Rightarrow> eevdf_key \<Rightarrow> nat \<Rightarrow> nat option \<Rightarrow> tree_node option list \<Rightarrow> bool" where
  "hung ns k s p ns' \<longleftrightarrow> length ns' = length ns \<and> present ns' s
     \<and> tn_parent (nd ns' s) = p \<and> tn_left (nd ns' s) = None \<and> tn_right (nd ns' s) = None \<and> tn_rank (nd ns' s) = 0
     \<and> (\<forall>i. i \<noteq> s \<longrightarrow> Some i \<noteq> p \<longrightarrow> ns' ! i = ns ! i)
     \<and> (\<forall>i. i \<noteq> s \<longrightarrow> Some i = p \<longrightarrow> present ns' i \<and>
          nd ns' i = (if k < key_of ns i then (nd ns i)\<lparr>tn_left := Some s\<rparr> else (nd ns i)\<lparr>tn_right := Some s\<rparr>))"

lemma linked_ins:
  assumes "linked ns pp t" "distinct (inorder t)" "s \<notin> set_tree t" "pp \<notin> Some ` set_tree t"
    "hung ns k s (place (key_of ns) k pp t) ns'"
  shows "linked ns' pp (ins (key_of ns) k s t) \<and> (aug ns t \<longrightarrow> aug_off ns' s (ins (key_of ns) k s t))"
  using assms
proof (induction t arbitrary: pp)
  case Leaf
  then show ?case by (simp add: hung_def)
next
  case (Node l i r)
  let ?K = "key_of ns"
  define c d where "c = (if k < ?K i then l else r)" and "d = (if k < ?K i then r else l)"
  let ?p = "place ?K k (Some i) c"
  have h: "hung ns k s ?p ns'" using Node.prems(5) by (auto simp: c_def)
  have p: "?p = Some i \<and> c = Leaf \<or> (\<exists>x\<in>set_tree c. ?p = Some x)"
    using place_in [of c ?K k "Some i"] by (cases "c = Leaf") auto
  have sets: "i \<notin> set_tree c" "i \<notin> set_tree d" "set_tree c \<inter> set_tree d = {}" "s \<noteq> i" "s \<notin> set_tree c" "s \<notin> set_tree d"
    using Node.prems(2,3) unfolding c_def d_def by (simp_all split: if_split) blast+
  have lk: "linked ns (Some i) c" "linked ns (Some i) d" "distinct (inorder c)"
    using Node.prems(1,2) by (simp_all add: c_def d_def)
  have "Some i \<notin> Some ` set_tree c" using sets(1) by blast
  then have rec: "linked ns' (Some i) (ins ?K k s c) \<and> (aug ns c \<longrightarrow> aug_off ns' s (ins ?K k s c))"
    using Node.IH lk(1,3) sets(5) h unfolding c_def by (cases "k < ?K i") simp_all
  have off: "x \<noteq> s \<and> Some x \<noteq> ?p" if "x \<in> set_tree d" for x
    using p
  proof
    assume "?p = Some i \<and> c = Leaf"
    then show ?thesis using that sets(2,6) by auto
  next
    assume "\<exists>y\<in>set_tree c. ?p = Some y"
    then show ?thesis using that sets(3,6) by auto
  qed
  have other: "linked ns' (Some i) d"
    using h off by (intro linked_frame [OF lk(2)]) (simp_all add: hung_def)
  have aug_other: "aug ns' d" if "aug ns d"
    using h off by (intro aug_frame [OF that]) (simp add: hung_def)
  have here: "present ns i" "tn_parent (nd ns i) = pp" "tn_rank (nd ns i) = 0" "tn_left (nd ns i) = root_of l" "tn_right (nd ns i) = root_of r"
    using Node.prems(1) by simp_all
  have "present ns' i \<and> tn_parent (nd ns' i) = pp \<and> tn_rank (nd ns' i) = 0
      \<and> (if k < ?K i then tn_left (nd ns' i) = root_of (ins ?K k s c) \<and> tn_right (nd ns' i) = root_of d
         else tn_left (nd ns' i) = root_of d \<and> tn_right (nd ns' i) = root_of (ins ?K k s c))"
  proof (cases "c = Leaf")
    case True
    then have "?p = Some i" by simp
    then have "present ns' i" "nd ns' i = (if k < ?K i then (nd ns i)\<lparr>tn_left := Some s\<rparr> else (nd ns i)\<lparr>tn_right := Some s\<rparr>)"
      using h sets(4) by (simp_all add: hung_def)
    then show ?thesis using here True by (auto simp: c_def d_def root_of_ins split: if_splits)
  next
    case False
    then have "Some i \<noteq> ?p" using p sets(1) by auto
    then have "ns' ! i = ns ! i" "length ns' = length ns" using h sets(4) by (simp_all add: hung_def)
    then show ?thesis using here False unfolding c_def d_def
      by (cases "k < ?K i") (simp_all add: root_of_ins present_def)
  qed
  then have "linked ns' pp (ins ?K k s (Node l i r))" using rec other by (simp add: c_def d_def split: if_splits)
  moreover have "aug_off ns' s (ins ?K k s (Node l i r))" if "aug ns (Node l i r)"
    using that rec aug_other sets(6) by (simp add: c_def d_def split: if_splits)
  ultimately show ?case by blast
qed

section \<open>The invariant\<close>

definition tree_inv :: "eevdf_tree \<Rightarrow> nat tree \<Rightarrow> bool" where
  "tree_inv T t \<longleftrightarrow> et_root T = root_of t \<and> linked (et_nodes T) None t \<and> distinct (inorder t)
     \<and> ordered (key_of (et_nodes T)) t \<and> aug (et_nodes T) t \<and> et_len T = size t
     \<and> length (et_free T) = length (et_nodes T) \<and> et_free_len T \<le> length (et_free T)
     \<and> distinct (take (et_free_len T) (et_free T)) \<and> set (take (et_free_len T) (et_free T)) = {i. i < length (et_nodes T) \<and> i \<notin> set_tree t}
     \<and> (\<forall>i < length (et_nodes T). i \<notin> set_tree t \<longrightarrow> et_nodes T ! i = None)"

definition contents :: "eevdf_tree \<Rightarrow> nat tree \<Rightarrow> (eevdf_key \<times> u128) set" where
  "contents T t = (\<lambda>i. (key_of (et_nodes T) i, tn_finish (nd (et_nodes T) i))) ` set_tree t"

lemma tree_new_inv: "tree_inv (tree_new n) Leaf"
  by (auto simp: tree_inv_def tree_new_def)

lemma same_but_min_keys:
  assumes "same_but_min S ns ns'" "linked ns p t" "i \<in> set_tree t"
  shows "key_of ns' i = key_of ns i" "tn_finish (nd ns' i) = tn_finish (nd ns i)"
  using same_but_minD(4) [OF assms(1) linked_present [OF assms(2,3)]] by auto

lemma rebalance_insert_done:
  assumes "linked (et_nodes T) None t" "i \<in> set_tree t" "size t \<le> fuel"
  shows "rebalance_after_insert fuel i T = (Done (), T)"
proof -
  obtain k where k: "k < size t"
    "\<forall>fuel. rebalance_after_insert (k + Suc fuel) i T = rebalance_after_insert (Suc fuel) (the (root_of t)) T"
    using rebalance_insert_up [OF assms(1,2)] by blast
  obtain l r j where t: "t = Node l j r" using assms(2) by (cases t) auto
  have "rebalance_after_insert (Suc f) j T = (Done (), T)" for f
    using assms(1) unfolding t by (simp add: tree_ops ret_def)
  moreover obtain f where "fuel = k + Suc f" using k(1) assms(3) less_imp_Suc_add [of k fuel] by auto
  ultimately show ?thesis using k(2) t by simp
qed

lemma reserve_slot_inv:
  assumes inv: "tree_inv T t" and room: "et_free_len T \<noteq> 0"
  obtains slot where "slot < length (et_nodes T)" "slot \<notin> set_tree t" "et_nodes T ! slot = None"
    "et_free T ! (et_free_len T - 1) = slot"
    "take (et_free_len T) (et_free T) = take (et_free_len T - 1) (et_free T) @ [slot]"
    "reserve_slot key finish T = (Done slot, T\<lparr>et_free_len := et_free_len T - 1,
       et_nodes := (et_nodes T)[slot := Some (node_new key finish)], et_len := et_len T + 1\<rparr>)"
proof -
  define slot where "slot = et_free T ! (et_free_len T - 1)"
  have len: "et_free_len T - 1 < length (et_free T)" using inv room by (auto simp: tree_inv_def)
  have tk: "take (et_free_len T) (et_free T) = take (et_free_len T - 1) (et_free T) @ [slot]"
    using take_Suc_conv_app_nth [OF len] room by (simp add: slot_def)
  note i = inv [unfolded tree_inv_def]
  have "slot \<in> set (take (et_free_len T) (et_free T))" unfolding tk by simp
  also have "\<dots> = {i. i < length (et_nodes T) \<and> i \<notin> set_tree t}" using i by blast
  finally have slot: "slot < length (et_nodes T)" "slot \<notin> set_tree t" by simp_all
  have none: "et_nodes T ! slot = None" using i slot by blast
  have "et_free_len T \<le> length (et_free T)" using i by blast
  then have "reserve_slot key finish T = (Done slot, T\<lparr>et_free_len := et_free_len T - 1,
      et_nodes := (et_nodes T)[slot := Some (node_new key finish)], et_len := et_len T + 1\<rparr>)"
    using room slot(1) unfolding reserve_slot_def Let_def slot_def [symmetric] by simp
  from that [OF slot none slot_def [symmetric] tk this] show thesis .
qed

lemma link_slot_hung:
  assumes s: "slot < length (et_nodes T)" "et_nodes T ! slot = Some (node_new key finish)"
    and p: "\<forall>q. p = Some q \<longrightarrow> q \<noteq> slot \<and> present (et_nodes T) q"
  obtains ns' where "link_slot slot key p T = (Done (), T\<lparr>et_nodes := ns', et_root := (if p = None then Some slot else et_root T)\<rparr>)"
    "hung (et_nodes T) key slot p ns'" "key_of ns' slot = key" "tn_finish (nd ns' slot) = finish"
    "\<forall>q. q \<noteq> slot \<longrightarrow> key_of ns' q = key_of (et_nodes T) q \<and> tn_finish (nd ns' q) = tn_finish (nd (et_nodes T) q)"
proof (cases p)
  case None
  have "present (et_nodes T) slot" using s by (simp add: present_def)
  then show thesis using that [of "(et_nodes T)[slot := Some (node_new key finish)]"] s None
    by (simp add: link_slot_def tree_ops set_root_def hung_def present_def node_new_def)
next
  case (Some q)
  let ?n = "(node_new key finish)\<lparr>tn_parent := Some q\<rparr>"
  let ?q = "(if key < key_of (et_nodes T) q then (nd (et_nodes T) q)\<lparr>tn_left := Some slot\<rparr> else (nd (et_nodes T) q)\<lparr>tn_right := Some slot\<rparr>)"
  let ?ns = "(et_nodes T)[slot := Some ?n, q := Some ?q]"
  have q: "q \<noteq> slot" "present (et_nodes T) q" "present (et_nodes T) slot" using p s Some by (auto simp: present_def)
  have "present ((et_nodes T)[slot := Some ?n]) q" "nd ((et_nodes T)[slot := Some ?n]) q = nd (et_nodes T) q"
    using q by (simp_all add: present_def)
  then have "link_slot slot key p T = (Done (), T\<lparr>et_nodes := ?ns, et_root := (if p = None then Some slot else et_root T)\<rparr>)"
    using q s Some by (simp add: link_slot_def tree_ops)
  moreover have "hung (et_nodes T) key slot p ?ns"
    using q s Some by (auto simp: hung_def present_def node_new_def nth_list_update)
  moreover have "key_of ?ns slot = key" "tn_finish (nd ?ns slot) = finish" using q s by (simp_all add: node_new_def)
  moreover have "\<forall>x. x \<noteq> slot \<longrightarrow> key_of ?ns x = key_of (et_nodes T) x \<and> tn_finish (nd ?ns x) = tn_finish (nd (et_nodes T) x)"
    using q by (auto simp: nth_list_update present_def)
  ultimately show thesis using that by blast
qed

lemma tree_invD:
  assumes "tree_inv T t"
  shows "et_root T = root_of t" "linked (et_nodes T) None t" "distinct (inorder t)" "ordered (key_of (et_nodes T)) t"
    "aug (et_nodes T) t" "et_len T = size t" "length (et_free T) = length (et_nodes T)" "et_free_len T \<le> length (et_free T)"
    "distinct (take (et_free_len T) (et_free T))"
    "set (take (et_free_len T) (et_free T)) = {i. i < length (et_nodes T) \<and> i \<notin> set_tree t}"
    "\<And>i. i < length (et_nodes T) \<Longrightarrow> i \<notin> set_tree t \<Longrightarrow> et_nodes T ! i = None" "size t \<le> length (et_nodes T)"
  using assms size_le_slots [of "et_nodes T" None t] unfolding tree_inv_def by blast+

lemma key_present_iff: "key \<in> fst ` contents T t \<longleftrightarrow> key \<in> key_of (et_nodes T) ` set_tree t"
  by (simp add: contents_def image_image)

text \<open>The reserved but not yet linked slot leaves the tree as it was.\<close>

lemma reserved_same:
  fixes n :: tree_node
  assumes inv: "tree_inv T t" and slot: "slot \<notin> set_tree t"
  defines "ns \<equiv> (et_nodes T)[slot := Some n]"
  shows "linked ns None t" "aug ns t" "ordered (key_of ns) t" "i \<in> set_tree t \<Longrightarrow> ns ! i = et_nodes T ! i"
    "key_of ns ` set_tree t = key_of (et_nodes T) ` set_tree t"
proof -
  have same: "ns ! i = et_nodes T ! i" if "i \<in> set_tree t" for i
  proof -
    have "i \<noteq> slot" using that slot by blast
    then show ?thesis by (simp add: ns_def)
  qed
  show "linked ns None t" by (rule linked_frame [OF tree_invD(2) [OF inv]]) (simp_all add: same, simp add: ns_def)
  show "aug ns t" by (rule aug_frame [OF tree_invD(5) [OF inv]]) (rule same)
  show "ordered (key_of ns) t" using tree_invD(4) [OF inv] ordered_cong [of t "key_of ns" "key_of (et_nodes T)"] same by simp
  show "i \<in> set_tree t \<Longrightarrow> ns ! i = et_nodes T ! i" by (rule same)
  show "key_of ns ` set_tree t = key_of (et_nodes T) ` set_tree t" using same by (intro image_cong) auto
qed

lemma insert_present:
  assumes inv: "tree_inv T t" and room: "et_free_len T \<noteq> 0" and key: "key \<in> fst ` contents T t"
  shows "tree_insert key finish T = (Failed KeyNotFound, T)"
proof -
  obtain slot where slot: "slot < length (et_nodes T)" "slot \<notin> set_tree t" "et_nodes T ! slot = None"
    "et_free T ! (et_free_len T - 1) = slot"
    and res: "reserve_slot key finish T = (Done slot, T\<lparr>et_free_len := et_free_len T - 1,
       et_nodes := (et_nodes T)[slot := Some (node_new key finish)], et_len := et_len T + 1\<rparr>)" (is "_ = (_, ?T)")
    by (rule reserve_slot_inv [OF inv room])
  note same = reserved_same [OF inv slot(2), where n = "node_new key finish"]
  have desc: "insert_descend (length (et_nodes T)) key None (et_root T) ?T = (Done None, ?T)"
    using insert_descend_linked [of ?T None t "length (et_nodes T)" key None] same(1,3,5) key tree_invD(1,12) [OF inv]
    by (simp add: key_present_iff)
  have "(et_nodes T)[slot := None] = et_nodes T" "(et_free T)[et_free_len T - Suc 0 := slot] = et_free T"
    using slot(3,4) by (metis list_update_id, metis list_update_id One_nat_def)
  then have rel: "release_slot slot ?T = (Done (), T)"
    using room slot(1) tree_invD(7,8) [OF inv] by (simp add: release_slot_def)
  show ?thesis using res desc rel by (simp add: tree_insert_def and_then_def fail_def)
qed

lemma insert_absent:
  assumes inv: "tree_inv T t" and room: "et_free_len T \<noteq> 0" and key: "key \<notin> fst ` contents T t"
  shows "\<exists>T' t'. tree_insert key finish T = (Done (), T') \<and> tree_inv T' t' \<and> contents T' t' = insert (key, finish) (contents T t)
    \<and> length (et_nodes T') = length (et_nodes T)"
proof -
  obtain slot where slot: "slot < length (et_nodes T)" "slot \<notin> set_tree t" "et_nodes T ! slot = None"
    and tk: "take (et_free_len T) (et_free T) = take (et_free_len T - 1) (et_free T) @ [slot]"
    and res: "reserve_slot key finish T = (Done slot, T\<lparr>et_free_len := et_free_len T - 1,
       et_nodes := (et_nodes T)[slot := Some (node_new key finish)], et_len := et_len T + 1\<rparr>)" (is "_ = (_, ?T)")
    by (rule reserve_slot_inv [OF inv room])
  note d = tree_invD [OF inv] and same = reserved_same [OF inv slot(2), where n = "node_new key finish"]
  let ?K = "key_of (et_nodes ?T)" and ?t = "ins (key_of (et_nodes ?T)) key slot t" and ?N = "length (et_nodes T)"
  let ?p = "place ?K key None t"
  have desc: "insert_descend ?N key None (et_root T) ?T = (Done (Some ?p), ?T)"
    using insert_descend_linked [of ?T None t ?N key None] same(1,3,5) key d(1,12) by (simp add: key_present_iff)
  have p: "q \<in> set_tree t" if "?p = Some q" for q using place_in [of t ?K key None] that by (cases "t = Leaf") auto
  have p_none: "?p = None \<longleftrightarrow> t = Leaf" using place_in [of t ?K key None] by (cases "t = Leaf") auto
  have pq: "\<forall>q. ?p = Some q \<longrightarrow> q \<noteq> slot \<and> present (et_nodes ?T) q"
    using p slot(2) linked_present [OF same(1)] by auto
  have "et_nodes ?T ! slot = Some (node_new key finish)" "slot < length (et_nodes ?T)" using slot(1) by simp_all
  from link_slot_hung [OF this(2,1) pq] obtain ns2 where
    link: "link_slot slot key ?p ?T = (Done (), ?T\<lparr>et_nodes := ns2, et_root := (if ?p = None then Some slot else et_root ?T)\<rparr>)" (is "_ = (_, ?T2)")
    and hung: "hung (et_nodes ?T) key slot ?p ns2" and s2: "key_of ns2 slot = key" "tn_finish (nd ns2 slot) = finish"
    and q2: "\<forall>q. q \<noteq> slot \<longrightarrow> key_of ns2 q = ?K q \<and> tn_finish (nd ns2 q) = tn_finish (nd (et_nodes ?T) q)" by blast
  have lk: "linked ns2 None ?t" "aug_off ns2 slot ?t"
    using linked_ins [OF _ d(3) slot(2) _ hung] same(1,2) by auto
  have dist: "distinct (inorder ?t)" by (rule distinct_ins [OF d(3) slot(2)])
  have len2: "length ns2 = ?N" using hung by (simp add: hung_def)
  have size2: "size ?t \<le> ?N" using size_le_slots [OF lk(1) dist] len2 by simp
  have reb: "rebalance_after_insert ?N slot ?T2 = (Done (), ?T2)" using rebalance_insert_done [of ?T2 ?t slot ?N] lk(1) size2 by simp
  obtain ns3 where ref: "refresh_ancestors ?N (Some slot) ?T2 = (Done (), ?T2\<lparr>et_nodes := ns3\<rparr>)"
    and n3: "same_but_min (set_tree ?t) ns2 ns3" "aug ns3 ?t"
    using refresh_all [of ?T2 ?t slot ?N] lk dist size2 by auto
  let ?T3 = "?T2\<lparr>et_nodes := ns3\<rparr>"
  have run: "tree_insert key finish T = (Done (), ?T3)"
    using res desc link reb ref by (simp add: tree_insert_def and_then_def)
  have k3: "key_of ns3 i = (if i = slot then key else key_of (et_nodes T) i)
      \<and> tn_finish (nd ns3 i) = (if i = slot then finish else tn_finish (nd (et_nodes T) i))" if "i \<in> insert slot (set_tree t)" for i
    using same_but_min_keys [OF n3(1) lk(1), of i] that s2 q2 same(4) [of i] by auto
  have "ordered (key_of ns3) ?t"
    using k3 same(3,4,5) key slot(2) by (intro ordered_ins) (auto simp: key_present_iff)
  moreover have "linked ns3 None ?t" by (rule same_but_min_linked [OF n3(1) lk(1)])
  moreover have "ns3 ! i = None" if "i < length ns3" "i \<notin> set_tree ?t" for i
    using that same_but_minD(1,2) [OF n3(1)] hung p d(11) len2 by (auto simp: hung_def)
  moreover have "distinct (take (et_free_len T - 1) (et_free T))"
    "set (take (et_free_len T - 1) (et_free T)) = {i. i < ?N \<and> i \<notin> set_tree ?t}"
    using d(9,10) unfolding tk by auto
  moreover have "length ns3 = ?N" using same_but_minD(1) [OF n3(1)] len2 by simp
  ultimately have "tree_inv ?T3 ?t"
    using d(1,6,7,8) dist n3(2) p_none unfolding tree_inv_def by (auto simp: root_of_ins)
  moreover have "(\<lambda>i. (key_of ns3 i, tn_finish (nd ns3 i))) ` set_tree t = contents T t"
    unfolding contents_def
  proof (rule image_cong)
    fix i assume i: "i \<in> set_tree t"
    then have "i \<noteq> slot" using slot(2) by blast
    then show "(key_of ns3 i, tn_finish (nd ns3 i)) = (key_of (et_nodes T) i, tn_finish (nd (et_nodes T) i))"
      using k3 [of i] i by simp
  qed simp
  then have "contents ?T3 ?t = insert (key, finish) (contents T t)" using k3 [of slot] by (simp add: contents_def)
  ultimately show ?thesis using run \<open>length ns3 = ?N\<close> by auto
qed

section \<open>Queries\<close>

lemma walk_inorder_linked:
  "linked ns p t \<Longrightarrow> size t < fuel \<Longrightarrow> walk_inorder fuel ns (root_of t) = map (nd ns) (inorder t)"
proof (induction t arbitrary: p fuel)
  case Leaf
  then show ?case by (cases fuel) simp_all
next
  case (Node l i r)
  then obtain f where f: "fuel = Suc f" "size l < f" "size r < f" by (cases fuel) auto
  have "present ns i" using Node.prems(1) by simp
  then obtain n where "ns ! i = Some n" "i < length ns" by (auto simp: present_def)
  moreover have "walk_inorder f ns (root_of l) = map (nd ns) (inorder l)" "walk_inorder f ns (root_of r) = map (nd ns) (inorder r)"
    using Node.IH(1) [of "Some i" f] Node.IH(2) [of "Some i" f] Node.prems(1) f by simp_all
  ultimately show ?case using Node.prems(1) f(1) by simp
qed

lemma find_key_from_linked:
  "linked ns p (Node l i r) \<Longrightarrow> ordered (key_of ns) (Node l i r) \<Longrightarrow> size (Node l i r) \<le> fuel \<Longrightarrow>
     (case find_key_from fuel ns key i of
        None \<Rightarrow> key \<notin> key_of ns ` set_tree (Node l i r)
      | Some x \<Rightarrow> x \<in> set_tree (Node l i r) \<and> key_of ns x = key)"
proof (induction "Node l i r" arbitrary: l i r p fuel)
  case (Node l i r)
  obtain f where f: "fuel = Suc f" using Node.prems(3) by (cases fuel) auto
  obtain n where here: "i < length ns" "ns ! i = Some n" using Node.prems(1) by (auto simp: present_def)
  have ord: "\<forall>x\<in>set_tree l. key_of ns x < key_of ns i" "\<forall>x\<in>set_tree r. key_of ns i < key_of ns x" using Node.prems(2) by simp_all
  consider "key = key_of ns i" | "key < key_of ns i" | "key_of ns i < key" by (rule linorder_cases)
  then show ?case
  proof cases
    case 1
    then show ?thesis using f here by simp
  next
    case 2
    have step: "find_key_from fuel ns key i = Option.bind (root_of l) (find_key_from f ns key)"
      using 2 f here Node.prems(1) by (simp add: less_imp_neq)
    have out: "key \<in> key_of ns ` set_tree (Node l i r) \<longleftrightarrow> key \<in> key_of ns ` set_tree l" using 2 ord by (auto dest: less_asym)
    show ?thesis
    proof (cases l)
      case Leaf
      then show ?thesis unfolding step out by simp
    next
      case (Node l1 j l2)
      then show ?thesis unfolding step out using Node.hyps(1) [OF Node, of "Some i" f] Node.prems f by (auto split: option.splits)
    qed
  next
    case 3
    have step: "find_key_from fuel ns key i = Option.bind (root_of r) (find_key_from f ns key)"
      using 3 f here Node.prems(1) by (simp add: less_imp_neq [symmetric] less_not_sym)
    have out: "key \<in> key_of ns ` set_tree (Node l i r) \<longleftrightarrow> key \<in> key_of ns ` set_tree r" using 3 ord by (auto dest: less_asym)
    show ?thesis
    proof (cases r)
      case Leaf
      then show ?thesis unfolding step out by simp
    next
      case (Node r1 j r2)
      then show ?thesis unfolding step out using Node.hyps(2) [OF Node, of "Some i" f] Node.prems f by (auto split: option.splits)
    qed
  qed
qed

lemma contains_iff:
  assumes "tree_inv T t"
  shows "tree_contains T key \<longleftrightarrow> key \<in> fst ` contents T t"
proof (cases t)
  case Leaf
  then show ?thesis using tree_invD(1) [OF assms] by (simp add: tree_contains_def find_key_def contents_def)
next
  case (Node l i r)
  then show ?thesis using tree_invD(1,2,4,12) [OF assms] find_key_from_linked [of "et_nodes T" None l i r "length (et_nodes T)" key]
    unfolding key_present_iff by (auto simp: tree_contains_def find_key_def split: option.splits)
qed

lemma collect_sorted_eq:
  assumes "tree_inv T t"
  shows "sorted_wrt (<) (collect_sorted T)" "set (collect_sorted T) = fst ` contents T t"
proof -
  note d = tree_invD [OF assms]
  have "collect_sorted T = map (key_of (et_nodes T)) (inorder t)"
    using walk_inorder_linked [OF d(2), of "Suc (length (et_nodes T))"] d(1,12) by (simp add: collect_sorted_walk)
  then show "sorted_wrt (<) (collect_sorted T)" "set (collect_sorted T) = fst ` contents T t"
    using d(4) by (simp_all add: ordered_def contents_def image_image)
qed

text \<open>The fold keeps the least pair of finish and key.\<close>

lemma foldl_better:
  "foldl better best ns = None \<longleftrightarrow> best = None \<and> ns = []"
  "foldl better best ns = Some (f, k) \<Longrightarrow>
     (best = Some (f, k) \<or> (f, k) \<in> (\<lambda>n. (tn_finish n, tn_key n)) ` set ns)
     \<and> (\<forall>(f', k') \<in> set_option best \<union> (\<lambda>n. (tn_finish n, tn_key n)) ` set ns. f < f' \<or> f = f' \<and> k \<le> k')"
proof -
  show "foldl better best ns = None \<longleftrightarrow> best = None \<and> ns = []"
    by (induction ns arbitrary: best) (auto simp: keep_best_def Let_def split: option.splits if_splits)
  show "foldl better best ns = Some (f, k) \<Longrightarrow>
     (best = Some (f, k) \<or> (f, k) \<in> (\<lambda>n. (tn_finish n, tn_key n)) ` set ns)
     \<and> (\<forall>(f', k') \<in> set_option best \<union> (\<lambda>n. (tn_finish n, tn_key n)) ` set ns. f < f' \<or> f = f' \<and> k \<le> k')"
  proof (induction ns arbitrary: best)
    case (Cons n ns)
    have b: "better best n \<in> {best, Some (tn_finish n, tn_key n)}"
      "\<forall>(f', k') \<in> insert (tn_finish n, tn_key n) (set_option best).
         \<forall>(f0, k0) \<in> set_option (better best n). f0 < f' \<or> f0 = f' \<and> k0 \<le> k'"
      by (auto simp: keep_best_def Let_def not_less split: option.splits if_splits)
    have "foldl better (better best n) ns = Some (f, k)" using Cons.prems by simp
    note IH = Cons.IH [OF this]
    obtain f0 k0 where b0: "better best n = Some (f0, k0)"
      by (cases "better best n") (auto simp: keep_best_def Let_def split: option.splits if_splits)
    show ?case using IH b unfolding b0 by fastforce
  qed simp
qed

lemma pick_eligible_spec:
  assumes "tree_inv T t"
  shows "case pick_eligible T now of
      None \<Rightarrow> (\<forall>(k, f)\<in>contents T t. now < virtual_start k)
    | Some k \<Rightarrow> \<exists>f. (k, f) \<in> contents T t \<and> virtual_start k \<le> now
        \<and> (\<forall>(k', f')\<in>contents T t. virtual_start k' \<le> now \<longrightarrow> f < f' \<or> f = f' \<and> k \<le> k')"
proof -
  note d = tree_invD [OF assms]
  define es where "es = filter (\<lambda>n. virtual_start (tn_key n) \<le> now) (map (nd (et_nodes T)) (inorder t))"
  have pick: "pick_eligible T now = map_option snd (foldl better None es)"
    using walk_inorder_linked [OF d(2), of "Suc (length (et_nodes T))"] d(1,12) by (simp add: pick_eligible_walk es_def)
  have es: "(\<lambda>n. (tn_key n, tn_finish n)) ` set es = {(k, f). (k, f) \<in> contents T t \<and> virtual_start k \<le> now}"
    by (auto simp: es_def contents_def)
  show ?thesis
  proof (cases "foldl better None es")
    case None
    then have "set es = {}" by (simp add: foldl_better(1))
    then have "{(k, f). (k, f) \<in> contents T t \<and> virtual_start k \<le> now} = {}" unfolding es [symmetric] by simp
    then show ?thesis using None pick by (auto simp: not_le [symmetric])
  next
    case (Some b)
    obtain f k where b: "b = (f, k)" by (cases b)
    note best = foldl_better(2) [OF Some [unfolded b]]
    have "(k, f) \<in> (\<lambda>n. (tn_key n, tn_finish n)) ` set es" using best by auto
    moreover have "f < f' \<or> f = f' \<and> k \<le> k'" if "(k', f') \<in> (\<lambda>n. (tn_key n, tn_finish n)) ` set es" for k' f'
      using best that by auto
    ultimately show ?thesis using Some b pick unfolding es by auto
  qed
qed

end
