(* ===== verification/Eevdf_Tree_Erase.thy ===== *)
theory Eevdf_Tree_Erase
  imports Eevdf_Tree_Insert
begin

text \<open>
  Removal from the index tree of \<^verbatim>\<open>huesos-sched/src/eevdf.rs\<close>: taking a slot with at most one child
  out of the links, replacing an inner node by its successor, and that both keep the invariant and
  drop exactly the entry of the erased slot.
\<close>

section \<open>Removing a node with at most one child\<close>

fun get :: "nat \<Rightarrow> nat tree \<Rightarrow> nat tree" where
  "get i Leaf = Leaf"
| "get i (Node l j r) = (if i = j then Node l j r else if i \<in> set_tree l then get i l else get i r)"

fun up :: "nat option \<Rightarrow> nat \<Rightarrow> nat tree \<Rightarrow> nat option" where
  "up pp i Leaf = pp"
| "up pp i (Node l j r) = (if i = j then pp else if i \<in> set_tree l then up (Some j) i l else up (Some j) i r)"

fun unlink :: "nat \<Rightarrow> nat tree \<Rightarrow> nat tree" where
  "unlink i Leaf = Leaf"
| "unlink i (Node l j r) =
     (if i = j then (if l = Leaf then r else l)
      else if i \<in> set_tree l then Node (unlink i l) j r else Node l j (unlink i r))"

definition only_child :: "nat tree \<Rightarrow> nat tree" where
  "only_child t = (case t of Leaf \<Rightarrow> Leaf | Node l j r \<Rightarrow> if l = Leaf then r else l)"

definition single :: "nat tree \<Rightarrow> bool" where
  "single t \<longleftrightarrow> (case t of Leaf \<Rightarrow> True | Node l j r \<Rightarrow> l = Leaf \<or> r = Leaf)"

lemma get_Node: "i \<in> set_tree t \<Longrightarrow> \<exists>l r. get i t = Node l i r"
  by (induction t) auto

lemma set_get: "x \<in> set_tree (get i t) \<Longrightarrow> x \<in> set_tree t"
  by (induction t) (auto split: if_splits)

lemma linked_get: "linked ns pp t \<Longrightarrow> i \<in> set_tree t \<Longrightarrow> linked ns (up pp i t) (get i t)"
  by (induction t arbitrary: pp) auto

lemma up_in: "i \<in> set_tree t \<Longrightarrow> (if root_of t = Some i then up pp i t = pp else \<exists>p\<in>set_tree t. p \<noteq> i \<and> up pp i t = Some p)"
proof (induction t arbitrary: pp)
  case (Node l j r)
  show ?case
  proof (cases "i = j")
    case False
    define c where "c = (if i \<in> set_tree l then l else r)"
    have c: "i \<in> set_tree c" "set_tree c \<subseteq> set_tree (Node l j r)" using Node.prems False by (auto simp: c_def)
    have "if root_of c = Some i then up (Some j) i c = Some j else \<exists>p\<in>set_tree c. p \<noteq> i \<and> up (Some j) i c = Some p"
      using Node.IH c(1) unfolding c_def by (cases "i \<in> set_tree l") simp_all
    moreover have "up pp i (Node l j r) = up (Some j) i c" using False by (simp add: c_def)
    ultimately show ?thesis using False c(2) by (auto split: if_splits)
  qed simp
qed simp

lemma inorder_unlink:
  "distinct (inorder t) \<Longrightarrow> i \<in> set_tree t \<Longrightarrow> single (get i t) \<Longrightarrow> inorder (unlink i t) = filter (\<lambda>x. x \<noteq> i) (inorder t)"
proof (induction t)
  case (Node l j r)
  have keep: "i \<notin> set_tree u \<Longrightarrow> filter (\<lambda>x. x \<noteq> i) (inorder u) = inorder u" for u
    by (auto simp: filter_id_conv)
  consider "i = j" | "i \<noteq> j" "i \<in> set_tree l" | "i \<noteq> j" "i \<notin> set_tree l" "i \<in> set_tree r" using Node.prems(2) by auto
  then show ?case
  proof cases
    case 1
    then show ?thesis using Node.prems keep [of l] keep [of r] by (auto simp: single_def)
  next
    case 2
    then have "i \<notin> set_tree r" using Node.prems(1) by auto
    then show ?thesis using Node 2 keep [of r] by simp
  next
    case 3
    then show ?thesis using Node keep [of l] by simp
  qed
qed simp

lemma set_unlink:
  assumes "distinct (inorder t)" "i \<in> set_tree t" "single (get i t)"
  shows "set_tree (unlink i t) = set_tree t - {i}"
proof -
  have "set (inorder (unlink i t)) = set (inorder t) - {i}" unfolding inorder_unlink [OF assms] by auto
  then show ?thesis by simp
qed

lemma linked_reparent:
  assumes "linked ns q t" "length ns' = length ns" "distinct (inorder t)"
    and "\<And>x. x \<in> set_tree t \<Longrightarrow> root_of t \<noteq> Some x \<Longrightarrow> ns' ! x = ns ! x"
    and "\<And>x. root_of t = Some x \<Longrightarrow> present ns' x \<and> nd ns' x = (nd ns x)\<lparr>tn_parent := p\<rparr>"
  shows "linked ns' p t" "aug ns t \<Longrightarrow> aug ns' t"
proof -
  have "linked ns' p t \<and> (aug ns t \<longrightarrow> aug ns' t)"
  proof (cases t)
    case (Node l j r)
    have j: "present ns' j" "nd ns' j = (nd ns j)\<lparr>tn_parent := p\<rparr>" using assms(5) Node by auto
    have same: "ns' ! x = ns ! x" if "x \<in> set_tree l \<union> set_tree r" for x
      using assms(3,4) that Node by auto
    have "linked ns' (Some j) l" "linked ns' (Some j) r"
      using assms(1,2) same Node by (auto intro!: linked_frame [of ns])
    moreover have "aug ns' l" if "aug ns l" using same by (intro aug_frame [OF that]) simp
    moreover have "aug ns' r" if "aug ns r" using same by (intro aug_frame [OF that]) simp
    moreover have "min_of ns' l = min_of ns l" "min_of ns' r = min_of ns r" using same by (auto intro!: min_of_frame)
    ultimately show ?thesis using assms(1) Node j by (simp add: node_min_def)
  qed simp
  then show "linked ns' p t" "aug ns t \<Longrightarrow> aug ns' t" by blast+
qed

definition cut :: "tree_node option list \<Rightarrow> nat \<Rightarrow> nat option \<Rightarrow> nat option \<Rightarrow> tree_node option list \<Rightarrow> bool" where
  "cut ns i p c ns' \<longleftrightarrow> length ns' = length ns
     \<and> (\<forall>x. x \<noteq> i \<longrightarrow> Some x \<noteq> p \<longrightarrow> Some x \<noteq> c \<longrightarrow> ns' ! x = ns ! x)
     \<and> (\<forall>x. Some x = p \<longrightarrow> present ns' x \<and>
          nd ns' x = (if tn_left (nd ns x) = Some i then (nd ns x)\<lparr>tn_left := c\<rparr> else (nd ns x)\<lparr>tn_right := c\<rparr>))
     \<and> (\<forall>x. Some x = c \<longrightarrow> present ns' x \<and> nd ns' x = (nd ns x)\<lparr>tn_parent := p\<rparr>)"

lemma only_child_get: "i \<in> set_tree t \<Longrightarrow> root_of (only_child (get i t)) = Some x \<Longrightarrow> x \<in> set_tree t"
proof -
  assume "i \<in> set_tree t" "root_of (only_child (get i t)) = Some x"
  then have "x \<in> set_tree (get i t)" using get_Node [of i t]
    by (auto simp: only_child_def root_of_def split: tree.splits if_splits)
  then show ?thesis by (rule set_get)
qed

lemma linked_unlink:
  assumes "linked ns pp t" "distinct (inorder t)" "i \<in> set_tree t" "single (get i t)" "pp \<notin> Some ` set_tree t"
    "cut ns i (up pp i t) (root_of (only_child (get i t))) ns'"
  shows "linked ns' pp (unlink i t)
    \<and> root_of (unlink i t) = (if root_of t = Some i then root_of (only_child (get i t)) else root_of t)
    \<and> (aug_off ns i t \<longrightarrow> (if root_of t = Some i then aug ns' (unlink i t) else aug_off ns' (the (up pp i t)) (unlink i t)))"
  using assms
proof (induction t arbitrary: pp)
  case (Node l j r)
  show ?case
  proof (cases "i = j")
    case True
    define u where "u = (if l = Leaf then r else l)"
    have h: "cut ns i pp (root_of u) ns'" using Node.prems(6) True by (simp add: u_def only_child_def)
    have u: "linked ns (Some j) u" "distinct (inorder u)" "i \<notin> set_tree u" "set_tree u \<subseteq> set_tree (Node l j r)"
      using Node.prems(1,2) True by (auto simp: u_def)
    have "pp \<noteq> Some x" if "x \<in> set_tree u" for x using that u(4) Node.prems(5) by blast
    then have off: "ns' ! x = ns ! x" if "x \<in> set_tree u" "root_of u \<noteq> Some x" for x
      using h that u(3) unfolding cut_def by metis
    have top: "present ns' x \<and> nd ns' x = (nd ns x)\<lparr>tn_parent := pp\<rparr>" if "root_of u = Some x" for x
      using h that by (simp add: cut_def)
    have "length ns' = length ns" using h by (simp add: cut_def)
    note rp = linked_reparent [OF u(1) this u(2) off top]
    have "aug ns' u" if "aug_off ns i (Node l j r)"
    proof -
      have "i \<notin> set_tree l" "i \<notin> set_tree r" using Node.prems(2) True by auto
      then show ?thesis using that rp(2) by (simp add: u_def)
    qed
    then show ?thesis using True rp(1) by (simp add: u_def only_child_def)
  next
    case False
    define c d where "c = (if i \<in> set_tree l then l else r)" and "d = (if i \<in> set_tree l then r else l)"
    let ?p = "up (Some j) i c" and ?k = "root_of (only_child (get i c))"
    have ic: "i \<in> set_tree c" using Node.prems(3) False by (auto simp: c_def)
    have sets: "j \<notin> set_tree c" "j \<notin> set_tree d" "set_tree c \<inter> set_tree d = {}" "distinct (inorder c)"
      using Node.prems(2) unfolding c_def d_def by (simp_all split: if_split) blast+
    have lk: "linked ns (Some j) c" "linked ns (Some j) d" using Node.prems(1) by (simp_all add: c_def d_def)
    have gu: "get i (Node l j r) = get i c" "up pp i (Node l j r) = ?p" using False by (simp_all add: c_def)
    have h: "cut ns i ?p ?k ns'" using Node.prems(6) unfolding gu .
    have "Some j \<notin> Some ` set_tree c" using sets(1) by blast
    then have rec: "linked ns' (Some j) (unlink i c)
        \<and> root_of (unlink i c) = (if root_of c = Some i then ?k else root_of c)
        \<and> (aug_off ns i c \<longrightarrow> (if root_of c = Some i then aug ns' (unlink i c) else aug_off ns' (the ?p) (unlink i c)))"
      using Node.IH lk(1) sets(4) ic Node.prems(4) h unfolding gu(1) c_def by (cases "i \<in> set_tree l") simp_all
    have p: "if root_of c = Some i then ?p = Some j else \<exists>x\<in>set_tree c. x \<noteq> i \<and> ?p = Some x" by (rule up_in [OF ic])
    have k: "x \<in> set_tree c" if "?k = Some x" for x by (rule only_child_get [OF ic that])
    have off: "ns' ! x = ns ! x" if "x \<in> set_tree d" for x
    proof -
      have "x \<notin> set_tree c" using that sets(3) by blast
      moreover have "Some x \<noteq> ?p" using calculation p that sets(2) by (auto split: if_splits)
      ultimately have "x \<noteq> i" "Some x \<noteq> ?k" "Some x \<noteq> ?p" using ic k [of x] by metis+
      then show ?thesis using h by (simp add: cut_def)
    qed
    have len: "length ns' = length ns" using h by (simp add: cut_def)
    have other: "linked ns' (Some j) d" "aug ns d \<Longrightarrow> aug ns' d"
      using linked_frame [OF lk(2) len off] aug_frame [of ns d ns'] off by blast+
    have here: "present ns j" "tn_parent (nd ns j) = pp" "tn_rank (nd ns j) = 0" "tn_left (nd ns j) = root_of l" "tn_right (nd ns j) = root_of r"
      using Node.prems(1) by simp_all
    have jk: "?k \<noteq> Some j" using k sets(1) by auto
    have left: "tn_left (nd ns j) = Some i \<longleftrightarrow> root_of l = Some i" using here by simp
    have notl: "root_of l \<noteq> Some i" if "i \<notin> set_tree l" using that by (cases l) auto
    have "present ns' j \<and> tn_parent (nd ns' j) = pp \<and> tn_rank (nd ns' j) = 0
      \<and> (if i \<in> set_tree l then tn_left (nd ns' j) = root_of (unlink i c) \<and> tn_right (nd ns' j) = root_of d
         else tn_left (nd ns' j) = root_of d \<and> tn_right (nd ns' j) = root_of (unlink i c))"
    proof (cases "root_of c = Some i")
      case True
      then have "?p = Some j" using p by simp
      then have "present ns' j" "nd ns' j = (if root_of l = Some i then (nd ns j)\<lparr>tn_left := ?k\<rparr> else (nd ns j)\<lparr>tn_right := ?k\<rparr>)"
        using h left by (simp_all add: cut_def)
      moreover have "root_of (unlink i c) = ?k" using rec True by simp
      ultimately show ?thesis using here True notl unfolding c_def d_def by (cases "i \<in> set_tree l") simp_all
    next
      case False
      then have "?p \<noteq> Some j" using p sets(1) by auto
      then have "ns' ! j = ns ! j" using h jk \<open>i \<noteq> j\<close> unfolding cut_def by metis
      moreover have "root_of (unlink i c) = root_of c" using rec False by simp
      ultimately show ?thesis using here len unfolding c_def d_def present_def by (cases "i \<in> set_tree l") simp_all
    qed
    then have "linked ns' pp (unlink i (Node l j r))"
      using rec other(1) False by (simp add: c_def d_def split: if_splits)
    moreover have "aug_off ns' (the (up pp i (Node l j r))) (unlink i (Node l j r))" if a: "aug_off ns i (Node l j r)"
    proof -
      have id: "i \<notin> set_tree d" using ic sets(3) by blast
      have "aug_off ns i c \<and> aug ns d"
        using a id ic unfolding c_def d_def by (cases "i \<in> set_tree l") simp_all
      then have cd: "aug_off ns i c" "aug ns' d" using other(2) by simp_all
      have su: "set_tree (unlink i c) = set_tree c - {i}" using Node.prems(4) gu(1) by (intro set_unlink [OF sets(4) ic]) simp
      have two: "(if the ?p \<in> set_tree (unlink i c) then aug_off ns' (the ?p) (unlink i c) else aug ns' (unlink i c)) \<and> the ?p \<notin> set_tree d"
      proof (cases "root_of c = Some i")
        case True
        then show ?thesis using p rec cd(1) sets(1,2) su by simp
      next
        case False
        then obtain x where "x \<in> set_tree c" "x \<noteq> i" "?p = Some x" using p by auto
        then show ?thesis using False rec cd(1) sets(3) su by auto
      qed
      show ?thesis
      proof (cases "i \<in> set_tree l")
        case True
        then have cl: "c = l" and dr: "d = r" by (simp_all add: c_def d_def)
        show ?thesis using two cd(2) False True unfolding gu(2) cl dr by simp
      next
        case notl: False
        then have cr: "c = r" and dl: "d = l" by (simp_all add: c_def d_def)
        show ?thesis using two cd(2) False notl unfolding gu(2) cr dl by simp
      qed
    qed
    ultimately show ?thesis using False by (simp split: if_split)
  qed
qed simp

section \<open>Erasing\<close>

definition shape_inv :: "eevdf_tree \<Rightarrow> nat tree \<Rightarrow> bool" where
  "shape_inv T t \<longleftrightarrow> et_root T = root_of t \<and> linked (et_nodes T) None t \<and> distinct (inorder t) \<and> et_len T = size t
     \<and> length (et_free T) = length (et_nodes T) \<and> et_free_len T \<le> length (et_free T)
     \<and> distinct (take (et_free_len T) (et_free T)) \<and> set (take (et_free_len T) (et_free T)) = {i. i < length (et_nodes T) \<and> i \<notin> set_tree t}
     \<and> (\<forall>i < length (et_nodes T). i \<notin> set_tree t \<longrightarrow> et_nodes T ! i = None)"

lemma tree_inv_shape: "tree_inv T t \<longleftrightarrow> shape_inv T t \<and> ordered (key_of (et_nodes T)) t \<and> aug (et_nodes T) t"
  by (auto simp: tree_inv_def shape_inv_def)

lemma shape_invD:
  assumes "shape_inv T t"
  shows "et_root T = root_of t" "linked (et_nodes T) None t" "distinct (inorder t)" "et_len T = size t"
    "length (et_free T) = length (et_nodes T)" "et_free_len T \<le> length (et_free T)"
    "distinct (take (et_free_len T) (et_free T))"
    "set (take (et_free_len T) (et_free T)) = {i. i < length (et_nodes T) \<and> i \<notin> set_tree t}"
    "\<And>i. i < length (et_nodes T) \<Longrightarrow> i \<notin> set_tree t \<Longrightarrow> et_nodes T ! i = None" "size t \<le> length (et_nodes T)"
  using assms size_le_slots [of "et_nodes T" None t] unfolding shape_inv_def by blast+

lemma free_len_lt:
  assumes "shape_inv T t" "i \<in> set_tree t"
  shows "et_free_len T < length (et_free T)"
proof (rule ccontr)
  note d = shape_invD [OF assms(1)]
  assume "\<not> ?thesis"
  then have full: "et_free_len T = length (et_free T)" using d(6) by simp
  then have "set (et_free T) \<subseteq> {..<length (et_nodes T)}" "distinct (et_free T)" using d(7,8) by auto
  then have "set (et_free T) = {..<length (et_nodes T)}"
    using d(5) by (intro card_subset_eq) (simp_all add: distinct_card)
  moreover have "i < length (et_nodes T)" using linked_present [OF d(2) assms(2)] by (simp add: present_def)
  ultimately show False using d(8) assms(2) full by auto
qed

lemma distinct_get: "distinct (inorder t) \<Longrightarrow> distinct (inorder (get i t))"
  by (induction t) auto

lemma up_outside:
  "distinct (inorder t) \<Longrightarrow> i \<in> set_tree t \<Longrightarrow> pp \<notin> Some ` set_tree t \<Longrightarrow> up pp i t \<notin> Some ` set_tree (get i t)"
proof (induction t arbitrary: pp)
  case (Node l j r)
  then show ?case by (cases "i = j"; cases "i \<in> set_tree l") auto
qed simp

definition relinked :: "tree_node option list \<Rightarrow> nat \<Rightarrow> nat option \<Rightarrow> nat option \<Rightarrow> tree_node option list" where
  "relinked ns i p c =
     (let ns1 = (case p of None \<Rightarrow> ns | Some q \<Rightarrow>
            ns[q := Some (if tn_left (nd ns q) = Some i then (nd ns q)\<lparr>tn_left := c\<rparr> else (nd ns q)\<lparr>tn_right := c\<rparr>)]) in
      case c of None \<Rightarrow> ns1 | Some x \<Rightarrow> ns1[x := Some ((nd ns x)\<lparr>tn_parent := p\<rparr>)])"

lemma relinked_run:
  assumes "\<And>q. p = Some q \<Longrightarrow> present (et_nodes T) q" "\<And>x. c = Some x \<Longrightarrow> present (et_nodes T) x" "\<And>x. c = Some x \<Longrightarrow> p \<noteq> Some x"
  shows "and_then (replace_child p i c) (\<lambda>_. and_then (set_parent c p) k) T =
    k () (T\<lparr>et_nodes := relinked (et_nodes T) i p c, et_root := (if p = None then c else et_root T)\<rparr>)"
proof -
  define T1 where "T1 = T\<lparr>et_nodes := (case p of None \<Rightarrow> et_nodes T | Some q \<Rightarrow> (et_nodes T)[q :=
     Some (if tn_left (nd (et_nodes T) q) = Some i then (nd (et_nodes T) q)\<lparr>tn_left := c\<rparr> else (nd (et_nodes T) q)\<lparr>tn_right := c\<rparr>)]),
     et_root := (if p = None then c else et_root T)\<rparr>"
  have r: "replace_child p i c T = (Done (), T1)"
    using assms(1) by (cases p) (simp_all add: replace_child_def set_root_def tree_ops T1_def)
  have x: "present (et_nodes T1) x" "nd (et_nodes T1) x = nd (et_nodes T) x" if "c = Some x" for x
    using assms(2,3) [OF that] by (cases p; simp add: T1_def present_def)+
  have "set_parent c p T1 = (Done (), T\<lparr>et_nodes := relinked (et_nodes T) i p c, et_root := (if p = None then c else et_root T)\<rparr>)"
  proof (cases c)
    case None
    then show ?thesis by (cases p) (simp_all add: set_parent_def ret_def T1_def relinked_def Let_def)
  next
    case (Some x)
    then have "set_parent c p T1 = (Done (), T1\<lparr>et_nodes := (et_nodes T1)[x := Some ((nd (et_nodes T) x)\<lparr>tn_parent := p\<rparr>)]\<rparr>)"
      using x [OF Some] by (simp add: set_parent_def tree_ops)
    then show ?thesis using Some by (cases p) (simp_all add: T1_def relinked_def Let_def)
  qed
  then show ?thesis using r by (simp add: and_then_Done)
qed

lemma relinked_cut:
  assumes "\<And>q. p = Some q \<Longrightarrow> present ns q \<and> q \<noteq> i" "\<And>x. c = Some x \<Longrightarrow> present ns x \<and> x \<noteq> i \<and> p \<noteq> Some x"
  shows "cut ns i p c ((relinked ns i p c)[i := None])"
    "x \<noteq> i \<Longrightarrow> key_of (relinked ns i p c) x = key_of ns x \<and> tn_finish (nd (relinked ns i p c) x) = tn_finish (nd ns x)"
  using assms unfolding cut_def relinked_def Let_def present_def
  by (cases p; cases c; auto simp: nth_list_update)+

lemma erase_single_run:
  assumes inv: "shape_inv T t" and i: "i \<in> set_tree t" and one: "single (get i t)"
  defines "p \<equiv> up None i t" and "c \<equiv> root_of (only_child (get i t))"
  shows "erase_single i T = (Done (), T\<lparr>et_nodes := (relinked (et_nodes T) i p c)[i := None],
      et_root := (if p = None then c else et_root T),
      et_free := (et_free T)[et_free_len T := i], et_free_len := et_free_len T + 1, et_len := et_len T - 1\<rparr>)"
    "cut (et_nodes T) i p c ((relinked (et_nodes T) i p c)[i := None])"
    "x \<noteq> i \<Longrightarrow> key_of (relinked (et_nodes T) i p c) x = key_of (et_nodes T) x
       \<and> tn_finish (nd (relinked (et_nodes T) i p c) x) = tn_finish (nd (et_nodes T) x)"
proof -
  note d = shape_invD [OF inv]
  obtain l r where g: "get i t = Node l i r" using get_Node [OF i] by blast
  have lk: "linked (et_nodes T) p (Node l i r)" using linked_get [OF d(2) i] unfolding g p_def .
  have child: "(case tn_left (nd (et_nodes T) i) of None \<Rightarrow> tn_right (nd (et_nodes T) i) | Some x \<Rightarrow> Some x) = c"
    using lk by (cases l) (simp_all add: g only_child_def c_def)
  have pc: "present (et_nodes T) q \<and> q \<noteq> i" if "p = Some q" for q
    using up_in [OF i, of None] that linked_present [OF d(2)] by (auto simp: p_def split: if_splits)
  have in_sub: "x \<in> set_tree l \<union> set_tree r" if "c = Some x" for x
    using that by (auto simp: c_def g only_child_def root_of_def split: if_splits tree.splits)
  have "x \<noteq> i" "p \<noteq> Some x" if "c = Some x" for x
    using in_sub [OF that] distinct_get [OF d(3), of i] up_outside [OF d(3) i, of None] unfolding g p_def by auto
  moreover have "present (et_nodes T) x" if "c = Some x" for x
    using only_child_get [OF i] that linked_present [OF d(2)] by (simp add: c_def)
  ultimately have cc: "present (et_nodes T) x \<and> x \<noteq> i \<and> p \<noteq> Some x" if "c = Some x" for x using that by blast
  let ?T1 = "T\<lparr>et_nodes := relinked (et_nodes T) i p c, et_root := (if p = None then c else et_root T)\<rparr>"
  have len: "length (relinked (et_nodes T) i p c) = length (et_nodes T)"
    by (cases p; cases c) (simp_all add: relinked_def Let_def)
  have "present (et_nodes T) i" using lk by simp
  moreover have "t \<noteq> Leaf" using i by auto
  ultimately have rel: "release_slot i ?T1 = (Done (), T\<lparr>et_nodes := (relinked (et_nodes T) i p c)[i := None],
      et_root := (if p = None then c else et_root T),
      et_free := (et_free T)[et_free_len T := i], et_free_len := et_free_len T + 1, et_len := et_len T - 1\<rparr>)"
    using free_len_lt [OF inv i] d(4) len by (simp add: release_slot_def present_def)
  have par: "tn_parent (nd (et_nodes T) i) = p" using lk by simp
  show "erase_single i T = (Done (), T\<lparr>et_nodes := (relinked (et_nodes T) i p c)[i := None],
      et_root := (if p = None then c else et_root T),
      et_free := (et_free T)[et_free_len T := i], et_free_len := et_free_len T + 1, et_len := et_len T - 1\<rparr>)"
    unfolding erase_single_def and_then_Done [of "node_ref i", OF node_ref_present [OF \<open>present (et_nodes T) i\<close>]] Let_def par child
    using relinked_run [of p T c i "\<lambda>_. release_slot i"] pc cc rel by simp
  show "cut (et_nodes T) i p c ((relinked (et_nodes T) i p c)[i := None])"
    "x \<noteq> i \<Longrightarrow> key_of (relinked (et_nodes T) i p c) x = key_of (et_nodes T) x
       \<and> tn_finish (nd (relinked (et_nodes T) i p c) x) = tn_finish (nd (et_nodes T) x)"
    using relinked_cut [of p "et_nodes T" i c] pc cc by blast+
qed

lemma erase_single_shape:
  assumes inv: "shape_inv T t" and i: "i \<in> set_tree t" and one: "single (get i t)"
  shows "\<exists>T'. erase_single i T = (Done (), T') \<and> shape_inv T' (unlink i t) \<and> length (et_nodes T') = length (et_nodes T)
    \<and> (\<forall>x. x \<noteq> i \<longrightarrow> key_of (et_nodes T') x = key_of (et_nodes T) x \<and> tn_finish (nd (et_nodes T') x) = tn_finish (nd (et_nodes T) x))
    \<and> (aug_off (et_nodes T) i t \<longrightarrow> (case up None i t of None \<Rightarrow> aug (et_nodes T') (unlink i t)
         | Some p \<Rightarrow> p \<in> set_tree (unlink i t) \<and> aug_off (et_nodes T') p (unlink i t)))"
proof -
  note d = shape_invD [OF inv]
  define p c where "p = up None i t" and "c = root_of (only_child (get i t))"
  define ns where "ns = (relinked (et_nodes T) i p c)[i := None]"
  note run = erase_single_run [OF inv i one, folded p_def c_def, folded ns_def]
  let ?T = "T\<lparr>et_nodes := ns, et_root := (if p = None then c else et_root T),
      et_free := (et_free T)[et_free_len T := i], et_free_len := et_free_len T + 1, et_len := et_len T - 1\<rparr>"
  have un: "linked ns None (unlink i t)" "root_of (unlink i t) = (if root_of t = Some i then c else root_of t)"
    "aug_off (et_nodes T) i t \<Longrightarrow> (if root_of t = Some i then aug ns (unlink i t) else aug_off ns (the p) (unlink i t))"
    using linked_unlink [OF d(2,3) i one _ run(2) [unfolded p_def c_def]] by (auto simp: p_def c_def)
  have p: "if root_of t = Some i then p = None else \<exists>q\<in>set_tree t. q \<noteq> i \<and> p = Some q"
    using up_in [OF i, of None] by (simp add: p_def)
  have inord: "inorder (unlink i t) = filter (\<lambda>x. x \<noteq> i) (inorder t)" by (rule inorder_unlink [OF d(3) i one])
  have st: "set_tree (unlink i t) = set_tree t - {i}" by (rule set_unlink [OF d(3) i one])
  have len: "length ns = length (et_nodes T)" using run(2) by (simp add: cut_def)
  have i_lt: "i < length (et_nodes T)" using linked_present [OF d(2) i] by (simp add: present_def)
  have "size (unlink i t) = card (set (inorder (unlink i t)))" using d(3) by (simp only: inord length_inorder [symmetric] distinct_card distinct_filter)
  also have "\<dots> = size t - 1" using st i distinct_card [OF d(3)] by simp
  finally have sz: "size (unlink i t) = size t - 1" .
  have tk: "take (et_free_len T + 1) ((et_free T)[et_free_len T := i]) = take (et_free_len T) (et_free T) @ [i]"
    using free_len_lt [OF inv i] by (simp add: take_Suc_conv_app_nth)
  have gone: "ns ! x = None" if "x < length ns" "x \<notin> set_tree (unlink i t)" for x
  proof (cases "x = i")
    case False
    then have "x \<notin> set_tree t" using that(2) st by simp
    moreover from this have "ns ! x = et_nodes T ! x"
      using run(2) False p only_child_get [OF i, of x] by (auto simp: cut_def c_def split: if_splits)
    ultimately show ?thesis using d(9) that(1) len by simp
  qed (use i_lt len in \<open>simp add: ns_def\<close>)
  have shape: "shape_inv ?T (unlink i t)"
    unfolding shape_inv_def
  proof (intro conjI)
    show "et_root ?T = root_of (unlink i t)" using un(2) p d(1) by (auto split: if_splits)
    show "distinct (take (et_free_len ?T) (et_free ?T))" using tk d(7,8) i by auto
    show "set (take (et_free_len ?T) (et_free ?T)) = {x. x < length (et_nodes ?T) \<and> x \<notin> set_tree (unlink i t)}"
      using tk d(8) i_lt len st by auto
    show "et_free_len ?T \<le> length (et_free ?T)" using free_len_lt [OF inv i] by simp
  qed (use un(1) inord d(3,4,5) sz len gone in simp_all)
  have keys: "key_of ns x = key_of (et_nodes T) x \<and> tn_finish (nd ns x) = tn_finish (nd (et_nodes T) x)" if "x \<noteq> i" for x
    using run(3) [OF that] that by (simp add: ns_def)
  have "case p of None \<Rightarrow> aug ns (unlink i t) | Some q \<Rightarrow> q \<in> set_tree (unlink i t) \<and> aug_off ns q (unlink i t)"
    if "aug_off (et_nodes T) i t"
  proof (cases "root_of t = Some i")
    case True
    then show ?thesis using un(3) [OF that] p by simp
  next
    case False
    then obtain q where "q \<in> set_tree t" "q \<noteq> i" "p = Some q" using p by auto
    then show ?thesis using un(3) [OF that] False st by simp
  qed
  moreover obtain T' where "erase_single i T = (Done (), T')" "shape_inv T' (unlink i t)" "et_nodes T' = ns"
    using run(1) shape by simp
  ultimately show ?thesis using keys len unfolding p_def by blast
qed

lemma shape_same_but_min:
  assumes "shape_inv T t" "same_but_min (set_tree t) (et_nodes T) ns"
  shows "shape_inv (T\<lparr>et_nodes := ns\<rparr>) t"
  using assms same_but_min_linked [OF assms(2)] same_but_minD(1,2) [OF assms(2)] by (simp add: shape_inv_def)

lemma rebalance_erase_done:
  assumes "linked (et_nodes T) None t" "i \<in> set_tree t" "size t \<le> fuel"
  shows "rebalance_after_erase fuel i T = (Done (), T)"
proof -
  obtain k where k: "k < size t"
    "\<forall>fuel. rebalance_after_erase (k + Suc fuel) i T = rebalance_after_erase (Suc fuel) (the (root_of t)) T"
    using rebalance_erase_up [OF assms(1,2)] by blast
  obtain l r j where t: "t = Node l j r" using assms(2) by (cases t) auto
  have "rebalance_after_erase (Suc f) j T = (Done (), T)" for f
    using assms(1) child_rank_linked [of T "Some j" l] child_rank_linked [of T "Some j" r] by (simp add: t ret_def tree_ops)
  moreover obtain f where "fuel = k + Suc f" using k(1) assms(3) less_imp_Suc_add [of k fuel] by auto
  ultimately show ?thesis using k(2) t by simp
qed

lemma repair_from_spec:
  assumes "shape_inv T t" "case start of None \<Rightarrow> aug (et_nodes T) t | Some p \<Rightarrow> p \<in> set_tree t \<and> aug_off (et_nodes T) p t"
  shows "\<exists>ns. repair_from start T = (Done (), T\<lparr>et_nodes := ns\<rparr>) \<and> same_but_min (set_tree t) (et_nodes T) ns \<and> aug ns t"
proof (cases start)
  case None
  have "\<exists>m. n = n\<lparr>tn_min_finish := m\<rparr>" for n :: tree_node by (intro exI [of _ "tn_min_finish n"]) simp
  then have "same_but_min (set_tree t) (et_nodes T) (et_nodes T)" by (simp add: same_but_min_def)
  then show ?thesis using assms(2) None by (intro exI [of _ "et_nodes T"]) (simp add: repair_from_def)
next
  case (Some p)
  note d = shape_invD [OF assms(1)]
  have p: "p \<in> set_tree t" "aug_off (et_nodes T) p t" using assms(2) Some by simp_all
  show ?thesis using refresh_all [OF d(2,3) p d(10)] rebalance_erase_done [OF d(2) p(1) d(10)]
    by (simp add: repair_from_def Some and_then_def)
qed

lemma erase_repair:
  assumes inv: "shape_inv T t" and i: "i \<in> set_tree t" and one: "single (get i t)" and off: "aug_off (et_nodes T) i t"
  shows "\<exists>T'. and_then (erase_single i) (\<lambda>_. repair_from (up None i t)) T = (Done (), T') \<and> shape_inv T' (unlink i t)
    \<and> aug (et_nodes T') (unlink i t) \<and> length (et_nodes T') = length (et_nodes T)
    \<and> (\<forall>x \<in> set_tree t. x \<noteq> i \<longrightarrow> key_of (et_nodes T') x = key_of (et_nodes T) x
         \<and> tn_finish (nd (et_nodes T') x) = tn_finish (nd (et_nodes T) x))"
proof -
  obtain T1 where run: "erase_single i T = (Done (), T1)" and T1: "shape_inv T1 (unlink i t)" "length (et_nodes T1) = length (et_nodes T)"
    and keys: "\<forall>x. x \<noteq> i \<longrightarrow> key_of (et_nodes T1) x = key_of (et_nodes T) x \<and> tn_finish (nd (et_nodes T1) x) = tn_finish (nd (et_nodes T) x)"
    and off1: "case up None i t of None \<Rightarrow> aug (et_nodes T1) (unlink i t)
         | Some p \<Rightarrow> p \<in> set_tree (unlink i t) \<and> aug_off (et_nodes T1) p (unlink i t)"
    using erase_single_shape [OF inv i one] off by blast
  obtain ns where ns: "repair_from (up None i t) T1 = (Done (), T1\<lparr>et_nodes := ns\<rparr>)"
    "same_but_min (set_tree (unlink i t)) (et_nodes T1) ns" "aug ns (unlink i t)"
    using repair_from_spec [OF T1(1) off1] by blast
  have "key_of ns x = key_of (et_nodes T) x \<and> tn_finish (nd ns x) = tn_finish (nd (et_nodes T) x)" if "x \<in> set_tree t" "x \<noteq> i" for x
  proof -
    have "x \<in> set_tree (unlink i t)" using set_unlink [OF shape_invD(3) [OF inv] i one] that by simp
    then show ?thesis using same_but_min_keys [OF ns(2) shape_invD(2) [OF T1(1)]] keys that(2) by simp
  qed
  then show ?thesis
    using run ns(1,3) T1(2) shape_same_but_min [OF T1(1) ns(2)] same_but_minD(1) [OF ns(2)]
    by (intro exI [of _ "T1\<lparr>et_nodes := ns\<rparr>"]) (simp add: and_then_def)
qed

section \<open>The successor\<close>

lemma leftmost_linked:
  "linked (et_nodes T) p t \<Longrightarrow> t \<noteq> Leaf \<Longrightarrow> size t \<le> fuel \<Longrightarrow> leftmost fuel (the (root_of t)) T = (Done (hd (inorder t)), T)"
proof (induction t arbitrary: p fuel)
  case (Node l i r)
  obtain f where f: "fuel = Suc f" "size l \<le> f" using Node.prems(3) by (cases fuel) auto
  show ?case
  proof (cases l)
    case Leaf
    then show ?thesis using Node.prems(1) f(1) by (simp add: tree_ops ret_def)
  next
    case (Node l1 x l2)
    then show ?thesis using Node.IH(1) [of "Some i" f] Node.prems(1) f by (simp add: tree_ops hd_append)
  qed
qed simp

lemma get_least: "t \<noteq> Leaf \<Longrightarrow> distinct (inorder t) \<Longrightarrow> \<exists>r. get (hd (inorder t)) t = Node Leaf (hd (inorder t)) r"
proof (induction t)
  case (Node l i r)
  show ?case
  proof (cases "l = Leaf")
    case False
    then have "hd (inorder l) \<in> set_tree l" using hd_in_set [of "inorder l"] by (cases l) simp_all
    moreover have "inorder l \<noteq> []" using False by (cases l) auto
    ultimately show ?thesis using Node False by auto
  qed simp
qed simp

lemma get_get: "distinct (inorder t) \<Longrightarrow> u \<in> set_tree (get s t) \<Longrightarrow> get u t = get u (get s t)"
proof (induction t)
  case (Node l j r)
  then show ?case using set_get [of u s l] set_get [of u s r] by (auto split: if_splits)
qed simp

lemma successor_next:
  "i \<in> set_tree t \<Longrightarrow> get i t = Node l i r \<Longrightarrow> r \<noteq> Leaf \<Longrightarrow> \<exists>A B. inorder t = A @ i # hd (inorder r) # B"
proof (induction t)
  case (Node l' j r')
  consider "i = j" | "i \<noteq> j" "i \<in> set_tree l'" | "i \<noteq> j" "i \<notin> set_tree l'" "i \<in> set_tree r'" using Node.prems(1) by auto
  then show ?case
  proof cases
    case 1
    have "inorder r = hd (inorder r) # tl (inorder r)" using Node.prems(3) by (cases r) simp_all
    then have "inorder (Node l' j r') = inorder l' @ i # hd (inorder r) # tl (inorder r)" using 1 Node.prems(2) by simp
    then show ?thesis by blast
  next
    case 2
    then obtain A B where "inorder l' = A @ i # hd (inorder r) # B" using Node by auto
    then show ?thesis by (intro exI [of _ A] exI [of _ "B @ j # inorder r'"]) simp
  next
    case 3
    then obtain A B where "inorder r' = A @ i # hd (inorder r) # B" using Node by auto
    then show ?thesis by (intro exI [of _ "inorder l' @ j # A"] exI [of _ B]) simp
  qed
qed simp

lemma aug_imp_off: "aug ns t \<Longrightarrow> aug_off ns i t"
  by (induction t) auto

lemma aug_off_below:
  assumes "aug ns t" "distinct (inorder t)" "s \<in> set_tree t" "u \<in> set_tree (get s t)" "\<And>x. x \<noteq> s \<Longrightarrow> ns' ! x = ns ! x"
  shows "aug_off ns' u t"
  using assms
proof (induction t)
  case (Node l j r)
  have frame: "s \<notin> set_tree c \<Longrightarrow> aug ns c \<Longrightarrow> aug ns' c" for c
    by (metis aug_frame Node.prems(5))
  consider "s = j" | "s \<noteq> j" "s \<in> set_tree l" | "s \<noteq> j" "s \<notin> set_tree l" "s \<in> set_tree r" using Node.prems(3) by auto
  then show ?case
  proof cases
    case 1
    then show ?thesis using Node.prems(1,2) frame aug_imp_off by simp
  next
    case 2
    then have "u \<in> set_tree l" "aug_off ns' u l" using Node set_get [of u s l] by auto
    moreover have "u \<notin> set_tree r" "s \<notin> set_tree r" using Node.prems(2) \<open>u \<in> set_tree l\<close> 2 by auto
    ultimately show ?thesis using frame [of r] Node.prems(1) by simp
  next
    case 3
    then have "u \<in> set_tree r" "aug_off ns' u r" using Node set_get [of u s r] by auto
    moreover have "u \<notin> set_tree l" using Node.prems(2) \<open>u \<in> set_tree r\<close> by auto
    ultimately show ?thesis using frame [of l] 3 Node.prems(1) by simp
  qed
qed simp

text \<open>The node of the successor takes the place of the erased one.\<close>

definition take_over :: "eevdf_tree \<Rightarrow> nat \<Rightarrow> nat \<Rightarrow> eevdf_tree" where
  "take_over T i u = T\<lparr>et_nodes := (et_nodes T)[i := Some ((nd (et_nodes T) i)\<lparr>tn_key := key_of (et_nodes T) u,
     tn_finish := tn_finish (nd (et_nodes T) u), tn_min_finish := tn_min_finish (nd (et_nodes T) u)\<rparr>)]\<rparr>"

lemma linked_same_links:
  assumes "linked ns p t" "length ns' = length ns"
    "\<And>x. x \<in> set_tree t \<Longrightarrow> ns' ! x \<noteq> None \<and> tn_parent (nd ns' x) = tn_parent (nd ns x) \<and> tn_rank (nd ns' x) = tn_rank (nd ns x)
       \<and> tn_left (nd ns' x) = tn_left (nd ns x) \<and> tn_right (nd ns' x) = tn_right (nd ns x)"
  shows "linked ns' p t"
  using assms by (induction t arbitrary: p) (auto simp: present_def)

lemma take_over_shape:
  assumes inv: "shape_inv T t" and i: "i \<in> set_tree t"
  shows "shape_inv (take_over T i u) t"
proof -
  note d = shape_invD [OF inv]
  have "present (et_nodes T) i" by (rule linked_present [OF d(2) i])
  then have "linked (et_nodes (take_over T i u)) None t"
    using linked_present [OF d(2)] by (intro linked_same_links [OF d(2)]) (auto simp: take_over_def present_def nth_list_update)
  moreover have "et_nodes (take_over T i u) ! x = et_nodes T ! x" if "x \<notin> set_tree t" for x
    using that i by (cases "x = i") (auto simp: take_over_def)
  moreover have "length (et_nodes (take_over T i u)) = length (et_nodes T)" "et_root (take_over T i u) = et_root T"
    "et_free (take_over T i u) = et_free T" "et_free_len (take_over T i u) = et_free_len T" "et_len (take_over T i u) = et_len T"
    by (simp_all add: take_over_def)
  ultimately show ?thesis using inv unfolding shape_inv_def by simp
qed

text \<open>Dropping the successor's slot, whose entry has moved to the slot before it, drops the entry of that slot.\<close>

lemma successor_contents:
  assumes "distinct (A @ i # u # B)" "sorted_wrt (<) (map K (A @ i # u # B))"
    "\<And>x. x \<in> set (A @ i # u # B) \<Longrightarrow> x \<noteq> u \<Longrightarrow> K' x = (if x = i then K u else K x)"
  shows "sorted_wrt (<) (map K' (filter (\<lambda>x. x \<noteq> u) (A @ i # u # B)))"
proof -
  have "filter (\<lambda>x. x \<noteq> u) A = A" "filter (\<lambda>x. x \<noteq> u) B = B" using assms(1) by (auto simp: filter_id_conv)
  moreover have "K' x = K x" if "x \<in> set A \<union> set B" for x
    using that assms(1) assms(3) [of x] by (cases "x = i"; cases "x = u") auto
  ultimately have "map K' (filter (\<lambda>x. x \<noteq> u) (A @ i # u # B)) = map K A @ K u # map K B"
    using assms(1) assms(3) [of i] by auto
  then show ?thesis using assms(2) by (auto simp: sorted_wrt_append)
qed

lemma successor_single:
  assumes dt: "distinct (inorder t)" and i: "i \<in> set_tree t" and g: "get i t = Node l i r" and r: "r \<noteq> Leaf"
  defines "u \<equiv> hd (inorder r)"
  shows "u \<in> set_tree (get i t)" "u \<in> set_tree t" "single (get u t)" "\<exists>p. up None u t = Some p"
proof -
  have u: "u \<in> set_tree r" using r hd_in_set [of "inorder r"] by (cases r) (simp_all add: u_def)
  have dist: "distinct (inorder (Node l i r))" using distinct_get [OF dt, of i] unfolding g .
  show ug: "u \<in> set_tree (get i t)" using u by (simp add: g)
  then show ut: "u \<in> set_tree t" by (rule set_get)
  have ui: "u \<noteq> i" "u \<notin> set_tree l" using dist u by auto
  have "get u t = get u r" using get_get [OF dt ug] ui by (simp add: g)
  then show "single (get u t)" using get_least [OF r] dist by (auto simp: u_def single_def)
  have "root_of t \<noteq> Some u"
  proof
    assume "root_of t = Some u"
    then obtain l' r' where t: "t = Node l' u r'" by (cases t) auto
    then show False using ug ui(1) dt set_get [of u i l'] set_get [of u i r'] by (auto split: if_splits)
  qed
  then show "\<exists>p. up None u t = Some p" using up_in [OF ut, of None] by auto
qed

lemma erase_node_inner_run:
  assumes sh: "shape_inv T t" and i: "i \<in> set_tree t" and g: "get i t = Node l i r" and two: "l \<noteq> Leaf" "r \<noteq> Leaf"
  defines "u \<equiv> hd (inorder r)"
  shows "erase_node i T = and_then (erase_single u) (\<lambda>_. repair_from (up None u t)) (take_over T i u)"
proof -
  note d = shape_invD [OF sh]
  have lk: "linked (et_nodes T) (up None i t) (Node l i r)" using linked_get [OF d(2) i] unfolding g .
  have ut: "u \<in> set_tree t" unfolding u_def by (rule successor_single(2) [OF d(3) i g two(2)])
  obtain p where p: "up None u t = Some p" using successor_single(4) [OF d(3) i g two(2)] by (auto simp: u_def)
  have pres: "present (et_nodes T) i" "present (et_nodes T) u" using linked_present [OF d(2)] i ut by blast+
  have par: "tn_parent (nd (et_nodes T) u) = Some p"
    using linked_get [OF d(2) ut] get_Node [OF ut] p by auto
  have sz: "size r \<le> length (et_nodes T)"
    using size_le_slots [of "et_nodes T" "Some i" r] lk distinct_get [OF d(3), of i] by (simp add: g)
  obtain ra ru rb where rr: "r = Node ra ru rb" using two(2) by (cases r) auto
  obtain la lx lb where ll: "l = Node la lx lb" using two(1) by (cases l) auto
  have left: "leftmost (length (et_nodes T)) ru T = (Done u, T)"
    using leftmost_linked [of T "Some i" r "length (et_nodes T)"] lk sz by (simp add: rr u_def)
  show ?thesis
    using lk pres left par unfolding erase_node_def rr ll p by (simp add: tree_ops take_over_def)
qed

lemma erase_node_inner:
  assumes inv: "tree_inv T t" and i: "i \<in> set_tree t" and g: "get i t = Node l i r" and two: "l \<noteq> Leaf" "r \<noteq> Leaf"
  defines "u \<equiv> hd (inorder r)"
  shows "\<exists>T'. erase_node i T = (Done (), T') \<and> shape_inv T' (unlink u t)
    \<and> aug (et_nodes T') (unlink u t) \<and> length (et_nodes T') = length (et_nodes T)
    \<and> (\<forall>x \<in> set_tree t. x \<noteq> u \<longrightarrow> key_of (et_nodes T') x = key_of (et_nodes T) (if x = i then u else x)
         \<and> tn_finish (nd (et_nodes T') x) = tn_finish (nd (et_nodes T) (if x = i then u else x)))"
proof -
  have sh: "shape_inv T t" and au: "aug (et_nodes T) t" using inv by (simp_all add: tree_inv_shape)
  note d = shape_invD [OF sh] and s = successor_single [OF shape_invD(3) [OF sh] i g two(2), folded u_def]
  let ?T1 = "take_over T i u"
  have "aug_off (et_nodes ?T1) u t"
    by (rule aug_off_below [OF au d(3) i s(1)]) (simp add: take_over_def)
  then obtain T' where T': "and_then (erase_single u) (\<lambda>_. repair_from (up None u t)) ?T1 = (Done (), T')"
    "shape_inv T' (unlink u t)" "aug (et_nodes T') (unlink u t)" "length (et_nodes T') = length (et_nodes ?T1)"
    "\<forall>x \<in> set_tree t. x \<noteq> u \<longrightarrow> key_of (et_nodes T') x = key_of (et_nodes ?T1) x
         \<and> tn_finish (nd (et_nodes T') x) = tn_finish (nd (et_nodes ?T1) x)"
    using erase_repair [OF take_over_shape [OF sh i] s(2,3)] by blast
  have "present (et_nodes T) i" by (rule linked_present [OF d(2) i])
  then have "key_of (et_nodes ?T1) x = key_of (et_nodes T) (if x = i then u else x)
      \<and> tn_finish (nd (et_nodes ?T1) x) = tn_finish (nd (et_nodes T) (if x = i then u else x))" for x
    by (cases "x = i") (simp_all add: take_over_def present_def)
  moreover have "length (et_nodes ?T1) = length (et_nodes T)" by (simp add: take_over_def)
  ultimately show ?thesis using T' erase_node_inner_run [OF sh i g two, folded u_def] by (intro exI [of _ T']) simp
qed

lemma entries_inj:
  assumes "ordered K t" "x \<in> set_tree t" "y \<in> set_tree t" "K x = K y" "distinct (inorder t)"
  shows "x = y"
proof -
  have "distinct (map K (inorder t))" using assms(1) strict_sorted_iff [of "map K (inorder t)"] by (simp add: ordered_def)
  then show ?thesis using assms(2-4) by (auto simp: distinct_map dest: inj_onD)
qed

lemma erase_node_two:
  assumes inv: "tree_inv T t" and i: "i \<in> set_tree t" and g: "get i t = Node l i r" and two: "l \<noteq> Leaf" "r \<noteq> Leaf"
  shows "\<exists>T' t'. erase_node i T = (Done (), T') \<and> tree_inv T' t' \<and> length (et_nodes T') = length (et_nodes T)
    \<and> contents T' t' = (\<lambda>x. (key_of (et_nodes T) x, tn_finish (nd (et_nodes T) x))) ` (set_tree t - {i})"
proof -
  have sh: "shape_inv T t" and or: "ordered (key_of (et_nodes T)) t" and au: "aug (et_nodes T) t"
    using inv by (simp_all add: tree_inv_shape)
  note d = shape_invD [OF sh]
  let ?E = "\<lambda>S x. (key_of (et_nodes S) x, tn_finish (nd (et_nodes S) x))"
  define u where "u = hd (inorder r)"
  obtain T' where T': "erase_node i T = (Done (), T')" "shape_inv T' (unlink u t)" "aug (et_nodes T') (unlink u t)"
    "length (et_nodes T') = length (et_nodes T)"
    "\<forall>x \<in> set_tree t. x \<noteq> u \<longrightarrow> key_of (et_nodes T') x = key_of (et_nodes T) (if x = i then u else x)
       \<and> tn_finish (nd (et_nodes T') x) = tn_finish (nd (et_nodes T) (if x = i then u else x))"
    using erase_node_inner [OF inv i g] two by (auto simp: u_def)
  note s = successor_single [OF d(3) i g, folded u_def]
  have un: "inorder (unlink u t) = filter (\<lambda>x. x \<noteq> u) (inorder t)" "set_tree (unlink u t) = set_tree t - {u}"
    using inorder_unlink [OF d(3)] set_unlink [OF d(3)] s two by blast+
  obtain A B where ab: "inorder t = A @ i # u # B" using successor_next [OF i g] two by (auto simp: u_def)
  have st: "set_tree t = set (A @ i # u # B)" using ab by (metis set_inorder)
  have "ordered (key_of (et_nodes T')) (unlink u t)"
    unfolding ordered_def un(1) ab
    by (rule successor_contents [of A i u B "key_of (et_nodes T)"]) (use d(3) or T'(5) st in \<open>auto simp: ab ordered_def\<close>)
  moreover have "contents T' (unlink u t) = ?E T ` (\<lambda>x. if x = i then u else x) ` (set_tree t - {u})"
    unfolding contents_def un(2) image_image by (rule image_cong) (use T'(5) in auto)
  moreover have "(\<lambda>x. if x = i then u else x) ` (set_tree t - {u}) = set_tree t - {i}"
    using d(3) unfolding st ab by auto
  ultimately show ?thesis using T'(1-4) by (auto simp: tree_inv_shape)
qed

lemma erase_node_one:
  assumes inv: "tree_inv T t" and i: "i \<in> set_tree t" and g: "get i t = Node l i r" and few: "l = Leaf \<or> r = Leaf"
  shows "\<exists>T' t'. erase_node i T = (Done (), T') \<and> tree_inv T' t' \<and> length (et_nodes T') = length (et_nodes T)
    \<and> contents T' t' = (\<lambda>x. (key_of (et_nodes T) x, tn_finish (nd (et_nodes T) x))) ` (set_tree t - {i})"
proof -
  have sh: "shape_inv T t" and or: "ordered (key_of (et_nodes T)) t" and au: "aug (et_nodes T) t"
    using inv by (simp_all add: tree_inv_shape)
  note d = shape_invD [OF sh]
  let ?E = "\<lambda>S x. (key_of (et_nodes S) x, tn_finish (nd (et_nodes S) x))"
  have one: "single (get i t)" using few by (auto simp: g single_def)
  have lk: "linked (et_nodes T) (up None i t) (Node l i r)" using linked_get [OF d(2) i] unfolding g .
  have run: "erase_node i T = and_then (erase_single i) (\<lambda>_. repair_from (up None i t)) T"
    using lk few unfolding erase_node_def by (cases l; cases r) (simp_all add: tree_ops)
  obtain T' where T': "and_then (erase_single i) (\<lambda>_. repair_from (up None i t)) T = (Done (), T')"
    "shape_inv T' (unlink i t)" "aug (et_nodes T') (unlink i t)" "length (et_nodes T') = length (et_nodes T)"
    "\<forall>x \<in> set_tree t. x \<noteq> i \<longrightarrow> ?E T' x = ?E T x"
    using erase_repair [OF sh i one aug_imp_off [OF au]] by auto
  have un: "inorder (unlink i t) = filter (\<lambda>x. x \<noteq> i) (inorder t)" "set_tree (unlink i t) = set_tree t - {i}"
    using inorder_unlink [OF d(3) i one] set_unlink [OF d(3) i one] by blast+
  have "map (key_of (et_nodes T')) (inorder (unlink i t)) = map (key_of (et_nodes T)) (filter (\<lambda>x. x \<noteq> i) (inorder t))"
    unfolding un(1) using T'(5) by auto
  then have "ordered (key_of (et_nodes T')) (unlink i t)"
    using or by (simp add: ordered_def sorted_wrt_map sorted_wrt_filter)
  moreover have "contents T' (unlink i t) = ?E T ` (set_tree t - {i})"
    unfolding contents_def un(2) by (rule image_cong) (use T'(5) in auto)
  ultimately show ?thesis using run T'(1-4) by (auto simp: tree_inv_shape)
qed

lemma erase_node_spec:
  assumes inv: "tree_inv T t" and i: "i \<in> set_tree t"
  shows "\<exists>T' t'. erase_node i T = (Done (), T') \<and> tree_inv T' t' \<and> length (et_nodes T') = length (et_nodes T)
    \<and> contents T' t' = contents T t - {(key_of (et_nodes T) i, tn_finish (nd (et_nodes T) i))}"
proof -
  obtain l r where g: "get i t = Node l i r" using get_Node [OF i] by blast
  have "(\<lambda>x. (key_of (et_nodes T) x, tn_finish (nd (et_nodes T) x))) ` (set_tree t - {i})
      = contents T t - {(key_of (et_nodes T) i, tn_finish (nd (et_nodes T) i))}"
    using entries_inj [OF tree_invD(4) [OF inv] _ i _ tree_invD(3) [OF inv]] by (auto simp: contents_def)
  then show ?thesis
    using erase_node_two [OF inv i g] erase_node_one [OF inv i g] by (cases "l = Leaf \<or> r = Leaf") simp_all
qed

end
