(* ===== verification/Eevdf_Index.thy ===== *)
theory Eevdf_Index
  imports Eevdf_Tree_Erase "HOL-Library.Product_Lexorder"
begin

text \<open>
  The index tree of \<^verbatim>\<open>huesos-sched/src/eevdf.rs\<close> as its callers see it: a set of entries, each a key
  with a virtual finish, at most one per key and at most as many as there are slots. Over every
  history of calls from an empty tree, each operation returns and acts on that set.
\<close>

section \<open>Entries\<close>

definition entries :: "eevdf_tree \<Rightarrow> (eevdf_key \<times> u128) set" where
  "entries T = {(tn_key n, tn_finish n) |n. Some n \<in> set (et_nodes T)}"

definition entry_keys :: "eevdf_tree \<Rightarrow> eevdf_key set" where
  "entry_keys T = fst ` entries T"

lemma slots_used:
  assumes "tree_inv T t"
  shows "Some n \<in> set (et_nodes T) \<longleftrightarrow> (\<exists>i \<in> set_tree t. n = nd (et_nodes T) i)"
proof
  assume "Some n \<in> set (et_nodes T)"
  then obtain i where "i < length (et_nodes T)" "et_nodes T ! i = Some n" by (auto simp: in_set_conv_nth)
  moreover from this have "i \<in> set_tree t" using shape_invD(9) [of T t i] assms by (auto simp: tree_inv_shape)
  ultimately show "\<exists>i \<in> set_tree t. n = nd (et_nodes T) i" by (intro bexI [of _ i]) simp_all
next
  assume "\<exists>i \<in> set_tree t. n = nd (et_nodes T) i"
  then obtain i where i: "i \<in> set_tree t" "n = nd (et_nodes T) i" by blast
  then have "present (et_nodes T) i" using linked_present [OF tree_invD(2) [OF assms]] by blast
  then have "et_nodes T ! i = Some n" "i < length (et_nodes T)" using i(2) by (auto simp: present_def)
  then show "Some n \<in> set (et_nodes T)" by (metis nth_mem)
qed

lemma contents_entries: "tree_inv T t \<Longrightarrow> contents T t = entries T"
  by (auto simp: contents_def entries_def slots_used)

lemma entry_keys_image: "tree_inv T t \<Longrightarrow> entry_keys T = key_of (et_nodes T) ` set_tree t"
  by (simp add: entry_keys_def contents_def image_image flip: contents_entries)

lemma finite_entries: "finite (entries T)"
proof -
  have "entries T = (\<lambda>n. (tn_key n, tn_finish n)) ` (the ` (set (et_nodes T) - {None}))"
    by (force simp: entries_def image_iff)
  then show ?thesis by simp
qed

lemma entries_new [simp]: "entries (tree_new n) = {}"
  by (auto simp: entries_def tree_new_def)

lemma inj_entry:
  assumes "tree_inv T t"
  shows "inj_on (key_of (et_nodes T)) (set_tree t)"
  using entries_inj [OF tree_invD(4) [OF assms] _ _ _ tree_invD(3) [OF assms]] by (intro inj_onI) blast

lemma entry_unique:
  assumes "tree_inv T t" "(k, f) \<in> entries T" "(k, f') \<in> entries T"
  shows "f = f'"
  using assms inj_onD [OF inj_entry [OF assms(1)]] unfolding contents_entries [OF assms(1), symmetric] contents_def by auto

lemma card_entries:
  assumes "tree_inv T t"
  shows "card (entries T) = size t"
proof -
  have "inj_on (\<lambda>i. (key_of (et_nodes T) i, tn_finish (nd (et_nodes T) i))) (set_tree t)"
    using inj_entry [OF assms] by (auto intro!: inj_onI dest: inj_onD)
  then have "card (entries T) = card (set_tree t)"
    unfolding contents_entries [OF assms, symmetric] contents_def by (rule card_image)
  then show ?thesis using distinct_card [OF tree_invD(3) [OF assms]] by simp
qed

lemma full_iff:
  assumes "tree_inv T t"
  shows "tree_is_full T \<longleftrightarrow> card (entries T) = length (et_nodes T)"
proof -
  have sh: "shape_inv T t" using assms by (simp add: tree_inv_shape)
  note d = shape_invD [OF sh]
  have "card (set (take (et_free_len T) (et_free T))) = et_free_len T" using d(6) distinct_card [OF d(7)] by simp
  moreover have "{i. i < length (et_nodes T) \<and> i \<notin> set_tree t} = {..<length (et_nodes T)} - set_tree t" by auto
  moreover have "set_tree t \<subseteq> {..<length (et_nodes T)}" using linked_present [OF d(2)] by (auto simp: present_def)
  ultimately have "et_free_len T = length (et_nodes T) - size t"
    using d(8) distinct_card [OF d(3)] by (simp add: card_Diff_subset)
  then show ?thesis using card_entries [OF assms] d(10) by (auto simp: tree_is_full_def)
qed

section \<open>Removal by key\<close>

lemma find_key_spec:
  assumes inv: "tree_inv T t"
  shows "case find_key T key of None \<Rightarrow> key \<notin> entry_keys T | Some i \<Rightarrow> i \<in> set_tree t \<and> key_of (et_nodes T) i = key"
proof (cases t)
  case Leaf
  then show ?thesis using entry_keys_image [OF inv] tree_invD(1) [OF inv] by (simp add: find_key_def)
next
  case (Node l i r)
  note d = tree_invD(1,2,4) [OF inv, unfolded Node]
  have "size (Node l i r) \<le> length (et_nodes T)" using size_le_slots [OF tree_invD(2,3) [OF inv]] Node by simp
  from find_key_from_linked [OF d(2,3) this, of key] show ?thesis
    using d(1) unfolding find_key_def Node entry_keys_image [OF inv, unfolded Node] by simp
qed

lemma erase_entry:
  assumes inv: "tree_inv T t" and i: "i \<in> set_tree t" and key: "key_of (et_nodes T) i = key"
  shows "\<exists>T' t'. erase_node i T = (Done (), T') \<and> tree_inv T' t' \<and> length (et_nodes T') = length (et_nodes T)
    \<and> entries T' = {e \<in> entries T. fst e \<noteq> key}"
proof -
  obtain T' t' where T': "erase_node i T = (Done (), T')" "tree_inv T' t'" "length (et_nodes T') = length (et_nodes T)"
    "contents T' t' = contents T t - {(key, tn_finish (nd (et_nodes T) i))}"
    using erase_node_spec [OF inv i] key by blast
  have "(key, tn_finish (nd (et_nodes T) i)) \<in> entries T"
    using i key unfolding contents_entries [OF inv, symmetric] contents_def by force
  then have "entries T - {(key, tn_finish (nd (et_nodes T) i))} = {e \<in> entries T. fst e \<noteq> key}"
    using entry_unique [OF inv] by auto
  then show ?thesis using T' by (auto simp: contents_entries [OF inv] contents_entries)
qed

lemma least_key:
  assumes inv: "tree_inv T t" and t: "t \<noteq> Leaf"
  shows "hd (inorder t) \<in> set_tree t" "key_of (et_nodes T) (hd (inorder t)) = Min (entry_keys T)"
proof -
  have ne: "inorder t \<noteq> []" using t by (cases t) auto
  show "hd (inorder t) \<in> set_tree t" using hd_in_set [OF ne] by simp
  have "sorted_wrt (<) (map (key_of (et_nodes T)) (inorder t))" using tree_invD(4) [OF inv] by (simp add: ordered_def)
  then have "\<forall>x \<in> set (inorder t). key_of (et_nodes T) (hd (inorder t)) \<le> key_of (et_nodes T) x"
    using ne by (cases "inorder t") auto
  then show "key_of (et_nodes T) (hd (inorder t)) = Min (entry_keys T)"
    unfolding entry_keys_image [OF inv] using hd_in_set [OF ne] by (intro Min_eqI [symmetric]) auto
qed

lemma peek_from_linked:
  "linked ns p t \<Longrightarrow> t \<noteq> Leaf \<Longrightarrow> size t \<le> fuel \<Longrightarrow> peek_from fuel ns (the (root_of t)) = Some (key_of ns (hd (inorder t)))"
proof (induction t arbitrary: p fuel)
  case (Node l i r)
  obtain f where f: "fuel = Suc f" "size l \<le> f" using Node.prems(3) by (cases fuel) auto
  obtain n where n: "i < length ns" "ns ! i = Some n" using Node.prems(1) by (auto simp: present_def)
  show ?case
  proof (cases l)
    case Leaf
    then show ?thesis using Node.prems(1) f(1) n by simp
  next
    case (Node l1 x l2)
    then show ?thesis using Node.IH(1) [of "Some i" f] Node.prems(1) f n by (simp add: hd_append)
  qed
qed simp

lemma entries_empty_iff: "tree_inv T t \<Longrightarrow> entries T = {} \<longleftrightarrow> t = Leaf"
  by (auto simp: contents_def simp flip: contents_entries)

lemma peek_min_spec:
  assumes inv: "tree_inv T t"
  shows "peek_min T = (if entries T = {} then None else Some (Min (entry_keys T)))"
proof (cases "t = Leaf")
  case True
  then show ?thesis using tree_invD(1) [OF inv] entries_empty_iff [OF inv] by (simp add: peek_min_def)
next
  case False
  then obtain i where "et_root T = Some i" "the (root_of t) = i" using tree_invD(1) [OF inv] by (cases t) auto
  then show ?thesis
    using peek_from_linked [OF tree_invD(2) [OF inv] False size_le_slots [OF tree_invD(2,3) [OF inv]]]
      least_key(2) [OF inv False] entries_empty_iff [OF inv] False by (simp add: peek_min_def)
qed

lemma pop_min_spec:
  assumes inv: "tree_inv T t" and ne: "entries T \<noteq> {}"
  shows "\<exists>T' t'. pop_min T = (Done (Some (Min (entry_keys T))), T') \<and> tree_inv T' t' \<and> length (et_nodes T') = length (et_nodes T)
    \<and> entries T' = {e \<in> entries T. fst e \<noteq> Min (entry_keys T)}"
proof -
  have t: "t \<noteq> Leaf" using ne entries_empty_iff [OF inv] by simp
  let ?u = "hd (inorder t)"
  note u = least_key [OF inv t]
  obtain i where i: "et_root T = Some i" "the (root_of t) = i" using tree_invD(1) [OF inv] t by (cases t) auto
  have left: "leftmost (length (et_nodes T)) i T = (Done ?u, T)"
    using leftmost_linked [OF tree_invD(2) [OF inv] t size_le_slots [OF tree_invD(2,3) [OF inv]]] i(2) by simp
  have "node_ref ?u T = (Done (nd (et_nodes T) ?u), T)"
    by (rule node_ref_present [OF linked_present [OF tree_invD(2) [OF inv] u(1)]])
  then show ?thesis using left erase_entry [OF inv u] i(1) u(2) by (auto simp: pop_min_def and_then_def ret_def)
qed

lemma remove_spec:
  assumes inv: "tree_inv T t"
  shows "key \<notin> entry_keys T \<Longrightarrow> tree_remove key T = (Failed KeyNotFound, T)"
    "key \<in> entry_keys T \<Longrightarrow> \<exists>T' t'. tree_remove key T = (Done (), T') \<and> tree_inv T' t'
       \<and> length (et_nodes T') = length (et_nodes T) \<and> entries T' = {e \<in> entries T. fst e \<noteq> key}"
proof -
  note f = find_key_spec [OF inv, of key]
  have "key_of (et_nodes T) i \<in> entry_keys T" if "i \<in> set_tree t" for i
    using that by (simp add: entry_keys_image [OF inv])
  then show "key \<notin> entry_keys T \<Longrightarrow> tree_remove key T = (Failed KeyNotFound, T)"
    using f by (auto simp: tree_remove_def split: option.splits)
  show "key \<in> entry_keys T \<Longrightarrow> \<exists>T' t'. tree_remove key T = (Done (), T') \<and> tree_inv T' t'
       \<and> length (et_nodes T') = length (et_nodes T) \<and> entries T' = {e \<in> entries T. fst e \<noteq> key}"
    using f erase_entry [OF inv] by (auto simp: tree_remove_def split: option.splits)
qed

section \<open>Queries over the entries\<close>

lemma collect_sorted_keys:
  assumes "tree_inv T t"
  shows "collect_sorted T = sorted_list_of_set (entry_keys T)"
proof -
  have "sorted_wrt (<) (collect_sorted T)" "set (collect_sorted T) = entry_keys T"
    using collect_sorted_eq [OF assms] by (simp_all add: entry_keys_def contents_entries [OF assms])
  then show ?thesis
    using strict_sorted_equal [of "collect_sorted T" "sorted_list_of_set (entry_keys T)"] finite_entries [of T]
    by (simp add: entry_keys_def)
qed

definition eligible :: "eevdf_tree \<Rightarrow> u128 \<Rightarrow> (u128 \<times> eevdf_key) set" where
  "eligible T now = {(f, k). (k, f) \<in> entries T \<and> virtual_start k \<le> now}"

lemma finite_eligible: "finite (eligible T now)"
proof -
  have "eligible T now \<subseteq> (\<lambda>(k, f). (f, k)) ` entries T" by (force simp: eligible_def)
  then show ?thesis using finite_entries finite_surj by blast
qed

lemma pick_eligible_min:
  assumes inv: "tree_inv T t"
  shows "pick_eligible T now = (if eligible T now = {} then None else Some (snd (Min (eligible T now))))"
proof (cases "pick_eligible T now")
  case None
  then have "\<forall>(k, f)\<in>entries T. now < virtual_start k"
    using pick_eligible_spec [OF inv, of now] by (simp add: contents_entries [OF inv])
  then have "eligible T now = {}" by (fastforce simp: eligible_def)
  then show ?thesis using None by simp
next
  case (Some k)
  then obtain f where f: "(k, f) \<in> entries T" "virtual_start k \<le> now"
    "\<forall>(k', f')\<in>entries T. virtual_start k' \<le> now \<longrightarrow> f < f' \<or> f = f' \<and> k \<le> k'"
    using pick_eligible_spec [OF inv, of now] by (auto simp: contents_entries [OF inv])
  then have "Min (eligible T now) = (f, k)" by (intro Min_eqI finite_eligible) (auto simp: eligible_def)
  moreover have "eligible T now \<noteq> {}" using f by (auto simp: eligible_def)
  ultimately show ?thesis using Some by simp
qed

lemma pick_eligible_least:
  assumes "tree_inv T t"
  shows "case pick_eligible T now of
      None \<Rightarrow> (\<forall>key finish. (key, finish) \<in> entries T \<longrightarrow> now < virtual_start key)
    | Some key \<Rightarrow> (\<exists>finish. (key, finish) \<in> entries T \<and> virtual_start key \<le> now
        \<and> (\<forall>key' finish'. (key', finish') \<in> entries T \<and> virtual_start key' \<le> now \<longrightarrow> finish \<le> finish'))"
proof (cases "eligible T now = {}")
  case True
  then show ?thesis using pick_eligible_min [OF assms, of now] by (auto simp: eligible_def not_le)
next
  case False
  obtain f k where m: "Min (eligible T now) = (f, k)" by fastforce
  then have "(f, k) \<in> eligible T now" using Min_in [OF finite_eligible False] by simp
  moreover have "f \<le> f'" if "(k', f') \<in> entries T" "virtual_start k' \<le> now" for k' f'
  proof -
    have "(f', k') \<in> eligible T now" using that by (auto simp: eligible_def)
    then have "(f, k) \<le> (f', k')" using Min_le [OF finite_eligible] m by metis
    then show ?thesis by auto
  qed
  ultimately show ?thesis using pick_eligible_min [OF assms, of now] False m by (auto simp: eligible_def)
qed

lemma lower_min: "lower None m = m" "lower (Some l) m = min l m"
  by (auto simp: lower_def min_def)

lemma lower_Min:
  assumes "finite A" "A \<noteq> {}"
  shows "lower None (Min A) = Min A" "finite B \<Longrightarrow> B \<noteq> {} \<Longrightarrow> lower (Some (Min B)) (Min A) = Min (B \<union> A)"
  using assms by (simp_all add: lower_min Min_Un)

lemma aug_min:
  "aug ns t \<Longrightarrow> min_of ns t = (if t = Leaf then None else Some (Min ((\<lambda>i. tn_finish (nd ns i)) ` set_tree t)))"
proof (induction t)
  case (Node l i r)
  let ?F = "\<lambda>i. tn_finish (nd ns i)"
  have "lower (min_of ns l) (?F i) = Min (?F ` set_tree l \<union> {?F i})"
    using Node lower_Min [of "{?F i}"] by (cases "l = Leaf") simp_all
  then have "node_min ns l i r = Min (?F ` set_tree r \<union> (?F ` set_tree l \<union> {?F i}))"
    using Node lower_Min [of "?F ` set_tree l \<union> {?F i}"] by (cases "r = Leaf") (simp_all add: node_min_def)
  moreover have "?F ` set_tree (Node l i r) = ?F ` set_tree r \<union> (?F ` set_tree l \<union> {?F i})" by auto
  ultimately show ?case using Node.prems by (simp add: min_of_def)
qed (simp add: min_of_def)

lemma root_min_finish:
  assumes inv: "tree_inv T t"
  shows "map_option (\<lambda>r. tn_min_finish (nd (et_nodes T) r)) (et_root T) = (if entries T = {} then None else Some (Min (snd ` entries T)))"
proof -
  have "snd ` entries T = (\<lambda>i. tn_finish (nd (et_nodes T) i)) ` set_tree t"
    by (simp add: contents_def image_image flip: contents_entries [OF inv])
  then show ?thesis using aug_min [OF tree_invD(5) [OF inv]] tree_invD(1) [OF inv] entries_empty_iff [OF inv] by (simp add: min_of_def)
qed

section \<open>Histories\<close>

inductive index_call :: "eevdf_tree \<Rightarrow> eevdf_tree \<Rightarrow> bool" where
  call_insert: "index_call T (snd (tree_insert key finish T))"
| call_remove: "index_call T (snd (tree_remove key T))"
| call_pop: "index_call T (snd (pop_min T))"

definition index_inv :: "nat \<Rightarrow> eevdf_tree \<Rightarrow> bool" where
  "index_inv cap T \<longleftrightarrow> length (et_nodes T) = cap \<and> (\<exists>t. tree_inv T t)"

lemma insert_spec:
  assumes "tree_inv T t"
  shows "tree_is_full T \<Longrightarrow> tree_insert key finish T = (Failed TreeFull, T)"
    "\<not> tree_is_full T \<Longrightarrow> key \<in> entry_keys T \<Longrightarrow> tree_insert key finish T = (Failed KeyNotFound, T)"
    "\<not> tree_is_full T \<Longrightarrow> key \<notin> entry_keys T \<Longrightarrow> \<exists>T' t'. tree_insert key finish T = (Done (), T') \<and> tree_inv T' t'
       \<and> length (et_nodes T') = length (et_nodes T) \<and> entries T' = insert (key, finish) (entries T)"
proof -
  note ks = entry_keys_def [of T, folded contents_entries [OF assms]]
  show "tree_is_full T \<Longrightarrow> tree_insert key finish T = (Failed TreeFull, T)"
    by (simp add: tree_is_full_def tree_insert_def reserve_slot_def and_then_def)
  show "\<not> tree_is_full T \<Longrightarrow> key \<in> entry_keys T \<Longrightarrow> tree_insert key finish T = (Failed KeyNotFound, T)"
    using insert_present [OF assms] by (simp add: tree_is_full_def ks)
  assume room: "\<not> tree_is_full T" and key: "key \<notin> entry_keys T"
  then obtain T' t' where "tree_insert key finish T = (Done (), T')" "tree_inv T' t'"
    "contents T' t' = insert (key, finish) (contents T t)" "length (et_nodes T') = length (et_nodes T)"
    using insert_absent [OF assms, of key finish] by (auto simp: tree_is_full_def ks)
  then show "\<exists>T' t'. tree_insert key finish T = (Done (), T') \<and> tree_inv T' t'
       \<and> length (et_nodes T') = length (et_nodes T) \<and> entries T' = insert (key, finish) (entries T)"
    using contents_entries [OF assms] contents_entries [of T' t'] by blast
qed

lemma pop_min_empty: "tree_inv T t \<Longrightarrow> entries T = {} \<Longrightarrow> pop_min T = (Done None, T)"
  using tree_invD(1) [of T t] entries_empty_iff [of T t] by (simp add: pop_min_def)

lemma index_call_inv:
  assumes "index_inv cap T" "index_call T T'"
  shows "index_inv cap T'"
proof -
  obtain t where t: "length (et_nodes T) = cap" "tree_inv T t" using assms(1) by (auto simp: index_inv_def)
  show ?thesis
    using assms(2)
  proof cases
    case (call_insert key finish)
    then show ?thesis using insert_spec [OF t(2), of key finish] assms(1) t(1)
      by (cases "tree_is_full T"; cases "key \<in> entry_keys T") (auto simp: index_inv_def)
  next
    case (call_remove key)
    then show ?thesis using remove_spec [OF t(2), of key] assms(1) t(1)
      by (cases "key \<in> entry_keys T") (auto simp: index_inv_def)
  next
    case call_pop
    then show ?thesis using pop_min_empty [OF t(2)] pop_min_spec [OF t(2)] assms(1) t(1)
      by (cases "entries T = {}") (auto simp: index_inv_def)
  qed
qed

interpretation index_tree: invariant_machine "\<lambda>T. T = tree_new cap" index_call "index_inv cap" for cap
proof
  show "T = tree_new cap \<Longrightarrow> index_inv cap T" for T
    using tree_new_inv [of cap] by (auto simp: index_inv_def tree_new_def)
qed (rule index_call_inv)

lemma index_reached:
  assumes "index_call\<^sup>*\<^sup>* (tree_new cap) T"
  obtains t where "tree_inv T t" "length (et_nodes T) = cap"
  using index_tree.reachable_inv [OF refl assms] by (auto simp: index_inv_def)

text \<open>
  C11: Over any history of inserts, removals and pops from an empty tree of \<open>cap\<close> slots, the tree is a
  set of entries: an insert fails with \<open>Full\<close> exactly when \<open>cap\<close> entries are held, with \<open>NotFound\<close> when
  the key is present, and otherwise adds the entry; a removal takes out exactly the entry of its
  key and fails only when there is none; a pop takes out the least key. Failing calls keep the
  entries, and no call panics, runs out of fuel or reports a broken invariant.
\<close>

theorem index_updates:
  assumes "index_call\<^sup>*\<^sup>* (tree_new cap) T"
  shows "fst (tree_insert key finish T) =
      (if card (entries T) = cap then Failed TreeFull else if key \<in> entry_keys T then Failed KeyNotFound else Done ())
    \<and> entries (snd (tree_insert key finish T)) =
      (if card (entries T) < cap \<and> key \<notin> entry_keys T then insert (key, finish) (entries T) else entries T)
    \<and> fst (tree_remove key T) = (if key \<in> entry_keys T then Done () else Failed KeyNotFound)
    \<and> entries (snd (tree_remove key T)) = {e \<in> entries T. fst e \<noteq> key}
    \<and> fst (pop_min T) = Done (if entries T = {} then None else Some (Min (entry_keys T)))
    \<and> entries (snd (pop_min T)) = {e \<in> entries T. fst e \<noteq> Min (entry_keys T)}
    \<and> et_len T = card (entries T) \<and> card (entries T) \<le> cap"
proof -
  obtain t where t: "tree_inv T t" "length (et_nodes T) = cap" by (rule index_reached [OF assms])
  have le: "card (entries T) \<le> cap" "et_len T = card (entries T)"
    using card_entries [OF t(1)] t shape_invD(4,10) [of T t] by (simp_all add: tree_inv_shape)
  have keep: "{e \<in> entries T. fst e \<noteq> key} = entries T" if "key \<notin> entry_keys T" using that by (auto simp: entry_keys_def)
  have ins: "fst (tree_insert key finish T) =
      (if card (entries T) = cap then Failed TreeFull else if key \<in> entry_keys T then Failed KeyNotFound else Done ())
    \<and> entries (snd (tree_insert key finish T)) =
      (if card (entries T) < cap \<and> key \<notin> entry_keys T then insert (key, finish) (entries T) else entries T)"
  proof -
    consider "tree_is_full T" | "\<not> tree_is_full T" "key \<in> entry_keys T" | "\<not> tree_is_full T" "key \<notin> entry_keys T" by blast
    then show ?thesis
    proof cases
      case 3
      obtain T' where "tree_insert key finish T = (Done (), T')" "entries T' = insert (key, finish) (entries T)"
        using insert_spec(3) [OF t(1) 3, of finish] by blast
      then show ?thesis using 3 full_iff [OF t(1)] t(2) le(1) by simp
    qed (use insert_spec(1,2) [OF t(1)] full_iff [OF t(1)] t(2) in simp_all)
  qed
  have rem: "fst (tree_remove key T) = (if key \<in> entry_keys T then Done () else Failed KeyNotFound)
    \<and> entries (snd (tree_remove key T)) = {e \<in> entries T. fst e \<noteq> key}"
  proof (cases "key \<in> entry_keys T")
    case True
    then obtain T' where "tree_remove key T = (Done (), T')" "entries T' = {e \<in> entries T. fst e \<noteq> key}"
      using remove_spec(2) [OF t(1)] by blast
    then show ?thesis using True by simp
  qed (simp add: remove_spec(1) [OF t(1)] keep)
  have "fst (pop_min T) = Done (if entries T = {} then None else Some (Min (entry_keys T)))
    \<and> entries (snd (pop_min T)) = {e \<in> entries T. fst e \<noteq> Min (entry_keys T)}"
  proof (cases "entries T = {}")
    case False
    then obtain T' where "pop_min T = (Done (Some (Min (entry_keys T))), T')" "entries T' = {e \<in> entries T. fst e \<noteq> Min (entry_keys T)}"
      using pop_min_spec [OF t(1)] by blast
    then show ?thesis using False by simp
  qed (simp add: pop_min_empty [OF t(1)])
  with ins rem le show ?thesis by blast
qed

theorem index_updates_witness:
  "let T = snd (tree_insert (EevdfKey 5 1) 9 (tree_new 2)) in
     fst (pop_min T) = Done (Some (EevdfKey 5 1)) \<and> entries (snd (pop_min T)) = {}
     \<and> fst (tree_insert (EevdfKey 5 1) 7 T) = Failed KeyNotFound"
proof -
  let ?T = "snd (tree_insert (EevdfKey 5 1) 9 (tree_new 2))"
  have "entries ?T = {(EevdfKey 5 1, 9)}"
    using index_updates [of 2 "tree_new 2" "EevdfKey 5 1" 9] by (simp add: entry_keys_def)
  moreover have "index_call\<^sup>*\<^sup>* (tree_new 2) ?T" by (intro r_into_rtranclp call_insert)
  ultimately show ?thesis
    using index_updates [of 2 ?T "EevdfKey 5 1" 7] by (simp add: entry_keys_def Let_def)
qed

text \<open>
  C33: Over the same histories the queries answer from the set of entries: membership, the least key
  and its virtual start, and all keys in order. The pick at a virtual time answers nothing exactly when
  no entry is eligible, and otherwise an eligible entry of least finish; where the least finish is
  attained once this is the choice of the policy, and between equal finishes nothing more is
  claimed. The root keeps the least finish of all entries.
\<close>

theorem index_queries:
  assumes "index_call\<^sup>*\<^sup>* (tree_new cap) T"
  shows "(tree_contains T key \<longleftrightarrow> key \<in> entry_keys T)
    \<and> peek_min T = (if entries T = {} then None else Some (Min (entry_keys T)))
    \<and> min_start T = (if entries T = {} then None else Some (virtual_start (Min (entry_keys T))))
    \<and> collect_sorted T = sorted_list_of_set (entry_keys T)
    \<and> (case pick_eligible T now of
         None \<Rightarrow> (\<forall>key finish. (key, finish) \<in> entries T \<longrightarrow> now < virtual_start key)
       | Some key \<Rightarrow> (\<exists>finish. (key, finish) \<in> entries T \<and> virtual_start key \<le> now
           \<and> (\<forall>key' finish'. (key', finish') \<in> entries T \<and> virtual_start key' \<le> now \<longrightarrow> finish \<le> finish')))
    \<and> map_option (\<lambda>r. tn_min_finish (nd (et_nodes T) r)) (et_root T)
        = (if entries T = {} then None else Some (Min (snd ` entries T)))"
proof -
  obtain t where t: "tree_inv T t" "length (et_nodes T) = cap" by (rule index_reached [OF assms])
  have "min_start T = map_option virtual_start (peek_min T)" by (simp add: min_start_def peek_min_def)
  then show ?thesis
    using contains_iff [OF t(1), of key] peek_min_spec [OF t(1)] collect_sorted_keys [OF t(1)] pick_eligible_least [OF t(1), of now]
      root_min_finish [OF t(1)] by (simp add: entry_keys_def contents_entries [OF t(1)])
qed

theorem index_queries_witness:
  "let T = snd (tree_insert (EevdfKey 3 2) 12 (snd (tree_insert (EevdfKey 5 1) 9 (tree_new 2)))) in
     tree_contains T (EevdfKey 5 1) \<and> pick_eligible T 5 = Some (EevdfKey 5 1) \<and> pick_eligible T 4 = Some (EevdfKey 3 2)
     \<and> pick_eligible T 2 = None"
proof -
  let ?T1 = "snd (tree_insert (EevdfKey 5 1) 9 (tree_new 2))" let ?T = "snd (tree_insert (EevdfKey 3 2) 12 ?T1)"
  have "\<not> tree_is_full (tree_new 2)" "EevdfKey 5 1 \<notin> entry_keys (tree_new 2)"
    by (simp_all add: tree_is_full_def tree_new_def entry_keys_def entries_def)
  then obtain T' where "tree_insert (EevdfKey 5 1) 9 (tree_new 2) = (Done (), T')"
    "entries T' = insert (EevdfKey 5 1, 9) (entries (tree_new 2))"
    using insert_spec(3) [OF tree_new_inv] by blast
  then have e1: "entries ?T1 = {(EevdfKey 5 1, 9)}" by simp
  have r1: "index_call\<^sup>*\<^sup>* (tree_new 2) ?T1" by (intro r_into_rtranclp call_insert)
  obtain t where t: "tree_inv ?T1 t" "length (et_nodes ?T1) = 2" by (rule index_reached [OF r1])
  have "\<not> tree_is_full ?T1" using full_iff [OF t(1)] t(2) e1 by simp
  moreover have "EevdfKey 3 2 \<notin> entry_keys ?T1" by (simp add: entry_keys_def e1)
  ultimately obtain T2 where "tree_insert (EevdfKey 3 2) 12 ?T1 = (Done (), T2)"
    "entries T2 = insert (EevdfKey 3 2, 12) (entries ?T1)"
    using insert_spec(3) [OF t(1)] by blast
  then have e: "entries ?T = {(EevdfKey 3 2, 12), (EevdfKey 5 1, 9)}" by (simp add: e1)
  have run: "index_call\<^sup>*\<^sup>* (tree_new 2) ?T" using r1 by (rule rtranclp.rtrancl_into_rtrancl) (rule call_insert)
  note q = index_queries [OF run]
  have "tree_contains ?T (EevdfKey 5 1)" using q [of "EevdfKey 5 1"] by (simp add: entry_keys_def e)
  moreover have pick: "case pick_eligible ?T now of
      None \<Rightarrow> (\<forall>key finish. (key, finish) \<in> entries ?T \<longrightarrow> now < virtual_start key)
    | Some key \<Rightarrow> (\<exists>finish. (key, finish) \<in> entries ?T \<and> virtual_start key \<le> now
        \<and> (\<forall>key' finish'. (key', finish') \<in> entries ?T \<and> virtual_start key' \<le> now \<longrightarrow> finish \<le> finish'))" for now
    using q by blast
  moreover have "pick_eligible ?T 5 = Some (EevdfKey 5 1)"
  proof (cases "pick_eligible ?T 5")
    case (Some k)
    then obtain f where f: "(k, f) \<in> entries ?T"
      "\<forall>key' finish'. (key', finish') \<in> entries ?T \<and> virtual_start key' \<le> 5 \<longrightarrow> f \<le> finish'"
      using pick [of 5] by auto
    have "f \<le> 9" using f(2) [rule_format, of "EevdfKey 5 1" 9] by (simp add: e)
    then show ?thesis using f(1) Some by (auto simp: e)
  qed (use pick [of 5] e in auto)
  moreover have "pick_eligible ?T 4 = Some (EevdfKey 3 2)"
    using pick [of 4] unfolding e by (cases "pick_eligible ?T 4") auto
  moreover have "pick_eligible ?T 2 = None"
    using pick [of 2] unfolding e by (cases "pick_eligible ?T 2") auto
  ultimately show ?thesis by (simp add: Let_def)
qed

text \<open>No call ever changes a rank, so the rebalancing loops never rotate.\<close>

lemma ranks_stay_zero:
  assumes "index_call\<^sup>*\<^sup>* (tree_new cap) T" "Some n \<in> set (et_nodes T)"
  shows "tn_rank n = 0"
proof -
  obtain t where t: "tree_inv T t" "length (et_nodes T) = cap" by (rule index_reached [OF assms(1)])
  obtain i where i: "i \<in> set_tree t" "n = nd (et_nodes T) i" using assms(2) slots_used [OF t(1)] by blast
  show ?thesis using linked_get [OF tree_invD(2) [OF t(1)] i(1)] get_Node [OF i(1)] i(2) by auto
qed

end
