(* ===== verification/Cbs_Admission.thy ===== *)
theory Cbs_Admission
  imports Cpu_Mask Complex_Main
begin

unbundle bit_operations_syntax

text \<open>
  Constant-bandwidth reservations, their admission and the two-phase migration of a reservation
  (\<open>huesos-sched/src/lib.rs\<close>, \<open>CbsReservation\<close>, \<open>AdmissionControl\<close>, \<open>CbsMigration\<close>).
  Utilization is rounded up in parts per million, so that the sum of the exact utilizations of the
  admitted reservations stays below the ceiling. A migration moves through its phases in one order,
  whatever calls are made on it: the target is reserved before the source is detached or released.
\<close>

section \<open>Reservations\<close>

definition DEFAULT_CBS_CEILING_PPM :: u32 where
  "DEFAULT_CBS_CEILING_PPM = 800000"

record cbs_reservation =
  cr_capacity_ns :: u64
  cr_deadline_ns :: u64
  cr_period_ns :: u64

datatype admission_error = Zero | InvalidOrder | AdmissionArithmetic | Overcommitted | NotReserved

definition cbs_reservation_new :: "u64 \<Rightarrow> u64 \<Rightarrow> u64 \<Rightarrow> admission_error + cbs_reservation" where
  "cbs_reservation_new capacity_ns deadline_ns period_ns =
     (if capacity_ns = 0 \<or> deadline_ns = 0 \<or> period_ns = 0 then Inl Zero
      else if deadline_ns < capacity_ns \<or> period_ns < deadline_ns then Inl InvalidOrder
      else Inr \<lparr>cr_capacity_ns = capacity_ns, cr_deadline_ns = deadline_ns, cr_period_ns = period_ns\<rparr>)"

definition utilization_ppm :: "cbs_reservation \<Rightarrow> admission_error + u32" where
  "utilization_ppm r =
     (case checked_mul (ucast (cr_capacity_ns r)) (1000000 :: u128) of
        None \<Rightarrow> Inl AdmissionArithmetic
      | Some scaled \<Rightarrow>
          let ppm = div_ceil scaled (ucast (cr_period_ns r)) in
          if unat ppm < 2 ^ 32 then Inr (ucast ppm) else Inl AdmissionArithmetic)"

definition reservation_wf :: "cbs_reservation \<Rightarrow> bool" where
  "reservation_wf r \<longleftrightarrow> 0 < unat (cr_capacity_ns r) \<and> unat (cr_capacity_ns r) \<le> unat (cr_deadline_ns r)
     \<and> unat (cr_deadline_ns r) \<le> unat (cr_period_ns r)"

lemma reservation_new_wf: "cbs_reservation_new c d p = Inr r \<Longrightarrow> reservation_wf r"
  by (auto simp: cbs_reservation_new_def reservation_wf_def not_less word_le_nat_alt unat_gt_0
      split: if_splits)

lemma ceil_div_le: "0 < n \<Longrightarrow> x \<le> k * n \<Longrightarrow> (x + n - 1) div n \<le> (k :: nat)"
proof -
  assume "0 < n" "x \<le> k * n"
  then have "x + n - 1 < (k + 1) * n" by simp
  then have "(x + n - 1) div n < k + 1" using \<open>0 < n\<close> by (simp add: div_less_iff_less_mult)
  then show ?thesis by simp
qed

lemma utilization_value:
  assumes "reservation_wf r"
  obtains ppm where "utilization_ppm r = Inr ppm" "unat ppm \<le> 1000000"
    "unat ppm = (unat (cr_capacity_ns r) * 1000000 + unat (cr_period_ns r) - 1) div unat (cr_period_ns r)"
proof -
  let ?c = "unat (cr_capacity_ns r)" and ?p = "unat (cr_period_ns r)"
  have p: "0 < ?p" "?c \<le> ?p" using assms by (simp_all add: reservation_wf_def)
  have "?c < 2 ^ 64" using unat_lt_pow [of "cr_capacity_ns r"] by simp
  then obtain n :: u128 where n: "checked_mul (ucast (cr_capacity_ns r)) 1000000 = Some n" "unat n = ?c * 1000000"
    by (auto simp: checked_mul_def unat_mult_nowrap unat_ucast_up)
  let ?w = "ucast (cr_period_ns r) :: u128"
  have w: "unat ?w = ?p" by (simp add: unat_ucast_up)
  have d: "unat (div_ceil n ?w) = (?c * 1000000 + ?p - 1) div ?p"
    using unat_div_ceil [of ?w n] p by (simp add: w n(2))
  have le: "(?c * 1000000 + ?p - 1) div ?p \<le> 1000000"
    using ceil_div_le [OF p(1), of "?c * 1000000" 1000000] p(2) by simp
  have u: "unat (ucast (div_ceil n ?w) :: u32) = unat (div_ceil n ?w)"
    using le by (simp add: unsigned_ucast_eq take_bit_nat_eq_self d)
  have "utilization_ppm r = Inr (ucast (div_ceil n ?w))"
    using le by (simp add: utilization_ppm_def n(1) d)
  with that le d u show ?thesis by simp
qed

section \<open>Admission\<close>

record admission_control =
  ac_ceiling_ppm :: u32
  ac_admitted_ppm :: u32

definition admission_control_new :: "u32 \<Rightarrow> admission_control option" where
  "admission_control_new ceiling_ppm =
     (if ceiling_ppm = 0 \<or> 1000000 < ceiling_ppm then None
      else Some \<lparr>ac_ceiling_ppm = ceiling_ppm, ac_admitted_ppm = 0\<rparr>)"

definition production_default :: admission_control where
  "production_default = \<lparr>ac_ceiling_ppm = DEFAULT_CBS_CEILING_PPM, ac_admitted_ppm = 0\<rparr>"

definition admission_reserve ::
  "admission_control \<Rightarrow> cbs_reservation \<Rightarrow> (admission_error + u32) \<times> admission_control" where
  "admission_reserve a reservation =
     (case utilization_ppm reservation of
        Inl e \<Rightarrow> (Inl e, a)
      | Inr ppm \<Rightarrow>
          (case checked_add (ac_admitted_ppm a) ppm of
             None \<Rightarrow> (Inl AdmissionArithmetic, a)
           | Some nxt \<Rightarrow>
               if ac_ceiling_ppm a < nxt then (Inl Overcommitted, a)
               else (Inr ppm, a\<lparr>ac_admitted_ppm := nxt\<rparr>)))"

definition release_ppm :: "admission_control \<Rightarrow> u32 \<Rightarrow> (admission_error + unit) \<times> admission_control" where
  "release_ppm a ppm =
     (case checked_sub (ac_admitted_ppm a) ppm of
        None \<Rightarrow> (Inl NotReserved, a)
      | Some rest \<Rightarrow> (Inr (), a\<lparr>ac_admitted_ppm := rest\<rparr>))"

text \<open>
  A CPU with the list of its admitted reservations, each with the utilization the reservation
  returned; a release hands back exactly such a utilization.
\<close>

record admission_world =
  aw_control :: admission_control
  aw_live :: "(cbs_reservation \<times> u32) list"

inductive admission_step :: "admission_world \<Rightarrow> admission_world \<Rightarrow> bool" where
  reserved: "reservation_wf r \<Longrightarrow> admission_reserve (aw_control w) r = (Inr ppm, a') \<Longrightarrow>
     admission_step w \<lparr>aw_control = a', aw_live = (r, ppm) # aw_live w\<rparr>"
| refused: "admission_reserve (aw_control w) r = (Inl e, a') \<Longrightarrow> admission_step w (w\<lparr>aw_control := a'\<rparr>)"
| released: "(r, ppm) \<in> set (aw_live w) \<Longrightarrow> release_ppm (aw_control w) ppm = (Inr (), a') \<Longrightarrow>
     admission_step w \<lparr>aw_control = a', aw_live = remove1 (r, ppm) (aw_live w)\<rparr>"

definition admission_start :: "admission_world \<Rightarrow> bool" where
  "admission_start w \<longleftrightarrow> aw_live w = [] \<and>
     (\<exists>ceiling. admission_control_new ceiling = Some (aw_control w))"

definition admission_inv :: "admission_world \<Rightarrow> bool" where
  "admission_inv w \<longleftrightarrow>
     unat (ac_admitted_ppm (aw_control w)) = sum_list (map (unat \<circ> snd) (aw_live w))
   \<and> unat (ac_admitted_ppm (aw_control w)) \<le> unat (ac_ceiling_ppm (aw_control w))
   \<and> unat (ac_ceiling_ppm (aw_control w)) \<le> 1000000
   \<and> (\<forall>r ppm. (r, ppm) \<in> set (aw_live w) \<longrightarrow> reservation_wf r \<and> utilization_ppm r = Inr ppm)"

lemma admission_step_inv: "admission_step w w' \<Longrightarrow> admission_inv w \<Longrightarrow> admission_inv w'"
proof (induction rule: admission_step.induct)
  case (reserved r w ppm a')
  then show ?case
    by (auto simp: admission_inv_def admission_reserve_def checked_add_Some not_less word_le_nat_alt
        split: sum.splits option.splits if_splits)
next
  case (refused w r e a')
  then have "a' = aw_control w"
    by (auto simp: admission_reserve_def split: sum.splits option.splits if_splits)
  with refused.prems show ?case by simp
next
  case (released r ppm w a')
  have "sum_list (map (unat \<circ> snd) (aw_live w)) =
      unat ppm + sum_list (map (unat \<circ> snd) (remove1 (r, ppm) (aw_live w)))"
    using sum_list_map_remove1 [OF released.hyps(1), of "unat \<circ> snd"] by simp
  with released show ?case
    by (auto simp: admission_inv_def release_ppm_def checked_sub_Some dest: notin_set_remove1
        split: option.splits)
qed

lemma admission_start_inv: "admission_start w \<Longrightarrow> admission_inv w"
  by (cases "aw_control w") (auto simp: admission_start_def admission_inv_def admission_control_new_def
      not_less word_le_nat_alt split: if_splits)

interpretation admission: invariant_machine admission_start admission_step admission_inv
  by unfold_locales (auto intro: admission_start_inv admission_step_inv)

definition exact_ppm :: "cbs_reservation \<Rightarrow> real" where
  "exact_ppm r = real (unat (cr_capacity_ns r)) / real (unat (cr_period_ns r)) * 1000000"

lemma ratio_le: "0 < p \<Longrightarrow> c * 1000000 \<le> q * p \<Longrightarrow> real c / real p * 1000000 \<le> real q"
proof -
  assume "0 < p" "c * 1000000 \<le> q * p"
  then have "real (c * 1000000) \<le> real (q * p)" by (simp only: of_nat_le_iff)
  with \<open>0 < p\<close> show ?thesis by (simp add: field_simps)
qed

lemma exact_le_ppm:
  assumes "reservation_wf r" "utilization_ppm r = Inr ppm"
  shows "exact_ppm r \<le> real (unat ppm)"
proof -
  let ?c = "unat (cr_capacity_ns r)" and ?p = "unat (cr_period_ns r)"
  have p: "0 < ?p" using assms(1) by (simp add: reservation_wf_def)
  obtain ppm' where "utilization_ppm r = Inr ppm'" "unat ppm' = (?c * 1000000 + ?p - 1) div ?p"
    by (rule utilization_value [OF assms(1)])
  then have v: "unat ppm = (?c * 1000000 + ?p - 1) div ?p" using assms(2) by simp
  have "?c * 1000000 \<le> unat ppm * ?p"
    using div_mult_mod_eq [of "?c * 1000000 + ?p - 1" ?p] mod_less_divisor [OF p, of "?c * 1000000 + ?p - 1"] p
    unfolding v by linarith
  then show ?thesis unfolding exact_ppm_def by (rule ratio_le [OF p])
qed

lemma sum_exact_le_ppm:
  "\<forall>r ppm. (r, ppm) \<in> set xs \<longrightarrow> reservation_wf r \<and> utilization_ppm r = Inr ppm \<Longrightarrow>
     sum_list (map (exact_ppm \<circ> fst) xs) \<le> real (sum_list (map (unat \<circ> snd) xs))"
proof (induction xs)
  case (Cons x xs)
  obtain r ppm where x: "x = (r, ppm)" by force
  with Cons.prems have "exact_ppm r \<le> real (unat ppm)" by (intro exact_le_ppm) auto
  moreover have "sum_list (map (exact_ppm \<circ> fst) xs) \<le> real (sum_list (map (unat \<circ> snd) xs))"
    by (rule Cons.IH) (use Cons.prems in auto)
  ultimately show ?case unfolding x by (simp only: list.simps sum_list.Cons o_def fst_conv snd_conv of_nat_add)
qed simp

text \<open>
  C12: the processor is never overcommitted. Over any history of admissions, refusals and releases,
  the sum of the exact utilizations (capacity over period) of the admitted reservations, in parts
  per million, is at most the configured ceiling, which is at most the whole processor.
\<close>

theorem admission_never_overcommits:
  assumes "admission_start w0" "admission_step\<^sup>*\<^sup>* w0 w"
  shows "sum_list (map (exact_ppm \<circ> fst) (aw_live w)) \<le> real (unat (ac_ceiling_ppm (aw_control w)))
    \<and> unat (ac_ceiling_ppm (aw_control w)) \<le> 1000000"
proof -
  have inv: "admission_inv w" by (rule admission.reachable_inv [OF assms])
  then have "sum_list (map (exact_ppm \<circ> fst) (aw_live w)) \<le> real (sum_list (map (unat \<circ> snd) (aw_live w)))"
    by (intro sum_exact_le_ppm) (simp add: admission_inv_def)
  moreover have "real (sum_list (map (unat \<circ> snd) (aw_live w))) \<le> real (unat (ac_ceiling_ppm (aw_control w)))"
    using inv unfolding admission_inv_def of_nat_le_iff by metis
  moreover have "unat (ac_ceiling_ppm (aw_control w)) \<le> 1000000"
    using inv by (simp add: admission_inv_def)
  ultimately show ?thesis by (blast intro: order_trans)
qed

definition sample_reservation :: cbs_reservation where
  "sample_reservation = \<lparr>cr_capacity_ns = 1, cr_deadline_ns = 3, cr_period_ns = 3\<rparr>"

theorem admission_never_overcommits_witness:
  "\<exists>w0 w. admission_start w0 \<and> admission_step\<^sup>*\<^sup>* w0 w \<and> aw_live w = [(sample_reservation, 333334)]
     \<and> exact_ppm sample_reservation \<le> real (unat (ac_ceiling_ppm (aw_control w)))"
proof -
  let ?start = "\<lparr>aw_control = production_default, aw_live = []\<rparr>"
  have start: "admission_start ?start"
    by (simp add: admission_start_def admission_control_new_def production_default_def
        DEFAULT_CBS_CEILING_PPM_def exI [of _ 800000])
  have wf: "reservation_wf sample_reservation"
    by (simp add: reservation_wf_def sample_reservation_def)
  have res: "admission_reserve production_default sample_reservation =
      (Inr 333334, production_default\<lparr>ac_admitted_ppm := 333334\<rparr>)"
    by (simp add: admission_reserve_def utilization_ppm_def sample_reservation_def production_default_def
        DEFAULT_CBS_CEILING_PPM_def checked_mul_def checked_add_def div_ceil_def Let_def)
  let ?w = "\<lparr>aw_control = production_default\<lparr>ac_admitted_ppm := 333334\<rparr>, aw_live = [(sample_reservation, 333334)]\<rparr>"
  have "admission_step ?start ?w"
    using admission_step.reserved [OF wf, of ?start] res by simp
  then have run: "admission_step\<^sup>*\<^sup>* ?start ?w" by simp
  show ?thesis
    using admission_never_overcommits [OF start run] start run
    by (intro exI [of _ ?start] exI [of _ ?w]) simp
qed

section \<open>Two-phase migration of a reservation\<close>

datatype cbs_migration_state =
    Proposed | TargetReserved | SourceDetached | TargetCommitted | Complete | RolledBack

record cbs_migration =
  cg_generation :: u64
  cg_source :: cpu_index
  cg_target :: cpu_index
  cg_utilization_ppm :: u32
  cg_state :: cbs_migration_state

datatype cbs_migration_error = CbsSameCpu | ZeroGeneration | CbsWrongState

definition migration_propose ::
  "u64 \<Rightarrow> cpu_index \<Rightarrow> cpu_index \<Rightarrow> u32 \<Rightarrow> cbs_migration_error + cbs_migration" where
  "migration_propose generation source target ppm =
     (if generation = 0 then Inl ZeroGeneration
      else if as_usize source = as_usize target then Inl CbsSameCpu
      else Inr \<lparr>cg_generation = generation, cg_source = source, cg_target = target,
                cg_utilization_ppm = ppm, cg_state = Proposed\<rparr>)"

definition migration_transition ::
  "cbs_migration \<Rightarrow> cbs_migration_state \<Rightarrow> cbs_migration_state \<Rightarrow> (cbs_migration_error + unit) \<times> cbs_migration" where
  "migration_transition m expected nxt =
     (if cg_state m \<noteq> expected then (Inl CbsWrongState, m) else (Inr (), m\<lparr>cg_state := nxt\<rparr>))"

definition target_reserved :: "cbs_migration \<Rightarrow> (cbs_migration_error + unit) \<times> cbs_migration" where
  "target_reserved m = migration_transition m Proposed TargetReserved"

definition source_detached :: "cbs_migration \<Rightarrow> (cbs_migration_error + unit) \<times> cbs_migration" where
  "source_detached m = migration_transition m TargetReserved SourceDetached"

definition target_committed :: "cbs_migration \<Rightarrow> (cbs_migration_error + unit) \<times> cbs_migration" where
  "target_committed m = migration_transition m SourceDetached TargetCommitted"

definition source_released :: "cbs_migration \<Rightarrow> (cbs_migration_error + unit) \<times> cbs_migration" where
  "source_released m = migration_transition m TargetCommitted Complete"

definition migration_rollback :: "cbs_migration \<Rightarrow> (cbs_migration_error + unit) \<times> cbs_migration" where
  "migration_rollback m =
     (if cg_state m = Proposed \<or> cg_state m = TargetReserved \<or> cg_state m = SourceDetached
      then (Inr (), m\<lparr>cg_state := RolledBack\<rparr>)
      else (Inl CbsWrongState, m))"

text \<open>The calls of the protocol, and a history of them: the calls that succeeded so far, and the state.\<close>

datatype migration_event = ReserveTarget | DetachSource | CommitTarget | ReleaseSource | RollBack

definition migration_apply :: "cbs_migration \<Rightarrow> migration_event \<Rightarrow> (cbs_migration_error + unit) \<times> cbs_migration" where
  "migration_apply m ev =
     (case ev of
        ReserveTarget \<Rightarrow> target_reserved m
      | DetachSource \<Rightarrow> source_detached m
      | CommitTarget \<Rightarrow> target_committed m
      | ReleaseSource \<Rightarrow> source_released m
      | RollBack \<Rightarrow> migration_rollback m)"

inductive migration_call :: "migration_event list \<times> cbs_migration \<Rightarrow> migration_event list \<times> cbs_migration \<Rightarrow> bool" where
  accepted: "migration_apply m ev = (Inr (), m') \<Longrightarrow> migration_call (hist, m) (hist @ [ev], m')"
| refused: "migration_apply m ev = (Inl e, m') \<Longrightarrow> migration_call (hist, m) (hist, m')"

definition target_first :: "migration_event list" where
  "target_first = [ReserveTarget, DetachSource, CommitTarget, ReleaseSource]"

fun phase :: "cbs_migration_state \<Rightarrow> nat" where
  "phase Proposed = 0" | "phase TargetReserved = 1" | "phase SourceDetached = 2" | "phase TargetCommitted = 3"
| "phase Complete = 4" | "phase RolledBack = 5"

definition same_move :: "cbs_migration \<Rightarrow> cbs_migration \<Rightarrow> bool" where
  "same_move m m' \<longleftrightarrow> cg_generation m' = cg_generation m \<and> cg_source m' = cg_source m
     \<and> cg_target m' = cg_target m \<and> cg_utilization_ppm m' = cg_utilization_ppm m"

definition migration_inv :: "cbs_migration \<Rightarrow> migration_event list \<times> cbs_migration \<Rightarrow> bool" where
  "migration_inv m0 w \<longleftrightarrow> (case w of (hist, m) \<Rightarrow> same_move m0 m
     \<and> (if cg_state m = RolledBack then (\<exists>k \<le> 2. hist = take k target_first @ [RollBack])
        else hist = take (phase (cg_state m)) target_first))"

lemmas migration_defs = migration_apply_def target_reserved_def source_detached_def target_committed_def
  source_released_def migration_transition_def migration_rollback_def

lemma migration_refused: "migration_apply m ev = (Inl e, m') \<Longrightarrow> e = CbsWrongState \<and> m' = m"
  by (cases ev) (auto simp: migration_defs split: if_splits)

lemma migration_accepted:
  assumes "migration_apply m ev = (Inr (), m')"
  shows "same_move m m'"
    "(ev = RollBack \<and> phase (cg_state m) \<le> 2 \<and> cg_state m' = RolledBack)
     \<or> (phase (cg_state m) < 4 \<and> ev = target_first ! phase (cg_state m) \<and> phase (cg_state m') = Suc (phase (cg_state m)) \<and> cg_state m' \<noteq> RolledBack)"
  using assms by (cases ev; cases "cg_state m"; auto simp: migration_defs target_first_def same_move_def)+

lemma migration_call_inv:
  assumes "migration_inv m0 w" "migration_call w w'"
  shows "migration_inv m0 w'"
  using assms(2)
proof cases
  case (accepted m ev m' hist)
  have same: "same_move m0 m'"
    using migration_accepted(1) [OF accepted(3)] assms(1) accepted(1) by (simp add: migration_inv_def same_move_def)
  have live: "cg_state m \<noteq> RolledBack" using migration_accepted(2) [OF accepted(3)] by auto
  then have hist: "hist = take (phase (cg_state m)) target_first" using assms(1) accepted(1) by (simp add: migration_inv_def)
  from migration_accepted(2) [OF accepted(3)] show ?thesis
  proof (elim disjE conjE)
    assume "ev = RollBack" "phase (cg_state m) \<le> 2" "cg_state m' = RolledBack"
    then show ?thesis using same hist accepted(2) by (auto simp: migration_inv_def)
  next
    assume s: "phase (cg_state m) < 4" "ev = target_first ! phase (cg_state m)" "phase (cg_state m') = Suc (phase (cg_state m))"
      "cg_state m' \<noteq> RolledBack"
    have "phase (cg_state m) < length target_first" using s(1) by (simp add: target_first_def)
    then have "hist @ [ev] = take (Suc (phase (cg_state m))) target_first"
      unfolding hist s(2) by (rule take_Suc_conv_app_nth [symmetric])
    then show ?thesis using same s accepted(2) by (simp add: migration_inv_def)
  qed
next
  case (refused m ev e m' hist)
  then show ?thesis using assms(1) migration_refused by auto
qed

interpretation migration_protocol: invariant_machine "\<lambda>w. w = ([], m0) \<and> cg_state m0 = Proposed" migration_call "migration_inv m0" for m0
proof
  show "migration_inv m0 w" if "w = ([], m0) \<and> cg_state m0 = Proposed" for w
    using that by (simp add: migration_inv_def same_move_def)
qed (rule migration_call_inv)

text \<open>
  C28: the migration protocol is target first. A proposal needs a nonzero generation and two different
  processors. Over any history of calls on it, in any order, the calls that succeed are an initial
  part of: reserve the target, detach the source, commit the target, release the source; or one of
  the first three initial parts followed by a rollback, after which nothing succeeds. So the source
  is released only after the target was reserved and committed, never after a rollback, and there is
  no rollback after the commit. Every other call answers \<open>WrongState\<close> and changes nothing, no
  call changes the generation, the processors or the utilization, and the next call in the order is
  always accepted.
\<close>

theorem cbs_migration_target_first:
  assumes "migration_propose g source target u = Inr m0" "migration_call\<^sup>*\<^sup>* ([], m0) (hist, m)"
  shows "g \<noteq> 0 \<and> as_usize source \<noteq> as_usize target
    \<and> cg_generation m = g \<and> cg_source m = source \<and> cg_target m = target \<and> cg_utilization_ppm m = u
    \<and> (if cg_state m = RolledBack
        then hist \<in> {[RollBack], [ReserveTarget, RollBack], [ReserveTarget, DetachSource, RollBack]}
        else hist = take (phase (cg_state m)) [ReserveTarget, DetachSource, CommitTarget, ReleaseSource]
          \<and> phase (cg_state m) \<le> 4)
    \<and> (ReleaseSource \<in> set hist \<longrightarrow> cg_state m = Complete \<and> CommitTarget \<in> set hist \<and> RollBack \<notin> set hist)
    \<and> (migration_apply m ev = (Inl e, m') \<longrightarrow> e = CbsWrongState \<and> m' = m)
    \<and> (length hist < 4 \<and> RollBack \<notin> set hist \<longrightarrow>
        fst (migration_apply m ([ReserveTarget, DetachSource, CommitTarget, ReleaseSource] ! length hist)) = Inr ())"
proof -
  have p: "g \<noteq> 0" "as_usize source \<noteq> as_usize target"
    "m0 = \<lparr>cg_generation = g, cg_source = source, cg_target = target, cg_utilization_ppm = u, cg_state = Proposed\<rparr>"
    using assms(1) by (auto simp: migration_propose_def split: if_splits)
  then have inv: "migration_inv m0 (hist, m)" using migration_protocol.reachable_inv [OF _ assms(2)] by simp
  then have f: "cg_generation m = g" "cg_source m = source" "cg_target m = target" "cg_utilization_ppm m = u"
    using p(3) by (simp_all add: migration_inv_def same_move_def)
  have hist: "if cg_state m = RolledBack
        then hist \<in> {[RollBack], [ReserveTarget, RollBack], [ReserveTarget, DetachSource, RollBack]}
        else hist = take (phase (cg_state m)) [ReserveTarget, DetachSource, CommitTarget, ReleaseSource]
          \<and> phase (cg_state m) \<le> 4"
  proof (cases "cg_state m = RolledBack")
    case True
    then obtain k where "k \<le> 2" "hist = take k target_first @ [RollBack]" using inv by (auto simp: migration_inv_def)
    then show ?thesis using True by (auto simp: target_first_def le_Suc_eq numeral_2_eq_2)
  next
    case False
    then show ?thesis using inv by (cases "cg_state m") (simp_all add: migration_inv_def target_first_def)
  qed
  then have "ReleaseSource \<in> set hist \<longrightarrow> cg_state m = Complete \<and> CommitTarget \<in> set hist \<and> RollBack \<notin> set hist"
    "length hist < 4 \<and> RollBack \<notin> set hist \<longrightarrow>
        fst (migration_apply m ([ReserveTarget, DetachSource, CommitTarget, ReleaseSource] ! length hist)) = Inr ()"
    by (cases "cg_state m"; auto simp: migration_defs)+
  then show ?thesis using p(1,2) f hist migration_refused [of m ev e m'] by blast
qed

theorem cbs_migration_target_first_witness:
  "\<exists>m0 m. migration_propose 1 (CpuIndex 0) (CpuIndex 1) 7 = Inr m0
     \<and> migration_call\<^sup>*\<^sup>* ([], m0) ([ReserveTarget], m) \<and> cg_state m = TargetReserved \<and> cg_utilization_ppm m = 7
     \<and> fst (migration_apply m DetachSource) = Inr ()"
proof -
  define m0 where "m0 = \<lparr>cg_generation = 1, cg_source = CpuIndex 0, cg_target = CpuIndex 1, cg_utilization_ppm = 7,
      cg_state = Proposed\<rparr>"
  define m where "m = m0\<lparr>cg_state := TargetReserved\<rparr>"
  have p: "migration_propose 1 (CpuIndex 0) (CpuIndex 1) 7 = Inr m0"
    by (simp add: migration_propose_def as_usize_def m0_def)
  have "migration_apply m0 ReserveTarget = (Inr (), m)" by (simp add: migration_defs m_def m0_def)
  then have "migration_call ([], m0) ([] @ [ReserveTarget], m)" by (rule accepted)
  then have run: "migration_call\<^sup>*\<^sup>* ([], m0) ([ReserveTarget], m)" by simp
  have "cg_utilization_ppm m = 7" "fst (migration_apply m DetachSource) = Inr ()"
    using cbs_migration_target_first [OF p run] by simp_all
  then show ?thesis using p run by (intro exI [of _ m0] exI [of _ m]) (simp add: m_def)
qed

end
