(* ===== verification/Cbs_Runtime.thy ===== *)
theory Cbs_Runtime
  imports Cbs_Admission
begin

unbundle bit_operations_syntax

text \<open>
  The sporadic server that enforces a reservation at run time (\<open>huesos-sched/src/lib.rs\<close>,
  \<open>RefillRing\<close> and \<open>CbsRuntime\<close>): consumed budget is scheduled to return one period later, in a
  ring of bounded size that merges entries when it is full. The lemmas show that budget is
  never created, is lost only by a charge whose refill instant exceeds 64 bits, never returns early,
  and hence that no more than the reserved capacity is charged in any window of one period.
\<close>

section \<open>The refill ring\<close>

record refill =
  rf_eligible_ns :: u64
  rf_amount_ns :: u64

type_synonym refill_ring = "refill option list"

datatype refill_error = RefillInvalidConfiguration | ZeroAmount | RefillArithmetic

definition refill_ring_new :: "nat \<Rightarrow> refill_ring" where
  "refill_ring_new n = replicate n None"

definition ring_schedule :: "refill_ring \<Rightarrow> refill \<Rightarrow> (refill_error + unit) \<times> refill_ring" where
  "ring_schedule entries r =
     (if length entries = 0 then (Inl RefillInvalidConfiguration, entries)
      else if rf_amount_ns r = 0 then (Inl ZeroAmount, entries)
      else case position (\<lambda>entry. entry = None) entries of
          Some slot \<Rightarrow> (Inr (), entries[slot := Some r])
        | None \<Rightarrow>
            (case max_index (\<lambda>entry. case entry of None \<Rightarrow> 0 | Some value \<Rightarrow> rf_eligible_ns value) entries of
               None \<Rightarrow> (Inl RefillInvalidConfiguration, entries)
             | Some latest_index \<Rightarrow>
                 (case entries ! latest_index of
                    None \<Rightarrow> (Inl RefillInvalidConfiguration, entries)
                  | Some latest \<Rightarrow>
                      (case checked_add (rf_amount_ns latest) (rf_amount_ns r) of
                         None \<Rightarrow> (Inl RefillArithmetic, entries)
                       | Some amount \<Rightarrow> (Inr (), entries[latest_index := Some
                           \<lparr>rf_eligible_ns = max (rf_eligible_ns latest) (rf_eligible_ns r),
                            rf_amount_ns = amount\<rparr>])))))"

fun take_eligible_from :: "u64 \<Rightarrow> u64 \<Rightarrow> refill_ring \<Rightarrow> (refill_error + u64) \<times> refill_ring" where
  "take_eligible_from now_ns acc [] = (Inr acc, [])"
| "take_eligible_from now_ns acc (entry # entries) =
     (case entry of
        Some r \<Rightarrow>
          if rf_eligible_ns r \<le> now_ns then
            (case checked_add acc (rf_amount_ns r) of
               None \<Rightarrow> (Inl RefillArithmetic, None # entries)
             | Some acc' \<Rightarrow> map_prod (\<lambda>x. x) ((#) None) (take_eligible_from now_ns acc' entries))
          else map_prod (\<lambda>x. x) ((#) entry) (take_eligible_from now_ns acc entries)
      | None \<Rightarrow> map_prod (\<lambda>x. x) ((#) entry) (take_eligible_from now_ns acc entries))"

definition take_eligible :: "refill_ring \<Rightarrow> u64 \<Rightarrow> (refill_error + u64) \<times> refill_ring" where
  "take_eligible entries now_ns = take_eligible_from now_ns 0 entries"

definition next_eligible :: "refill_ring \<Rightarrow> u64 option" where
  "next_eligible entries = min_by_key (\<lambda>t. t) (map rf_eligible_ns (flatten entries))"

definition ring_len :: "refill_ring \<Rightarrow> nat" where
  "ring_len entries = length (filter (\<lambda>entry. entry \<noteq> None) entries)"

definition ring_is_empty :: "refill_ring \<Rightarrow> bool" where
  "ring_is_empty entries \<longleftrightarrow> list_all (\<lambda>entry. entry = None) entries"

text \<open>The budget in the ring that becomes eligible before a given instant, and all of it.\<close>

definition due :: "(u64 \<Rightarrow> bool) \<Rightarrow> refill_ring \<Rightarrow> nat" where
  "due P entries = sum_list (map (\<lambda>r. if P (rf_eligible_ns r) then unat (rf_amount_ns r) else 0) (flatten entries))"

lemma due_simps [simp]:
  "due P [] = 0" "due P (None # es) = due P es"
  "due P (Some r # es) = (if P (rf_eligible_ns r) then unat (rf_amount_ns r) else 0) + due P es"
  by (simp_all add: due_def)

lemma due_update:
  "i < length es \<Longrightarrow>
     due P (es[i := x]) + due P [es ! i] = due P es + due P [x]"
proof -
  assume "i < length es"
  then obtain ys zs where "flatten es = ys @ flatten [es ! i] @ zs"
    "\<And>x. flatten (es[i := x]) = ys @ flatten [x] @ zs"
    by (rule flatten_update) blast
  then show ?thesis by (simp add: due_def)
qed

lemma due_mono: "(\<And>t. P t \<Longrightarrow> Q t) \<Longrightarrow> due P es \<le> due Q es"
  by (induction es) (auto simp: due_def flatten_def)

lemma due_new [simp]: "due P (refill_ring_new n) = 0"
  by (simp add: due_def refill_ring_new_def)

text \<open>
  Scheduling adds exactly the amount, and adds nothing to what is due before an instant the new
  refill is not eligible at: merging only delays.
\<close>

lemma schedule_due:
  assumes "ring_schedule es r = (Inr (), es')"
  shows "due (\<lambda>_. True) es' = due (\<lambda>_. True) es + unat (rf_amount_ns r)"
    and "(\<And>t u. t \<le> u \<Longrightarrow> P u \<Longrightarrow> P t) \<Longrightarrow> \<not> P (rf_eligible_ns r) \<Longrightarrow> due P es' \<le> due P es"
    and "length es' = length es"
proof -
  obtain i new where i: "i < length es" "es' = es[i := Some new]"
    and new: "due (\<lambda>_. True) [Some new] = due (\<lambda>_. True) [es ! i] + unat (rf_amount_ns r)"
    "rf_eligible_ns r \<le> rf_eligible_ns new"
  proof (cases "position (\<lambda>entry. entry = None) es")
    case (Some i)
    then show ?thesis
      using assms position_SomeD [OF Some] that [of i r]
      by (auto simp: ring_schedule_def split: if_splits)
  next
    case None
    let ?key = "\<lambda>entry. case entry of None \<Rightarrow> 0 | Some value \<Rightarrow> rf_eligible_ns value"
    obtain i latest amount where "max_index ?key es = Some i" "es ! i = Some latest"
      "checked_add (rf_amount_ns latest) (rf_amount_ns r) = Some amount"
      "es' = es[i := Some \<lparr>rf_eligible_ns = max (rf_eligible_ns latest) (rf_eligible_ns r),
          rf_amount_ns = amount\<rparr>]"
      using assms None by (auto simp: ring_schedule_def split: if_splits option.splits)
    then show ?thesis
      using max_index_Some [of ?key es i] that [of i] by (simp add: checked_add_Some)
  qed
  show "due (\<lambda>_. True) es' = due (\<lambda>_. True) es + unat (rf_amount_ns r)"
    using due_update [OF i(1), of "\<lambda>_. True" "Some new"] new(1) i(2) by simp
  show "length es' = length es" using i(2) by simp
  assume "\<And>t u. t \<le> u \<Longrightarrow> P u \<Longrightarrow> P t" "\<not> P (rf_eligible_ns r)"
  then have "due P [Some new] = 0" using new(2) by auto
  then show "due P es' \<le> due P es"
    using due_update [OF i(1), of P "Some new"] i(2) by simp
qed

lemma take_eligible_from_exact:
  "unat acc + due (\<lambda>t. t \<le> now) es < 2 ^ 64 \<Longrightarrow>
     \<exists>acc'. take_eligible_from now acc es =
        (Inr acc', map (\<lambda>e. if \<exists>r. e = Some r \<and> rf_eligible_ns r \<le> now then None else e) es)
      \<and> unat acc' = unat acc + due (\<lambda>t. t \<le> now) es"
proof (induction es arbitrary: acc)
  case (Cons e es)
  show ?case
  proof (cases "\<exists>r. e = Some r \<and> rf_eligible_ns r \<le> now")
    case True
    then obtain r where r: "e = Some r" "rf_eligible_ns r \<le> now" by blast
    have lt: "unat acc + unat (rf_amount_ns r) < 2 ^ LENGTH(64)" using Cons.prems r by simp
    then have add: "unat (acc + rf_amount_ns r) = unat acc + unat (rf_amount_ns r)"
      by (rule unat_add_nowrap)
    have "checked_add acc (rf_amount_ns r) = Some (acc + rf_amount_ns r)"
      using lt by (simp add: checked_add_def)
    then show ?thesis
      using Cons.IH [of "acc + rf_amount_ns r"] Cons.prems r add by auto
  next
    case False
    then show ?thesis
      using Cons.IH [of acc] Cons.prems by (cases e) auto
  qed
qed simp

lemma due_taken:
  "due P es = due (\<lambda>t. P t \<and> t \<le> now) es
     + due P (map (\<lambda>e. if \<exists>r. e = Some r \<and> rf_eligible_ns r \<le> now then None else e) es)"
proof (induction es)
  case (Cons e es)
  then show ?case by (cases e) auto
qed simp

section \<open>The server\<close>

record cbs_runtime =
  cb_reservation :: cbs_reservation
  cb_remaining_ns :: u64
  cb_absolute_deadline_ns :: u64
  cb_refills :: refill_ring

datatype cbs_runtime_error = BudgetExhausted | CbsArithmetic | RefillFailed refill_error

definition cbs_runtime_new :: "nat \<Rightarrow> cbs_reservation \<Rightarrow> u64 \<Rightarrow> cbs_runtime_error + cbs_runtime" where
  "cbs_runtime_new refills reservation now_ns =
     (if refills = 0 then Inl (RefillFailed RefillInvalidConfiguration)
      else case checked_add now_ns (cr_deadline_ns reservation) of
          None \<Rightarrow> Inl CbsArithmetic
        | Some deadline \<Rightarrow>
            Inr \<lparr>cb_reservation = reservation, cb_remaining_ns = cr_capacity_ns reservation,
                 cb_absolute_deadline_ns = deadline, cb_refills = refill_ring_new refills\<rparr>)"

text \<open>The budget is reduced before the refill is scheduled, and stays reduced if that fails.\<close>

definition cbs_charge :: "cbs_runtime \<Rightarrow> u64 \<Rightarrow> u64 \<Rightarrow> (cbs_runtime_error + unit) \<times> cbs_runtime" where
  "cbs_charge s now_ns runtime_ns =
     (if cb_remaining_ns s < runtime_ns then (Inl BudgetExhausted, s)
      else if runtime_ns = 0 then (Inr (), s)
      else
        let s' = s\<lparr>cb_remaining_ns := cb_remaining_ns s - runtime_ns\<rparr> in
        case checked_add now_ns (cr_period_ns (cb_reservation s')) of
          None \<Rightarrow> (Inl CbsArithmetic, s')
        | Some eligible \<Rightarrow>
            (case ring_schedule (cb_refills s') \<lparr>rf_eligible_ns = eligible, rf_amount_ns = runtime_ns\<rparr> of
               (Inl e, ring) \<Rightarrow> (Inl (RefillFailed e), s'\<lparr>cb_refills := ring\<rparr>)
             | (Inr _, ring) \<Rightarrow> (Inr (), s'\<lparr>cb_refills := ring\<rparr>)))"

text \<open>
  The \<open>+ 1\<close> on the number of periods could only overflow for a deadline of 0, and a deadline is at
  least the nonzero deadline of the reservation.
\<close>

definition postpone_deadline :: "cbs_runtime \<Rightarrow> u64 \<Rightarrow> (cbs_runtime_error + unit) \<times> cbs_runtime" where
  "postpone_deadline s now_ns =
     (if cb_absolute_deadline_ns s \<le> now_ns \<and> cb_remaining_ns s \<noteq> 0 then
        let period = cr_period_ns (cb_reservation s);
            periods = (now_ns - cb_absolute_deadline_ns s) div period + 1
        in (case checked_mul periods period of
              None \<Rightarrow> (Inl CbsArithmetic, s)
            | Some offset \<Rightarrow>
                (case checked_add (cb_absolute_deadline_ns s) offset of
                   None \<Rightarrow> (Inl CbsArithmetic, s)
                 | Some deadline \<Rightarrow> (Inr (), s\<lparr>cb_absolute_deadline_ns := deadline\<rparr>)))
      else (Inr (), s))"

definition cbs_replenish :: "cbs_runtime \<Rightarrow> u64 \<Rightarrow> (cbs_runtime_error + u64) \<times> cbs_runtime" where
  "cbs_replenish s now_ns =
     (case take_eligible (cb_refills s) now_ns of
        (Inl e, ring) \<Rightarrow> (Inl (RefillFailed e), s\<lparr>cb_refills := ring\<rparr>)
      | (Inr available, ring) \<Rightarrow>
          let s1 = s\<lparr>cb_refills := ring\<rparr>; previous = cb_remaining_ns s1 in
          (case checked_add (cb_remaining_ns s1) available of
             None \<Rightarrow> (Inl CbsArithmetic, s1)
           | Some amount \<Rightarrow>
               let s2 = s1\<lparr>cb_remaining_ns := min amount (cr_capacity_ns (cb_reservation s1))\<rparr> in
               (case postpone_deadline s2 now_ns of
                  (Inl e, s3) \<Rightarrow> (Inl e, s3)
                | (Inr _, s3) \<Rightarrow> (Inr (cb_remaining_ns s3 - previous), s3))))"

definition cbs_runnable :: "cbs_runtime \<Rightarrow> bool" where
  "cbs_runnable s \<longleftrightarrow> cb_remaining_ns s \<noteq> 0"

section \<open>Budget is conserved\<close>

abbreviation pending :: "cbs_runtime \<Rightarrow> nat" where
  "pending s \<equiv> due (\<lambda>_. True) (cb_refills s)"

definition cbs_wf :: "cbs_runtime \<Rightarrow> bool" where
  "cbs_wf s \<longleftrightarrow> reservation_wf (cb_reservation s) \<and> cb_refills s \<noteq> []
     \<and> unat (cb_remaining_ns s) + pending s = unat (cr_capacity_ns (cb_reservation s))"

lemma cbs_new_wf: "reservation_wf r \<Longrightarrow> cbs_runtime_new n r now = Inr s \<Longrightarrow> cbs_wf s"
  by (auto simp: cbs_runtime_new_def cbs_wf_def refill_ring_new_def due_def split: if_splits option.splits)

lemma charge_effect:
  assumes "cbs_charge s now runtime = (Inr (), s')"
  shows "unat (cb_remaining_ns s') + unat runtime = unat (cb_remaining_ns s)"
    and "pending s' = pending s + unat runtime"
    and "cb_reservation s' = cb_reservation s" and "length (cb_refills s') = length (cb_refills s)"
    and "(\<And>t u. t \<le> u \<Longrightarrow> P u \<Longrightarrow> P t) \<Longrightarrow>
      (\<And>e. unat e = unat now + unat (cr_period_ns (cb_reservation s)) \<Longrightarrow> \<not> P e) \<Longrightarrow>
      due P (cb_refills s') \<le> due P (cb_refills s)"
proof -
  have le: "runtime \<le> cb_remaining_ns s" using assms by (auto simp: cbs_charge_def split: if_splits)
  have sub: "unat (cb_remaining_ns s - runtime) + unat runtime = unat (cb_remaining_ns s)"
    using le by (simp add: unat_sub_nowrap word_le_nat_alt)
  have cases: "runtime = 0 \<and> s' = s \<or> (\<exists>e ring. runtime \<noteq> 0
      \<and> checked_add now (cr_period_ns (cb_reservation s)) = Some e
      \<and> ring_schedule (cb_refills s) \<lparr>rf_eligible_ns = e, rf_amount_ns = runtime\<rparr> = (Inr (), ring)
      \<and> s' = s\<lparr>cb_remaining_ns := cb_remaining_ns s - runtime, cb_refills := ring\<rparr>)"
    using assms by (auto simp: cbs_charge_def Let_def split: if_splits option.splits prod.splits sum.splits)
  then show "unat (cb_remaining_ns s') + unat runtime = unat (cb_remaining_ns s)"
    "pending s' = pending s + unat runtime" "cb_reservation s' = cb_reservation s"
    "length (cb_refills s') = length (cb_refills s)"
    using sub schedule_due(1,3) by auto
  assume P: "\<And>t u. t \<le> u \<Longrightarrow> P u \<Longrightarrow> P t"
    "\<And>e. unat e = unat now + unat (cr_period_ns (cb_reservation s)) \<Longrightarrow> \<not> P e"
  from cases show "due P (cb_refills s') \<le> due P (cb_refills s)"
  proof
    assume "\<exists>e ring. runtime \<noteq> 0
      \<and> checked_add now (cr_period_ns (cb_reservation s)) = Some e
      \<and> ring_schedule (cb_refills s) \<lparr>rf_eligible_ns = e, rf_amount_ns = runtime\<rparr> = (Inr (), ring)
      \<and> s' = s\<lparr>cb_remaining_ns := cb_remaining_ns s - runtime, cb_refills := ring\<rparr>"
    then obtain e ring where e: "checked_add now (cr_period_ns (cb_reservation s)) = Some e"
      "ring_schedule (cb_refills s) \<lparr>rf_eligible_ns = e, rf_amount_ns = runtime\<rparr> = (Inr (), ring)"
      "cb_refills s' = ring" by auto
    then have "\<not> P e" using P(2) by (simp add: checked_add_Some)
    then show ?thesis using schedule_due(2) [OF e(2), of P] P(1) e(3) by simp
  qed simp
qed

lemma cbs_charge_wf: "cbs_wf s \<Longrightarrow> cbs_charge s now runtime = (Inr (), s') \<Longrightarrow> cbs_wf s'"
  using charge_effect(1-4) [of s now runtime s'] length_0_conv [of "cb_refills s"]
    length_0_conv [of "cb_refills s'"]
  by (simp add: cbs_wf_def)

lemma postpone_fields:
  "postpone_deadline s now = (r, s') \<Longrightarrow> cb_reservation s' = cb_reservation s
     \<and> cb_remaining_ns s' = cb_remaining_ns s \<and> cb_refills s' = cb_refills s"
  by (auto simp: postpone_deadline_def Let_def split: if_splits option.splits)

text \<open>Enough for the sums of a replenishment: budget and refills never exceed the capacity together.\<close>

definition cbs_bounded :: "cbs_runtime \<Rightarrow> bool" where
  "cbs_bounded s \<longleftrightarrow> unat (cb_remaining_ns s) + pending s \<le> unat (cr_capacity_ns (cb_reservation s))"

lemma cbs_wf_bounded: "cbs_wf s \<Longrightarrow> cbs_bounded s"
  by (simp add: cbs_wf_def cbs_bounded_def)

lemma take_eligible_exact:
  assumes "cbs_bounded s"
  obtains available where "take_eligible (cb_refills s) now = (Inr available,
      map (\<lambda>e. if \<exists>r. e = Some r \<and> rf_eligible_ns r \<le> now then None else e) (cb_refills s))"
    "unat available = due (\<lambda>t. t \<le> now) (cb_refills s)"
    "unat (cb_remaining_ns s) + unat available \<le> unat (cr_capacity_ns (cb_reservation s))"
proof -
  have "due (\<lambda>t. t \<le> now) (cb_refills s) \<le> pending s" by (rule due_mono) simp
  then have le: "unat (cb_remaining_ns s) + due (\<lambda>t. t \<le> now) (cb_refills s)
      \<le> unat (cr_capacity_ns (cb_reservation s))"
    using assms by (simp add: cbs_bounded_def)
  moreover have "unat (cr_capacity_ns (cb_reservation s)) < 2 ^ 64"
    using unat_lt_pow [of "cr_capacity_ns (cb_reservation s)"] by simp
  ultimately have "due (\<lambda>t. t \<le> now) (cb_refills s) < 2 ^ 64" by linarith
  with take_eligible_from_exact [of 0 now "cb_refills s"] le that show ?thesis
    by (auto simp: take_eligible_def)
qed

text \<open>On such a server the replenishment never fails in its sums and the cap never bites.\<close>

lemma replenish_moves:
  assumes "cbs_bounded s" "cbs_replenish s now = (r, s')"
  shows "unat (cb_remaining_ns s') = unat (cb_remaining_ns s) + due (\<lambda>t. t \<le> now) (cb_refills s)"
    and "cb_refills s' = map (\<lambda>e. if \<exists>r. e = Some r \<and> rf_eligible_ns r \<le> now then None else e) (cb_refills s)"
    and "cb_reservation s' = cb_reservation s"
    and "r = Inr granted \<Longrightarrow> unat granted = due (\<lambda>t. t \<le> now) (cb_refills s)"
proof -
  let ?ring = "map (\<lambda>e. if \<exists>r. e = Some r \<and> rf_eligible_ns r \<le> now then None else e) (cb_refills s)"
  obtain available where av: "take_eligible (cb_refills s) now = (Inr available, ?ring)"
    "unat available = due (\<lambda>t. t \<le> now) (cb_refills s)"
    and le: "unat (cb_remaining_ns s) + unat available \<le> unat (cr_capacity_ns (cb_reservation s))"
    by (rule take_eligible_exact [OF assms(1)])
  have "unat (cr_capacity_ns (cb_reservation s)) < 2 ^ 64"
    using unat_lt_pow [of "cr_capacity_ns (cb_reservation s)"] by simp
  with le have lt: "unat (cb_remaining_ns s) + unat available < 2 ^ 64" by linarith
  then have sum: "unat (cb_remaining_ns s + available) = unat (cb_remaining_ns s) + unat available"
    by (simp add: unat_add_nowrap)
  have add: "checked_add (cb_remaining_ns s) available = Some (cb_remaining_ns s + available)"
    using lt by (simp add: checked_add_def)
  let ?s2 = "s\<lparr>cb_refills := ?ring, cb_remaining_ns := cb_remaining_ns s + available\<rparr>"
  have cap: "min (cb_remaining_ns s + available) (cr_capacity_ns (cb_reservation s)) = cb_remaining_ns s + available"
    using le sum by (simp add: min_def word_le_nat_alt)
  obtain q s3 where p: "postpone_deadline ?s2 now = (q, s3)" by force
  have "s' = s3" "\<And>g. r = Inr g \<Longrightarrow> g = cb_remaining_ns s3 - cb_remaining_ns s"
    using assms(2) av add cap p by (auto simp: cbs_replenish_def Let_def split: sum.splits)
  then show "unat (cb_remaining_ns s') = unat (cb_remaining_ns s) + due (\<lambda>t. t \<le> now) (cb_refills s)"
    "cb_refills s' = ?ring" "cb_reservation s' = cb_reservation s"
    "r = Inr granted \<Longrightarrow> unat granted = due (\<lambda>t. t \<le> now) (cb_refills s)"
    using postpone_fields [OF p] sum av(2) by auto
qed

lemmas replenish_effect = replenish_moves [OF cbs_wf_bounded]

lemma cbs_replenish_wf: "cbs_wf s \<Longrightarrow> cbs_replenish s now = (r, s') \<Longrightarrow> cbs_wf s'"
  using replenish_effect(1-3) [of s now r s'] due_taken [of "\<lambda>_. True" "cb_refills s" now]
  by (auto simp: cbs_wf_def)

lemma charge_exhausted: "cbs_charge s now runtime = (Inl BudgetExhausted, s') \<Longrightarrow> s' = s"
  by (auto simp: cbs_charge_def Let_def split: if_splits option.splits prod.splits sum.splits)

text \<open>
  A history of calls, whatever they answer, with the budget lost so far: a charge that fails for
  another reason than an exhausted budget has already taken the runtime off the budget.
\<close>

definition lost_by :: "cbs_runtime \<Rightarrow> u64 \<Rightarrow> u64 \<Rightarrow> nat" where
  "lost_by s now runtime = (case fst (cbs_charge s now runtime) of
     Inr _ \<Rightarrow> 0 | Inl e \<Rightarrow> if e = BudgetExhausted then 0 else unat runtime)"

inductive cbs_call :: "cbs_runtime \<times> nat \<Rightarrow> cbs_runtime \<times> nat \<Rightarrow> bool" where
  call_charge: "cbs_call (s, lost) (snd (cbs_charge s now runtime), lost + lost_by s now runtime)"
| call_replenish: "cbs_call (s, lost) (snd (cbs_replenish s now), lost)"

definition cbs_accounts :: "cbs_reservation \<Rightarrow> cbs_runtime \<times> nat \<Rightarrow> bool" where
  "cbs_accounts r w \<longleftrightarrow> cb_reservation (fst w) = r \<and> cb_refills (fst w) \<noteq> []
     \<and> unat (cb_remaining_ns (fst w)) + pending (fst w) + snd w = unat (cr_capacity_ns r)"

lemma schedule_refused: "ring_schedule es r = (Inl e, es') \<Longrightarrow> es' = es"
  by (auto simp: ring_schedule_def split: if_splits option.splits)

lemma due_member: "Some r \<in> set es \<Longrightarrow> unat (rf_amount_ns r) \<le> due (\<lambda>_. True) es"
  by (induction es) (auto simp: due_def flatten_def split: option.splits)

lemma schedule_succeeds:
  assumes "es \<noteq> []" "rf_amount_ns r \<noteq> 0" "due (\<lambda>_. True) es + unat (rf_amount_ns r) < 2 ^ 64"
  shows "fst (ring_schedule es r) = Inr ()"
proof (cases "position (\<lambda>entry. entry = None) es")
  case None
  let ?key = "\<lambda>entry. case entry of None \<Rightarrow> 0 | Some value \<Rightarrow> rf_eligible_ns value"
  obtain i where i: "max_index ?key es = Some i" using max_index_None [of ?key es] assms(1) by (cases "max_index ?key es") auto
  then have "i < length es" using max_index_Some by blast
  then have mem: "es ! i \<in> set es" by simp
  have "\<forall>x\<in>set es. x \<noteq> None" using None by (simp add: position_None)
  then obtain latest where l: "es ! i = Some latest" using mem by auto
  then have "unat (rf_amount_ns latest) + unat (rf_amount_ns r) < 2 ^ 64" using due_member [of latest es] mem assms(3) by simp
  then show ?thesis using None i l assms by (simp add: ring_schedule_def checked_add_def)
qed (use assms in \<open>simp add: ring_schedule_def\<close>)

text \<open>A charge that fails for another reason than an exhausted budget came too late for its period.\<close>

lemma charge_failure:
  assumes "cbs_charge s now runtime = (Inl e, s')" "e \<noteq> BudgetExhausted" "cbs_bounded s" "cb_refills s \<noteq> []"
  shows "2 ^ 64 \<le> unat now + unat (cr_period_ns (cb_reservation s))"
    and "s' = s\<lparr>cb_remaining_ns := cb_remaining_ns s - runtime\<rparr>" and "runtime \<le> cb_remaining_ns s"
proof -
  have rt: "runtime \<le> cb_remaining_ns s" "runtime \<noteq> 0"
    using assms(1,2) by (auto simp: cbs_charge_def split: if_splits)
  show "runtime \<le> cb_remaining_ns s" by (rule rt(1))
  have "unat runtime \<le> unat (cb_remaining_ns s)" using rt(1) by (simp add: word_le_nat_alt)
  moreover have "unat (cr_capacity_ns (cb_reservation s)) < 2 ^ 64"
    using unat_lt_pow [of "cr_capacity_ns (cb_reservation s)"] by simp
  ultimately have room: "pending s + unat runtime < 2 ^ 64" using assms(3) by (simp add: cbs_bounded_def)
  have none: "checked_add now (cr_period_ns (cb_reservation s)) = None"
  proof (rule ccontr)
    assume "checked_add now (cr_period_ns (cb_reservation s)) \<noteq> None"
    then obtain el where el: "checked_add now (cr_period_ns (cb_reservation s)) = Some el" by blast
    have "fst (ring_schedule (cb_refills s) \<lparr>rf_eligible_ns = el, rf_amount_ns = runtime\<rparr>) = Inr ()"
      using room rt(2) assms(4) by (intro schedule_succeeds) simp_all
    then obtain ring where "ring_schedule (cb_refills s) \<lparr>rf_eligible_ns = el, rf_amount_ns = runtime\<rparr> = (Inr (), ring)"
      by (cases "ring_schedule (cb_refills s) \<lparr>rf_eligible_ns = el, rf_amount_ns = runtime\<rparr>") auto
    then show False using assms(1) el rt(2) leD [OF rt(1)] by (simp add: cbs_charge_def)
  qed
  then show "2 ^ 64 \<le> unat now + unat (cr_period_ns (cb_reservation s))" by (simp add: checked_add_None)
  show "s' = s\<lparr>cb_remaining_ns := cb_remaining_ns s - runtime\<rparr>"
    using assms(1) none rt by (auto simp: cbs_charge_def split: if_splits)
qed

lemma charge_accounts:
  assumes "cbs_accounts r (s, lost)"
  shows "cbs_accounts r (snd (cbs_charge s now runtime), lost + lost_by s now runtime)"
proof -
  obtain res s' where c: "cbs_charge s now runtime = (res, s')" by fastforce
  have b: "cbs_bounded s" "cb_refills s \<noteq> []" using assms by (auto simp: cbs_accounts_def cbs_bounded_def)
  show ?thesis
  proof (cases res)
    case (Inr u)
    then have ok: "cbs_charge s now runtime = (Inr (), s')" using c by simp
    then show ?thesis using charge_effect(1-4) [OF ok] assms length_0_conv [of "cb_refills s"] length_0_conv [of "cb_refills s'"]
      by (auto simp: cbs_accounts_def lost_by_def)
  next
    case (Inl e)
    show ?thesis
    proof (cases "e = BudgetExhausted")
      case True
      then have "s' = s" using c Inl charge_exhausted by blast
      then show ?thesis using c Inl True assms by (simp add: lost_by_def)
    next
      case False
      note f = charge_failure(2,3) [OF c [unfolded Inl] False b]
      have "unat (cb_remaining_ns s - runtime) + unat runtime = unat (cb_remaining_ns s)"
        using f(2) by (simp add: unat_sub_nowrap word_le_nat_alt)
      then show ?thesis using c Inl False f(1) assms by (simp add: lost_by_def cbs_accounts_def)
    qed
  qed
qed

lemma replenish_accounts:
  assumes "cbs_accounts r (s, lost)" "cbs_replenish s now = (res, s')"
  shows "pending s' + due (\<lambda>t. t \<le> now) (cb_refills s) = pending s" "cbs_accounts r (s', lost)"
proof -
  have "cbs_bounded s" using assms(1) by (auto simp: cbs_accounts_def cbs_bounded_def)
  note e = replenish_moves(1-3) [OF this assms(2)]
  show p: "pending s' + due (\<lambda>t. t \<le> now) (cb_refills s) = pending s"
    unfolding e(2) using due_taken [of "\<lambda>_. True" "cb_refills s" now] by simp
  show "cbs_accounts r (s', lost)" using assms(1) e p by (auto simp: cbs_accounts_def)
qed

lemma cbs_new_accounts: "cbs_runtime_new n r now = Inr s \<Longrightarrow> cbs_accounts r (s, 0)"
  by (auto simp: cbs_runtime_new_def cbs_accounts_def refill_ring_new_def due_def split: if_splits option.splits)

interpretation cbs_ledger: invariant_machine "\<lambda>w. \<exists>n now. cbs_runtime_new n r now = Inr (fst w) \<and> snd w = 0" cbs_call "cbs_accounts r" for r
proof
  show "cbs_accounts r w" if "\<exists>n now. cbs_runtime_new n r now = Inr (fst w) \<and> snd w = 0" for w
    using that cbs_new_accounts by (metis prod.collapse)
  show "cbs_accounts r w'" if "cbs_accounts r w" "cbs_call w w'" for w w'
    using that(2,1)
  proof cases
    case (call_replenish s lost now)
    obtain res s' where "cbs_replenish s now = (res, s')" by fastforce
    then show ?thesis using replenish_accounts(2) [of r s lost now res s'] that(1) call_replenish by simp
  qed (simp add: charge_accounts)
qed

text \<open>
  C29: budget is conserved. Over every history of charges and replenishments on a new server, whatever
  they answer, the remaining budget, the budget waiting in the ring and what failed charges lost add
  up to the reserved capacity. A successful charge moves exactly the runtime into the ring; a charge
  beyond the budget is refused and changes nothing; a replenishment, whatever it answers, moves
  exactly what has become eligible back, and that is the amount it returns. A charge loses budget
  only when it comes so late that its instant plus the period exceeds 64 bits.
\<close>

theorem cbs_budget_conserved:
  assumes "cbs_runtime_new n r now0 = Inr s0" "cbs_call\<^sup>*\<^sup>* (s0, 0) (s, lost)"
  shows "cb_reservation s = r
    \<and> unat (cb_remaining_ns s) + pending s + lost = unat (cr_capacity_ns r)
    \<and> (cbs_charge s now runtime = (Inr (), s1) \<longrightarrow>
        unat (cb_remaining_ns s1) + unat runtime = unat (cb_remaining_ns s) \<and> pending s1 = pending s + unat runtime)
    \<and> (cb_remaining_ns s < runtime \<longrightarrow> cbs_charge s now runtime = (Inl BudgetExhausted, s))
    \<and> (0 < lost_by s now runtime \<longrightarrow> 2 ^ 64 \<le> unat now + unat (cr_period_ns r))
    \<and> (cbs_replenish s now = (res, s2) \<longrightarrow>
        unat (cb_remaining_ns s2) = unat (cb_remaining_ns s) + due (\<lambda>t. t \<le> now) (cb_refills s)
      \<and> pending s2 + due (\<lambda>t. t \<le> now) (cb_refills s) = pending s
      \<and> (res = Inr granted \<longrightarrow> unat granted = due (\<lambda>t. t \<le> now) (cb_refills s)))"
proof -
  have inv: "cbs_accounts r (s, lost)" using cbs_ledger.reachable_inv [OF _ assms(2)] assms(1) by fastforce
  then have b: "cbs_bounded s" "cb_refills s \<noteq> []" "cb_reservation s = r" by (auto simp: cbs_accounts_def cbs_bounded_def)
  have late: "2 ^ 64 \<le> unat now + unat (cr_period_ns r)" if l: "0 < lost_by s now runtime"
  proof -
    obtain a s' where c: "cbs_charge s now runtime = (a, s')" by fastforce
    then obtain e where "a = Inl e" "e \<noteq> BudgetExhausted"
      using l by (auto simp: lost_by_def split: sum.splits if_splits)
    then show ?thesis using charge_failure(1) [of s now runtime e s'] c b by simp
  qed
  show ?thesis
    using inv late charge_effect(1,2) [of s now runtime s1] replenish_moves(1,4) [OF b(1), of now res s2]
      replenish_accounts(1) [OF inv, of now res s2]
    by (auto simp: cbs_accounts_def cbs_charge_def)
qed

section \<open>The bandwidth bound\<close>

text \<open>A history of charges and replenishments; a charge beyond the budget is refused and changes nothing.\<close>

datatype cbs_event = Charge u64 u64 | Replenish u64

fun event_time :: "cbs_event \<Rightarrow> u64" where
  "event_time (Charge now runtime) = now"
| "event_time (Replenish now) = now"

fun cbs_run :: "cbs_event list \<Rightarrow> cbs_runtime \<Rightarrow> (nat \<times> cbs_runtime) option" where
  "cbs_run [] s = Some (0, s)"
| "cbs_run (Charge now runtime # es) s =
     (case cbs_charge s now runtime of
        (Inr _, s') \<Rightarrow> map_option (\<lambda>(charged, t). (unat runtime + charged, t)) (cbs_run es s')
      | (Inl BudgetExhausted, s') \<Rightarrow> cbs_run es s'
      | (Inl _, s') \<Rightarrow> None)"
| "cbs_run (Replenish now # es) s =
     (case cbs_replenish s now of (Inr _, s') \<Rightarrow> cbs_run es s' | (Inl _, s') \<Rightarrow> None)"

text \<open>Budget usable before the end of the window only moves between the remaining budget and the charges.\<close>

lemma run_potential:
  assumes "cbs_wf s" "cbs_run es s = Some (charged, s')" "cb_reservation s = r"
    and "\<forall>e\<in>set es. t0 \<le> unat (event_time e) \<and> unat (event_time e) < t0 + unat (cr_period_ns r)"
  shows "charged + unat (cb_remaining_ns s') + due (\<lambda>t. unat t < t0 + unat (cr_period_ns r)) (cb_refills s')
    \<le> unat (cb_remaining_ns s) + due (\<lambda>t. unat t < t0 + unat (cr_period_ns r)) (cb_refills s)"
  using assms
proof (induction es s arbitrary: charged rule: cbs_run.induct)
  case (2 now runtime es s)
  let ?P = "\<lambda>t :: u64. unat t < t0 + unat (cr_period_ns r)"
  have mono: "?P u \<Longrightarrow> ?P t" if "t \<le> u" for t u using that by (simp add: word_le_nat_alt)
  show ?case
  proof (cases "cbs_charge s now runtime")
    case (Pair res s1)
    show ?thesis
    proof (cases res)
      case (Inr u)
      then have c: "cbs_charge s now runtime = (Inr (), s1)" using Pair by simp
      obtain rest where rest: "cbs_run es s1 = Some (rest, s')" "charged = unat runtime + rest"
        using 2(4) c by auto
      have res1: "cb_reservation s1 = r" using charge_effect(3) [OF c] 2(5) by simp
      have "rest + unat (cb_remaining_ns s') + due ?P (cb_refills s')
          \<le> unat (cb_remaining_ns s1) + due ?P (cb_refills s1)"
        using 2(2) [OF Pair [symmetric] Inr] cbs_charge_wf [OF 2(3) c] rest(1) res1 2(6) by simp
      moreover have "due ?P (cb_refills s1) \<le> due ?P (cb_refills s)"
        using charge_effect(5) [OF c, of ?P] mono 2(5,6) by auto
      ultimately show ?thesis using charge_effect(1) [OF c] rest(2) by simp
    next
      case (Inl e)
      then have e: "e = BudgetExhausted" "cbs_run es s1 = Some (charged, s')"
        using 2(4) Pair by (auto split: cbs_runtime_error.splits)
      then have "s1 = s" using charge_exhausted Pair Inl by simp
      then show ?thesis using 2(1) [OF Pair [symmetric] Inl e(1)] 2(3,5,6) e(2) by simp
    qed
  qed
next
  case (3 now es s)
  let ?P = "\<lambda>t :: u64. unat t < t0 + unat (cr_period_ns r)"
  obtain g s1 where c: "cbs_replenish s now = (Inr g, s1)" and run: "cbs_run es s1 = Some (charged, s')"
    using 3(3) by (auto split: prod.splits sum.splits)
  note eff = replenish_effect [OF 3(2) c]
  have "(\<lambda>t. ?P t \<and> t \<le> now) = (\<lambda>t. t \<le> now)" using 3(5) by (auto simp: word_le_nat_alt fun_eq_iff)
  then have "due ?P (cb_refills s) = due (\<lambda>t. t \<le> now) (cb_refills s) + due ?P (cb_refills s1)"
    using due_taken [of ?P "cb_refills s" now] eff(2) by simp
  moreover have "charged + unat (cb_remaining_ns s') + due ?P (cb_refills s')
      \<le> unat (cb_remaining_ns s1) + due ?P (cb_refills s1)"
    using 3(1) [OF c [symmetric] refl] cbs_replenish_wf [OF 3(2) c] run eff(3) 3(4,5) by simp
  ultimately show ?case using eff(1) by simp
qed simp

text \<open>
  C14: the bandwidth bound of the sporadic server. From any reachable budget, the runtime charged by
  any history of charges and replenishments inside a window of one period is at most the reserved
  capacity, however the charges are split and whenever the ring had to merge entries.
\<close>

theorem cbs_bandwidth_bound:
  assumes "cbs_wf s" "cbs_run es s = Some (charged, s')"
    and "\<forall>e\<in>set es. t0 \<le> unat (event_time e)
      \<and> unat (event_time e) < t0 + unat (cr_period_ns (cb_reservation s))"
  shows "charged \<le> unat (cr_capacity_ns (cb_reservation s))"
proof -
  let ?P = "\<lambda>t :: u64. unat t < t0 + unat (cr_period_ns (cb_reservation s))"
  have "charged \<le> unat (cb_remaining_ns s) + due ?P (cb_refills s)"
    using run_potential [OF assms(1,2) refl assms(3)] by linarith
  also have "due ?P (cb_refills s) \<le> pending s" by (rule due_mono) simp
  finally show ?thesis using assms(1) by (simp add: cbs_wf_def)
qed

text \<open>
  a replenishment that leaves budget also leaves a deadline in the future: the deadline is
  postponed by whole periods, past the present instant.
\<close>

theorem cbs_deadline_in_future:
  assumes "reservation_wf (cb_reservation s)" "cbs_replenish s now = (Inr granted, s')" "cb_remaining_ns s' \<noteq> 0"
    and "cb_absolute_deadline_ns s \<noteq> 0"
  shows "unat now < unat (cb_absolute_deadline_ns s')"
proof -
  obtain s2 where p: "postpone_deadline s2 now = (Inr (), s')" and res: "cb_reservation s2 = cb_reservation s"
    and d0: "cb_absolute_deadline_ns s2 = cb_absolute_deadline_ns s"
    using assms(2) by (auto simp: cbs_replenish_def Let_def split: prod.splits sum.splits option.splits)
  have rem: "cb_remaining_ns s2 \<noteq> 0" using postpone_fields [OF p] assms(3) by simp
  show ?thesis
  proof (cases "cb_absolute_deadline_ns s2 \<le> now")
    case False
    then show ?thesis using p by (simp add: postpone_deadline_def word_le_nat_alt)
  next
    case True
    let ?d = "cb_absolute_deadline_ns s2" and ?p = "cr_period_ns (cb_reservation s2)"
    let ?n = "(now - ?d) div ?p + 1"
    have p0: "0 < unat ?p" using assms(1) by (simp add: reservation_wf_def res)
    obtain off d' where off: "checked_mul ?n ?p = Some off" "checked_add ?d off = Some d'"
      "cb_absolute_deadline_ns s' = d'"
      using p True rem by (auto simp: postpone_deadline_def Let_def split: option.splits)
    have diff: "unat (now - ?d) = unat now - unat ?d" using True by (rule unat_sub_nowrap)
    let ?x = "unat now - unat ?d"
    have "0 < unat ?d" using assms(4) by (simp add: d0 unat_gt_0)
    then have "?x + 1 \<le> unat now" using True by (simp add: word_le_nat_alt)
    then have "?x div unat ?p + 1 \<le> unat now" using div_le_dividend [of ?x "unat ?p"] by linarith
    moreover have "unat now < 2 ^ 64" using unat_lt_pow [of now] by simp
    ultimately have "?x div unat ?p + 1 < 2 ^ 64" by (rule le_less_trans)
    then have n: "unat ?n = ?x div unat ?p + 1"
      by (simp add: unat_word_ariths unat_div_word diff)
    have "?x < (?x div unat ?p + 1) * unat ?p"
      using div_mult_mod_eq [of ?x "unat ?p"] mod_less_divisor [OF p0, of ?x]
      unfolding distrib_right mult_1 by linarith
    then show ?thesis
      using off True by (simp add: checked_mul_Some checked_add_Some n word_le_nat_alt)
  qed
qed

definition sample_server :: cbs_runtime where
  "sample_server = \<lparr>cb_reservation = \<lparr>cr_capacity_ns = 3, cr_deadline_ns = 10, cr_period_ns = 10\<rparr>,
     cb_remaining_ns = 3, cb_absolute_deadline_ns = 10, cb_refills = [None]\<rparr>"

lemma sample_server_wf: "cbs_wf sample_server"
  by (simp add: cbs_wf_def sample_server_def reservation_wf_def)

theorem cbs_budget_conserved_witness:
  "\<exists>s1. cbs_charge sample_server 4 2 = (Inr (), s1)
     \<and> unat (cb_remaining_ns s1) + pending s1 = 3 \<and> unat (cb_remaining_ns s1) + 2 = 3"
proof -
  define s1 where "s1 = snd (cbs_charge sample_server 4 2)"
  have new: "cbs_runtime_new 1 (cb_reservation sample_server) 0 = Inr sample_server"
    by (simp add: cbs_runtime_new_def sample_server_def checked_add_def refill_ring_new_def)
  have c: "cbs_charge sample_server 4 2 = (Inr (), s1)"
    by (simp add: s1_def cbs_charge_def sample_server_def checked_add_def ring_schedule_def)
  have l: "lost_by sample_server 4 2 = 0" by (simp add: lost_by_def c)
  have "cbs_call (sample_server, 0) (snd (cbs_charge sample_server 4 2), 0 + lost_by sample_server 4 2)" by (rule call_charge)
  then have run: "cbs_call\<^sup>*\<^sup>* (sample_server, 0) (s1, 0)" unfolding l c by simp
  have "unat (cb_remaining_ns s1) + pending s1 + 0 = unat (cr_capacity_ns (cb_reservation sample_server))"
    using cbs_budget_conserved [OF new run] by blast
  moreover have "unat (cb_remaining_ns s1) + unat (2 :: u64) = unat (cb_remaining_ns sample_server)"
    using cbs_budget_conserved [OF new rtranclp.rtrancl_refl] c by blast
  ultimately show ?thesis using c by (simp add: sample_server_def)
qed

theorem cbs_bandwidth_bound_witness:
  "\<exists>s'. cbs_wf sample_server \<and> cbs_run [Charge 4 2, Replenish 5, Charge 6 2] sample_server = Some (2, s')
     \<and> (\<forall>e\<in>set [Charge 4 2, Replenish 5, Charge 6 2]. 4 \<le> unat (event_time e)
          \<and> unat (event_time e) < 4 + unat (cr_period_ns (cb_reservation sample_server)))
     \<and> 2 \<le> unat (cr_capacity_ns (cb_reservation sample_server))"
proof -
  let ?es = "[Charge 4 2, Replenish 5, Charge 6 2]"
  have run: "\<exists>s'. cbs_run ?es sample_server = Some (2, s')"
    by (simp add: cbs_charge_def cbs_replenish_def postpone_deadline_def sample_server_def checked_add_def
        ring_schedule_def take_eligible_def)
  then obtain s' where run: "cbs_run ?es sample_server = Some (2, s')" by blast
  have window: "\<forall>e\<in>set ?es. 4 \<le> unat (event_time e)
      \<and> unat (event_time e) < 4 + unat (cr_period_ns (cb_reservation sample_server))"
    by (simp add: sample_server_def)
  show ?thesis
    using cbs_bandwidth_bound [OF sample_server_wf run window] run window sample_server_wf by blast
qed

theorem cbs_deadline_in_future_witness:
  "\<exists>s'. reservation_wf (cb_reservation sample_server) \<and> cbs_replenish sample_server 25 = (Inr 0, s')
     \<and> cb_remaining_ns s' \<noteq> 0 \<and> cb_absolute_deadline_ns sample_server \<noteq> 0
     \<and> unat (25 :: u64) < unat (cb_absolute_deadline_ns s')"
proof -
  have wf: "reservation_wf (cb_reservation sample_server)" using sample_server_wf by (simp add: cbs_wf_def)
  let ?s' = "sample_server\<lparr>cb_absolute_deadline_ns := 30\<rparr>"
  have r: "cbs_replenish sample_server 25 = (Inr 0, ?s')"
    by (simp add: cbs_replenish_def postpone_deadline_def sample_server_def checked_add_def checked_mul_def
        take_eligible_def)
  have "cb_remaining_ns ?s' \<noteq> 0" "cb_absolute_deadline_ns sample_server \<noteq> 0"
    by (simp_all add: sample_server_def)
  from cbs_deadline_in_future [OF wf r this] this wf r show ?thesis by blast
qed

end
