(* ===== verification/Job_Accounting.thy ===== *)
theory Job_Accounting
  imports Cpu_Mask
begin

unbundle bit_operations_syntax

text \<open>
  Accounting of jobs: the distributed bandwidth pool with its per-processor slices
  (\<open>huesos-sched/src/lib.rs\<close>, \<open>JobBandwidth\<close>), the per-processor load records and the table of
  job slots (\<open>huesos-sched/src/job.rs\<close>, \<open>JobState\<close>, \<open>JobTable\<close>).
\<close>

section \<open>The bandwidth pool\<close>

record job_bandwidth =
  jb_quota_ns :: u64
  jb_period_ns :: u64
  jb_period_start_ns :: u64
  jb_generation :: u64
  jb_unissued_ns :: u64
  jb_local_ns :: "u64 list"
  jb_charged_ns :: u64

datatype bandwidth_error =
    InvalidConfiguration | CpuOutOfRange | BandwidthArithmetic | InsufficientLocalRuntime

definition job_bandwidth_new :: "nat \<Rightarrow> u64 \<Rightarrow> u64 \<Rightarrow> u64 \<Rightarrow> bandwidth_error + job_bandwidth" where
  "job_bandwidth_new cpu_count quota_ns period_ns start_ns =
     (case checked_mul (ucast period_ns) (of_nat cpu_count :: u128) of
        None \<Rightarrow> Inl BandwidthArithmetic
      | Some system_capacity \<Rightarrow>
          if cpu_count = 0 \<or> MAX_CPUS < cpu_count \<or> quota_ns = 0 \<or> period_ns = 0
             \<or> system_capacity < ucast quota_ns
          then Inl InvalidConfiguration
          else Inr \<lparr>jb_quota_ns = quota_ns, jb_period_ns = period_ns, jb_period_start_ns = start_ns,
                    jb_generation = 1, jb_unissued_ns = quota_ns, jb_local_ns = replicate cpu_count 0,
                    jb_charged_ns = 0\<rparr>)"

definition local_ns :: "job_bandwidth \<Rightarrow> nat \<Rightarrow> u64 option" where
  "local_ns b cpu = (if cpu < length (jb_local_ns b) then Some (jb_local_ns b ! cpu) else None)"

definition reserve_local :: "job_bandwidth \<Rightarrow> nat \<Rightarrow> u64 \<Rightarrow> (bandwidth_error + u64) \<times> job_bandwidth" where
  "reserve_local b cpu slice_ns =
     (case local_ns b cpu of
        None \<Rightarrow> (Inl CpuOutOfRange, b)
      | Some loc \<Rightarrow>
          let granted = min slice_ns (jb_unissued_ns b) in
          (case checked_add loc granted of
             None \<Rightarrow> (Inl BandwidthArithmetic, b)
           | Some loc' \<Rightarrow>
               (Inr granted, b\<lparr>jb_local_ns := (jb_local_ns b)[cpu := loc'],
                               jb_unissued_ns := jb_unissued_ns b - granted\<rparr>)))"

definition charge_local :: "job_bandwidth \<Rightarrow> nat \<Rightarrow> u64 \<Rightarrow> (bandwidth_error + unit) \<times> job_bandwidth" where
  "charge_local b cpu runtime_ns =
     (case local_ns b cpu of
        None \<Rightarrow> (Inl CpuOutOfRange, b)
      | Some loc \<Rightarrow>
          if loc < runtime_ns then (Inl InsufficientLocalRuntime, b)
          else
            let b' = b\<lparr>jb_local_ns := (jb_local_ns b)[cpu := loc - runtime_ns]\<rparr> in
            (case checked_add (jb_charged_ns b') runtime_ns of
               None \<Rightarrow> (Inl BandwidthArithmetic, b')
             | Some charged \<Rightarrow> (Inr (), b'\<lparr>jb_charged_ns := charged\<rparr>)))"

definition return_local :: "job_bandwidth \<Rightarrow> nat \<Rightarrow> (bandwidth_error + u64) \<times> job_bandwidth" where
  "return_local b cpu =
     (case local_ns b cpu of
        None \<Rightarrow> (Inl CpuOutOfRange, b)
      | Some returned \<Rightarrow>
          let b' = b\<lparr>jb_local_ns := (jb_local_ns b)[cpu := 0]\<rparr> in
          (case checked_add (jb_unissued_ns b') returned of
             None \<Rightarrow> (Inl BandwidthArithmetic, b')
           | Some unissued \<Rightarrow> (Inr returned, b'\<lparr>jb_unissued_ns := unissued\<rparr>)))"

definition replenish_if_due :: "job_bandwidth \<Rightarrow> u64 \<Rightarrow> (bandwidth_error + bool) \<times> job_bandwidth" where
  "replenish_if_due b now_ns =
     (let elapsed = saturating_sub now_ns (jb_period_start_ns b) in
      if elapsed < jb_period_ns b then (Inr False, b)
      else
        let periods = elapsed div jb_period_ns b in
        (case checked_mul periods (jb_period_ns b) of
           None \<Rightarrow> (Inl BandwidthArithmetic, b)
         | Some offset \<Rightarrow>
             (case checked_add (jb_period_start_ns b) offset of
                None \<Rightarrow> (Inl BandwidthArithmetic, b)
              | Some start \<Rightarrow>
                  (Inr True, b\<lparr>jb_period_start_ns := start, jb_generation := max (jb_generation b + 1) 1,
                     jb_unissued_ns := jb_quota_ns b,
                     jb_local_ns := replicate (length (jb_local_ns b)) 0, jb_charged_ns := 0\<rparr>))))"

definition issued_ns :: "job_bandwidth \<Rightarrow> u64" where
  "issued_ns b = jb_quota_ns b - jb_unissued_ns b"

text \<open>Every nanosecond of the quota is unissued, in one slice, or charged.\<close>

definition slices :: "job_bandwidth \<Rightarrow> nat" where
  "slices b = sum_list (map unat (jb_local_ns b))"

definition bandwidth_wf :: "job_bandwidth \<Rightarrow> bool" where
  "bandwidth_wf b \<longleftrightarrow> 0 < unat (jb_period_ns b)
     \<and> unat (jb_unissued_ns b) + slices b + unat (jb_charged_ns b) = unat (jb_quota_ns b)"

lemma sum_unat_update:
  "i < length xs \<Longrightarrow> sum_list (map unat (xs[i := x])) + unat (xs ! i) = sum_list (map unat xs) + unat x"
proof (induction xs arbitrary: i)
  case (Cons y ys)
  show ?case
  proof (cases i)
    case (Suc j)
    with Cons.IH [of j] Cons.prems show ?thesis by simp
  qed simp
qed simp

lemma sum_unat_member: "i < length xs \<Longrightarrow> unat (xs ! i) \<le> sum_list (map unat xs)"
  by (rule member_le_sum_list) auto

lemma bandwidth_new_wf: "job_bandwidth_new n quota period start = Inr b \<Longrightarrow> bandwidth_wf b"
  by (auto simp: job_bandwidth_new_def bandwidth_wf_def slices_def sum_list_replicate unat_gt_0
      split: option.splits if_splits)

lemma quota_lt: "unat (jb_quota_ns b) < 2 ^ 64"
  using unat_lt_pow [of "jb_quota_ns b"] by simp

lemma reserve_ok:
  assumes wf: "bandwidth_wf b" and cpu: "cpu < length (jb_local_ns b)"
  obtains g b' where "reserve_local b cpu want = (Inr g, b')" "unat g = min (unat want) (unat (jb_unissued_ns b))"
    "bandwidth_wf b'"
proof -
  let ?g = "min want (jb_unissued_ns b)" and ?loc = "jb_local_ns b ! cpu"
  have g: "unat ?g = min (unat want) (unat (jb_unissued_ns b))" by (simp add: min_def word_le_nat_alt)
  have "unat ?loc \<le> slices b" using sum_unat_member [OF cpu] by (simp add: slices_def)
  then have "unat ?loc + unat ?g < 2 ^ 64" using wf quota_lt [of b] g unfolding bandwidth_wf_def by linarith
  then obtain loc' where loc': "checked_add ?loc ?g = Some loc'" "unat loc' = unat ?loc + unat ?g"
    by (auto simp: checked_add_def unat_add_nowrap)
  let ?b' = "b\<lparr>jb_local_ns := (jb_local_ns b)[cpu := loc'], jb_unissued_ns := jb_unissued_ns b - ?g\<rparr>"
  have "unat (jb_unissued_ns b - ?g) = unat (jb_unissued_ns b) - unat ?g" by (rule unat_sub_nowrap) simp
  moreover have "slices ?b' = slices b + unat ?g"
    using sum_unat_update [OF cpu, of loc'] loc'(2) by (simp add: slices_def)
  ultimately have "bandwidth_wf ?b'"
    using wf g by (simp add: bandwidth_wf_def)
  moreover have "reserve_local b cpu want = (Inr ?g, ?b')"
    using cpu loc'(1) by (simp add: reserve_local_def local_ns_def Let_def)
  ultimately show ?thesis using that g by blast
qed

lemma charge_ok:
  assumes wf: "bandwidth_wf b" and cpu: "cpu < length (jb_local_ns b)" and le: "runtime \<le> jb_local_ns b ! cpu"
  obtains b' where "charge_local b cpu runtime = (Inr (), b')" "bandwidth_wf b'"
    "unat (jb_charged_ns b') = unat (jb_charged_ns b) + unat runtime"
proof -
  let ?loc = "jb_local_ns b ! cpu"
  have run: "unat runtime \<le> unat ?loc" using le by (simp add: word_le_nat_alt)
  have "unat ?loc \<le> slices b" using sum_unat_member [OF cpu] by (simp add: slices_def)
  then have "unat (jb_charged_ns b) + unat runtime < 2 ^ 64"
    using wf quota_lt [of b] run by (simp add: bandwidth_wf_def)
  then obtain c where c: "checked_add (jb_charged_ns b) runtime = Some c"
    "unat c = unat (jb_charged_ns b) + unat runtime"
    by (auto simp: checked_add_def unat_add_nowrap)
  let ?b' = "b\<lparr>jb_local_ns := (jb_local_ns b)[cpu := ?loc - runtime], jb_charged_ns := c\<rparr>"
  have "slices ?b' + unat runtime = slices b"
    using sum_unat_update [OF cpu, of "?loc - runtime"] unat_sub_nowrap [OF le] run by (simp add: slices_def)
  then have "bandwidth_wf ?b'" using wf c(2) by (simp add: bandwidth_wf_def slices_def)
  moreover have "charge_local b cpu runtime = (Inr (), ?b')"
    using cpu c(1) le by (simp add: charge_local_def local_ns_def not_less Let_def)
  ultimately show ?thesis using that c(2) by simp
qed

lemma return_ok:
  assumes wf: "bandwidth_wf b" and cpu: "cpu < length (jb_local_ns b)"
  obtains b' where "return_local b cpu = (Inr (jb_local_ns b ! cpu), b')" "bandwidth_wf b'"
proof -
  let ?loc = "jb_local_ns b ! cpu"
  have "unat ?loc \<le> slices b" using sum_unat_member [OF cpu] by (simp add: slices_def)
  then have "unat (jb_unissued_ns b) + unat ?loc < 2 ^ 64"
    using wf quota_lt [of b] by (simp add: bandwidth_wf_def)
  then obtain u where u: "checked_add (jb_unissued_ns b) ?loc = Some u"
    "unat u = unat (jb_unissued_ns b) + unat ?loc"
    by (auto simp: checked_add_def unat_add_nowrap)
  let ?b' = "b\<lparr>jb_local_ns := (jb_local_ns b)[cpu := 0], jb_unissued_ns := u\<rparr>"
  have "slices ?b' + unat ?loc = slices b"
    using sum_unat_update [OF cpu, of 0] by (simp add: slices_def)
  then have "bandwidth_wf ?b'" using wf u(2) by (simp add: bandwidth_wf_def)
  moreover have "return_local b cpu = (Inr ?loc, ?b')"
    using cpu u(1) by (simp add: return_local_def local_ns_def Let_def)
  ultimately show ?thesis using that by blast
qed

lemma replenish_ok:
  assumes wf: "bandwidth_wf b" and due: "unat (jb_period_start_ns b) + unat (jb_period_ns b) \<le> unat now"
  obtains b' where "replenish_if_due b now = (Inr True, b')" "bandwidth_wf b'" "jb_charged_ns b' = 0"
    "jb_unissued_ns b' = jb_quota_ns b" "unat (jb_period_start_ns b') \<le> unat now"
    "unat now < unat (jb_period_start_ns b') + unat (jb_period_ns b)" "jb_period_ns b' = jb_period_ns b"
proof -
  let ?p = "unat (jb_period_ns b)" and ?s = "unat (jb_period_start_ns b)"
  let ?e = "saturating_sub now (jb_period_start_ns b)"
  have p: "0 < ?p" using wf by (simp add: bandwidth_wf_def)
  have e: "unat ?e = unat now - ?s" by (simp add: unat_saturating_sub)
  have n: "unat (?e div jb_period_ns b) = (unat now - ?s) div ?p" by (simp add: unat_div_word e)
  have le: "(unat now - ?s) div ?p * ?p \<le> unat now - ?s" by simp
  have "unat now < 2 ^ 64" using unat_lt_pow [of now] by simp
  then have fits: "(unat now - ?s) div ?p * ?p < 2 ^ 64" "?s + (unat now - ?s) div ?p * ?p < 2 ^ 64"
    using le due by linarith+
  then obtain off where off: "checked_mul (?e div jb_period_ns b) (jb_period_ns b) = Some off"
    "unat off = (unat now - ?s) div ?p * ?p"
    by (auto simp: checked_mul_def n unat_mult_nowrap)
  obtain start where start: "checked_add (jb_period_start_ns b) off = Some start"
    "unat start = ?s + (unat now - ?s) div ?p * ?p"
    using fits(2) by (auto simp: checked_add_def off(2) unat_add_nowrap)
  let ?b' = "b\<lparr>jb_period_start_ns := start, jb_generation := max (jb_generation b + 1) 1,
      jb_unissued_ns := jb_quota_ns b, jb_local_ns := replicate (length (jb_local_ns b)) 0, jb_charged_ns := 0\<rparr>"
  have "\<not> ?e < jb_period_ns b" using due by (simp add: word_less_nat_alt e)
  then have "replenish_if_due b now = (Inr True, ?b')"
    by (simp add: replenish_if_due_def Let_def off(1) start(1))
  moreover have "bandwidth_wf ?b'" using wf by (simp add: bandwidth_wf_def slices_def sum_list_replicate)
  moreover have "unat start \<le> unat now" using start(2) le due by linarith
  moreover have "unat now < unat start + ?p"
    using start(2) div_mult_mod_eq [of "unat now - ?s" ?p] mod_less_divisor [OF p, of "unat now - ?s"] due
    by linarith
  ultimately show ?thesis using that [of ?b'] by simp
qed

text \<open>
  C30: the job's quota is a hard cap. From any well-formed pool, reserving, charging and returning
  slices never fails in its arithmetic and keeps unissued, sliced and charged time adding up to the
  quota; so within a period the time issued, and the time charged, never exceed it. Replenishment
  happens exactly when a period has elapsed and starts the period that contains the present.
\<close>

theorem job_bandwidth_hard_cap:
  assumes "bandwidth_wf b"
  shows "(cpu < length (jb_local_ns b) \<longrightarrow>
        (\<exists>g b'. reserve_local b cpu want = (Inr g, b') \<and> bandwidth_wf b'
           \<and> unat g = min (unat want) (unat (jb_unissued_ns b)))
      \<and> (\<exists>b'. return_local b cpu = (Inr (jb_local_ns b ! cpu), b') \<and> bandwidth_wf b')
      \<and> (runtime \<le> jb_local_ns b ! cpu \<longrightarrow> (\<exists>b'. charge_local b cpu runtime = (Inr (), b') \<and> bandwidth_wf b'))
      \<and> (jb_local_ns b ! cpu < runtime \<longrightarrow> charge_local b cpu runtime = (Inl InsufficientLocalRuntime, b)))
    \<and> (if unat (jb_period_start_ns b) + unat (jb_period_ns b) \<le> unat now
       then \<exists>b'. replenish_if_due b now = (Inr True, b') \<and> bandwidth_wf b' \<and> jb_charged_ns b' = 0
              \<and> unat (jb_period_start_ns b') \<le> unat now
              \<and> unat now < unat (jb_period_start_ns b') + unat (jb_period_ns b)
       else replenish_if_due b now = (Inr False, b))
    \<and> unat (issued_ns b) = slices b + unat (jb_charged_ns b)
    \<and> unat (issued_ns b) \<le> unat (jb_quota_ns b)"
proof -
  have "jb_unissued_ns b \<le> jb_quota_ns b" using assms by (simp add: bandwidth_wf_def word_le_nat_alt)
  then have issued: "unat (issued_ns b) = slices b + unat (jb_charged_ns b)"
    using assms unfolding issued_ns_def bandwidth_wf_def by (simp only: unat_sub_nowrap) linarith
  have early: "replenish_if_due b now = (Inr False, b)"
    if "\<not> unat (jb_period_start_ns b) + unat (jb_period_ns b) \<le> unat now"
  proof -
    have "0 < unat (jb_period_ns b)" using assms by (simp add: bandwidth_wf_def)
    with that have "saturating_sub now (jb_period_start_ns b) < jb_period_ns b"
      by (simp add: word_less_nat_alt unat_saturating_sub)
    then show ?thesis by (simp add: replenish_if_due_def)
  qed
  have late: "\<exists>b'. replenish_if_due b now = (Inr True, b') \<and> bandwidth_wf b' \<and> jb_charged_ns b' = 0
      \<and> unat (jb_period_start_ns b') \<le> unat now \<and> unat now < unat (jb_period_start_ns b') + unat (jb_period_ns b)"
    if "unat (jb_period_start_ns b) + unat (jb_period_ns b) \<le> unat now"
    using replenish_ok [OF assms that] by metis
  have locals: "(\<exists>g b'. reserve_local b cpu want = (Inr g, b') \<and> bandwidth_wf b'
           \<and> unat g = min (unat want) (unat (jb_unissued_ns b)))
      \<and> (\<exists>b'. return_local b cpu = (Inr (jb_local_ns b ! cpu), b') \<and> bandwidth_wf b')
      \<and> (runtime \<le> jb_local_ns b ! cpu \<longrightarrow> (\<exists>b'. charge_local b cpu runtime = (Inr (), b') \<and> bandwidth_wf b'))
      \<and> (jb_local_ns b ! cpu < runtime \<longrightarrow> charge_local b cpu runtime = (Inl InsufficientLocalRuntime, b))"
    if cpu: "cpu < length (jb_local_ns b)"
  proof (intro conjI impI)
    show "charge_local b cpu runtime = (Inl InsufficientLocalRuntime, b)" if "jb_local_ns b ! cpu < runtime"
      using cpu that by (simp add: charge_local_def local_ns_def)
  qed (metis reserve_ok [OF assms cpu], metis return_ok [OF assms cpu], metis charge_ok [OF assms cpu])
  show ?thesis using early late locals issued assms by (simp add: bandwidth_wf_def)
qed

definition sample_pool :: job_bandwidth where
  "sample_pool = \<lparr>jb_quota_ns = 10, jb_period_ns = 100, jb_period_start_ns = 0, jb_generation = 1,
     jb_unissued_ns = 6, jb_local_ns = [3, 0], jb_charged_ns = 1\<rparr>"

theorem job_bandwidth_hard_cap_witness:
  "bandwidth_wf sample_pool
   \<and> (\<exists>b'. charge_local sample_pool 0 2 = (Inr (), b') \<and> bandwidth_wf b')
   \<and> unat (issued_ns sample_pool) \<le> unat (jb_quota_ns sample_pool)"
proof -
  have wf: "bandwidth_wf sample_pool" by (simp add: bandwidth_wf_def slices_def sample_pool_def)
  have "0 < length (jb_local_ns sample_pool)" "2 \<le> jb_local_ns sample_pool ! 0"
    by (simp_all add: sample_pool_def)
  with job_bandwidth_hard_cap [OF wf, of 0 1 2 5] wf show ?thesis by blast
qed

section \<open>Load records\<close>

datatype job_id = JobId (job_raw: u32)

definition job_id_new :: "u32 \<Rightarrow> job_id option" where
  "job_id_new raw = (if raw = 0 then None else Some (JobId raw))"

record job_cpu_load =
  jl_runnable :: u32
  jl_demand_weight :: u64
  jl_service_ns :: u64

definition job_cpu_load_new :: job_cpu_load where
  "job_cpu_load_new = \<lparr>jl_runnable = 0, jl_demand_weight = 0, jl_service_ns = 0\<rparr>"

record job_state =
  js_id :: job_id
  js_weight :: u64
  js_per_cpu :: "job_cpu_load list"
  js_service_total_ns :: u64
  js_runnable_total :: u32
  js_cap_ns_per_period :: u64
  js_cap_period_start_ns :: u64

datatype job_error = JobCpuOutOfRange | JobOverflow | ZeroWeight | JobNotAllocated

definition job_state_new :: "nat \<Rightarrow> job_id \<Rightarrow> u64 \<Rightarrow> u64 \<Rightarrow> job_error + job_state" where
  "job_state_new cpu_count jid weight cap_ns_per_period =
     (if weight = 0 then Inl ZeroWeight
      else Inr \<lparr>js_id = jid, js_weight = weight, js_per_cpu = replicate cpu_count job_cpu_load_new,
                js_service_total_ns = 0, js_runnable_total = 0,
                js_cap_ns_per_period = cap_ns_per_period, js_cap_period_start_ns = 0\<rparr>)"

definition set_load :: "job_state \<Rightarrow> nat \<Rightarrow> job_cpu_load \<Rightarrow> job_state" where
  "set_load j cpu l = j\<lparr>js_per_cpu := (js_per_cpu j)[cpu := l]\<rparr>"

definition thread_ready :: "job_state \<Rightarrow> nat \<Rightarrow> u64 \<Rightarrow> (job_error + unit) \<times> job_state" where
  "thread_ready j cpu weight =
     (if length (js_per_cpu j) \<le> cpu then (Inl JobCpuOutOfRange, j)
      else let l = js_per_cpu j ! cpu in
        case checked_add (jl_runnable l) 1 of
          None \<Rightarrow> (Inl JobOverflow, j)
        | Some runnable \<Rightarrow>
            let l1 = l\<lparr>jl_runnable := runnable\<rparr>; j1 = set_load j cpu l1 in
            (case checked_add (jl_demand_weight l1) weight of
               None \<Rightarrow> (Inl JobOverflow, j1)
             | Some demand \<Rightarrow>
                 let j2 = set_load j1 cpu (l1\<lparr>jl_demand_weight := demand\<rparr>) in
                 (case checked_add (js_runnable_total j2) 1 of
                    None \<Rightarrow> (Inl JobOverflow, j2)
                  | Some runnable_sum \<Rightarrow> (Inr (), j2\<lparr>js_runnable_total := runnable_sum\<rparr>))))"

definition thread_blocked :: "job_state \<Rightarrow> nat \<Rightarrow> u64 \<Rightarrow> (job_error + unit) \<times> job_state" where
  "thread_blocked j cpu weight =
     (if length (js_per_cpu j) \<le> cpu then (Inl JobCpuOutOfRange, j)
      else let l = js_per_cpu j ! cpu in
        (Inr (), (set_load j cpu (l\<lparr>jl_runnable := saturating_sub (jl_runnable l) 1,
             jl_demand_weight := saturating_sub (jl_demand_weight l) weight\<rparr>))
           \<lparr>js_runnable_total := saturating_sub (js_runnable_total j) 1\<rparr>))"

definition job_charge :: "job_state \<Rightarrow> nat \<Rightarrow> u64 \<Rightarrow> (job_error + unit) \<times> job_state" where
  "job_charge j cpu ns =
     (if length (js_per_cpu j) \<le> cpu then (Inl JobCpuOutOfRange, j)
      else let l = js_per_cpu j ! cpu in
        case checked_add (jl_service_ns l) ns of
          None \<Rightarrow> (Inl JobOverflow, j)
        | Some service \<Rightarrow>
            let j1 = set_load j cpu (l\<lparr>jl_service_ns := service\<rparr>) in
            (case checked_add (js_service_total_ns j1) ns of
               None \<Rightarrow> (Inl JobOverflow, j1)
             | Some service_sum \<Rightarrow> (Inr (), j1\<lparr>js_service_total_ns := service_sum\<rparr>)))"

definition demand_total :: "job_state \<Rightarrow> u64" where
  "demand_total j = foldl (\<lambda>acc l. saturating_add acc (jl_demand_weight l)) 0 (js_per_cpu j)"

definition job_capped :: "job_state \<Rightarrow> u64 \<Rightarrow> bool" where
  "job_capped j now_ns \<longleftrightarrow>
     js_cap_ns_per_period j \<noteq> 0 \<and> js_cap_ns_per_period j \<le> js_service_total_ns j
   \<and> saturating_sub now_ns (js_cap_period_start_ns j) < js_cap_ns_per_period j"

definition maybe_replenish :: "job_state \<Rightarrow> u64 \<Rightarrow> bool \<times> job_state" where
  "maybe_replenish j now_ns =
     (if js_cap_ns_per_period j = 0 then (False, j)
      else if saturating_sub now_ns (js_cap_period_start_ns j) < js_cap_ns_per_period j then (False, j)
      else (True, j\<lparr>js_cap_period_start_ns :=
                      saturating_add (js_cap_period_start_ns j) (js_cap_ns_per_period j),
                    js_service_total_ns := 0,
                    js_per_cpu := map (\<lambda>l. l\<lparr>jl_service_ns := 0\<rparr>) (js_per_cpu j)\<rparr>))"

text \<open>The totals are the sums over the processors.\<close>

definition job_wf :: "job_state \<Rightarrow> bool" where
  "job_wf j \<longleftrightarrow> unat (js_runnable_total j) = sum_list (map (unat \<circ> jl_runnable) (js_per_cpu j))
     \<and> unat (js_service_total_ns j) = sum_list (map (unat \<circ> jl_service_ns) (js_per_cpu j))"

lemma sum_field_update:
  "i < length xs \<Longrightarrow>
     sum_list (map f (xs[i := x])) + f (xs ! i) = sum_list (map f xs) + (f x :: nat)"
proof (induction xs arbitrary: i)
  case (Cons y ys)
  show ?case
  proof (cases i)
    case (Suc k)
    with Cons.IH [of k] Cons.prems show ?thesis by simp
  qed simp
qed simp

lemma thread_ready_wf:
  assumes "job_wf j" "thread_ready j cpu w = (Inr (), j')"
  shows "job_wf j'"
proof -
  let ?l = "js_per_cpu j ! cpu"
  obtain r d t where cpu: "cpu < length (js_per_cpu j)" and r: "checked_add (jl_runnable ?l) 1 = Some r"
    and t: "checked_add (js_runnable_total j) 1 = Some t"
    and j': "j' = j\<lparr>js_per_cpu := (js_per_cpu j)[cpu := ?l\<lparr>jl_runnable := r, jl_demand_weight := d\<rparr>],
        js_runnable_total := t\<rparr>"
    using assms(2)
    by (auto simp: thread_ready_def set_load_def Let_def split: if_splits option.splits)
  show ?thesis
    using assms(1) r t sum_field_update [OF cpu, of "unat \<circ> jl_runnable" "?l\<lparr>jl_runnable := r, jl_demand_weight := d\<rparr>"]
      sum_field_update [OF cpu, of "unat \<circ> jl_service_ns" "?l\<lparr>jl_runnable := r, jl_demand_weight := d\<rparr>"]
    by (simp add: job_wf_def j' checked_add_Some)
qed

lemma thread_blocked_wf:
  assumes "job_wf j" "thread_blocked j cpu w = (Inr (), j')" "jl_runnable (js_per_cpu j ! cpu) \<noteq> 0"
  shows "job_wf j'"
proof -
  let ?l = "js_per_cpu j ! cpu"
  let ?l' = "?l\<lparr>jl_runnable := saturating_sub (jl_runnable ?l) 1,
      jl_demand_weight := saturating_sub (jl_demand_weight ?l) w\<rparr>"
  have cpu: "cpu < length (js_per_cpu j)"
    and j': "j' = j\<lparr>js_per_cpu := (js_per_cpu j)[cpu := ?l'],
        js_runnable_total := saturating_sub (js_runnable_total j) 1\<rparr>"
    using assms(2) by (auto simp: thread_blocked_def set_load_def Let_def split: if_splits)
  have "0 < unat (jl_runnable ?l)" using assms(3) by (simp add: unat_gt_0)
  then show ?thesis
    using assms(1) sum_field_update [OF cpu, of "unat \<circ> jl_runnable" ?l']
      sum_field_update [OF cpu, of "unat \<circ> jl_service_ns" ?l']
    by (simp add: job_wf_def j' unat_saturating_sub)
qed

lemma job_charge_wf:
  assumes "job_wf j" "job_charge j cpu ns = (Inr (), j')"
  shows "job_wf j'"
proof -
  let ?l = "js_per_cpu j ! cpu"
  obtain s t where cpu: "cpu < length (js_per_cpu j)" and s: "checked_add (jl_service_ns ?l) ns = Some s"
    and t: "checked_add (js_service_total_ns j) ns = Some t"
    and j': "j' = j\<lparr>js_per_cpu := (js_per_cpu j)[cpu := ?l\<lparr>jl_service_ns := s\<rparr>], js_service_total_ns := t\<rparr>"
    using assms(2) by (auto simp: job_charge_def set_load_def Let_def split: if_splits option.splits)
  show ?thesis
    using assms(1) s t sum_field_update [OF cpu, of "unat \<circ> jl_runnable" "?l\<lparr>jl_service_ns := s\<rparr>"]
      sum_field_update [OF cpu, of "unat \<circ> jl_service_ns" "?l\<lparr>jl_service_ns := s\<rparr>"]
    by (simp add: job_wf_def j' checked_add_Some)
qed

lemma maybe_replenish_wf: "job_wf j \<Longrightarrow> job_wf (snd (maybe_replenish j now))"
  by (simp add: maybe_replenish_def job_wf_def o_def)

text \<open>
  the totals of a job are the sums over the processors. They are so initially and after every
  successful call, provided a thread is reported blocked only on a processor where the job has a
  runnable thread.
\<close>

theorem job_totals_are_sums:
  assumes "job_wf j"
  shows "(thread_ready j cpu w = (Inr (), j1) \<longrightarrow> job_wf j1)
    \<and> (jl_runnable (js_per_cpu j ! cpu) \<noteq> 0 \<and> thread_blocked j cpu w = (Inr (), j2) \<longrightarrow> job_wf j2)
    \<and> (job_charge j cpu ns = (Inr (), j3) \<longrightarrow> job_wf j3)
    \<and> job_wf (snd (maybe_replenish j now))
    \<and> (job_state_new n jid weight cap = Inr j4 \<longrightarrow> job_wf j4)"
  using thread_ready_wf [OF assms] thread_blocked_wf [OF assms] job_charge_wf [OF assms]
    maybe_replenish_wf [OF assms]
  by (auto simp: job_state_new_def job_wf_def job_cpu_load_new_def sum_list_replicate)

definition sample_job :: job_state where
  "sample_job = projr (job_state_new 2 (JobId 1) 1 0)"

theorem job_totals_are_sums_witness:
  "job_wf sample_job \<and> thread_ready sample_job 1 5 = (Inr (), snd (thread_ready sample_job 1 5))
     \<and> job_wf (snd (thread_ready sample_job 1 5))"
proof -
  have wf: "job_wf sample_job" by code_simp
  have load: "js_per_cpu sample_job ! Suc 0 = job_cpu_load_new" "length (js_per_cpu sample_job) = 2"
    "js_runnable_total sample_job = 0"
    by (simp_all add: sample_job_def job_state_new_def numeral_2_eq_2)
  have "fst (thread_ready sample_job 1 5) = Inr ()"
    by (simp add: thread_ready_def load job_cpu_load_new_def checked_add_def set_load_def Let_def)
  then have "thread_ready sample_job 1 5 = (Inr (), snd (thread_ready sample_job 1 5))"
    by (simp add: prod_eq_iff)
  with job_totals_are_sums [OF wf, of 1 5] wf show ?thesis by blast
qed

section \<open>The job table\<close>

definition MAX_JOBS :: nat where
  "MAX_JOBS = 64"

record job_table =
  jt_used :: "u64 list"
  jt_generations :: "u32 list"

record job_slot_id =
  jsi_index :: nat
  jsi_generation :: u32

definition job_table_new :: job_table where
  "job_table_new = \<lparr>jt_used = [1], jt_generations = replicate MAX_JOBS 0\<rparr>"

lemma trailing_zeros_not_free:
  "NOT bits \<noteq> (0 :: u64) \<Longrightarrow> bits AND push_bit (trailing_zeros (NOT bits)) 1 = 0"
  using trailing_zeros_bit [of "NOT bits"] trailing_zeros_lt [of "NOT bits"]
    and_push_bit_one [of "trailing_zeros (NOT bits)" bits]
  by (auto simp: bit_simps)

function job_allocate_loop :: "job_table \<Rightarrow> u64 \<Rightarrow> job_slot_id option \<times> job_table" where
  "job_allocate_loop t bits =
     (let free = NOT bits in
      if free = 0 then (None, t)
      else let index = trailing_zeros free in
        if MAX_JOBS \<le> index then (None, t)
        else let mask = push_bit index 1 in
          if bits AND mask = 0 then
            let generation = jt_generations t ! index + 1 in
            (Some \<lparr>jsi_index = index, jsi_generation = generation\<rparr>,
             t\<lparr>jt_used := (jt_used t)[0 := jt_used t ! 0 OR mask],
               jt_generations := (jt_generations t)[index := generation]\<rparr>)
          else job_allocate_loop t (bits OR mask))"
  by pat_completeness auto
termination
  by (relation "measure (\<lambda>_. 0)") (simp_all add: trailing_zeros_not_free [simplified])

declare job_allocate_loop.simps [simp del]

definition job_allocate :: "job_table \<Rightarrow> job_slot_id option \<times> job_table" where
  "job_allocate t = job_allocate_loop t (jt_used t ! 0)"

definition job_is_allocated :: "job_table \<Rightarrow> nat \<Rightarrow> bool" where
  "job_is_allocated t index \<longleftrightarrow> index < MAX_JOBS \<and> jt_used t ! (index div 64) AND push_bit (index mod 64) 1 \<noteq> 0"

definition job_free :: "job_table \<Rightarrow> job_slot_id \<Rightarrow> (job_error + unit) \<times> job_table" where
  "job_free t jid =
     (if jsi_index jid = 0 \<or> MAX_JOBS \<le> jsi_index jid then (Inl JobNotAllocated, t)
      else let w = jsi_index jid div 64; mask = push_bit (jsi_index jid mod 64) 1 in
        if jt_used t ! w AND mask = 0 then (Inl JobNotAllocated, t)
        else if jt_generations t ! jsi_index jid \<noteq> jsi_generation jid then (Inl JobNotAllocated, t)
        else (Inr (), t\<lparr>jt_used := (jt_used t)[w := jt_used t ! w AND NOT mask]\<rparr>))"

definition job_table_wf :: "job_table \<Rightarrow> bool" where
  "job_table_wf t \<longleftrightarrow> length (jt_used t) = 1 \<and> length (jt_generations t) = MAX_JOBS \<and> job_is_allocated t 0"

lemma job_is_allocated_bit:
  "job_table_wf t \<Longrightarrow> job_is_allocated t i \<longleftrightarrow> i < 64 \<and> bit (jt_used t ! 0) i"
  using and_push_bit_one [of i "jt_used t ! 0"] by (auto simp: job_is_allocated_def MAX_JOBS_def)

lemma job_allocate_unfold:
  "job_allocate t =
     (let free = NOT (jt_used t ! 0); index = trailing_zeros free; generation = jt_generations t ! index + 1 in
      if free = 0 then (None, t)
      else (Some \<lparr>jsi_index = index, jsi_generation = generation\<rparr>,
            t\<lparr>jt_used := (jt_used t)[0 := jt_used t ! 0 OR push_bit index 1],
              jt_generations := (jt_generations t)[index := generation]\<rparr>))"
proof (cases "NOT (jt_used t ! 0) = 0")
  case True
  then show ?thesis by (simp add: job_allocate_def job_allocate_loop.simps [of t] Let_def)
next
  case False
  then show ?thesis
    using trailing_zeros_lt [OF False] trailing_zeros_not_free [OF False]
    by (simp add: job_allocate_def job_allocate_loop.simps [of t] MAX_JOBS_def Let_def not_le)
qed

lemma job_allocate_ok:
  assumes wf: "job_table_wf t" and a: "job_allocate t = (Some jid, t')"
  shows "\<not> job_is_allocated t (jsi_index jid) \<and> (\<forall>k < jsi_index jid. job_is_allocated t k)
    \<and> job_table_wf t' \<and> (\<forall>k. job_is_allocated t' k \<longleftrightarrow> k = jsi_index jid \<or> job_is_allocated t k)
    \<and> 0 < jsi_index jid \<and> jsi_index jid < MAX_JOBS
    \<and> jsi_generation jid = jt_generations t ! jsi_index jid + 1
    \<and> jt_generations t' = (jt_generations t)[jsi_index jid := jsi_generation jid]"
proof -
  let ?u = "jt_used t ! 0"
  let ?i = "trailing_zeros (NOT ?u)"
  have f: "NOT ?u \<noteq> 0" and jid: "jsi_index jid = ?i" "jsi_generation jid = jt_generations t ! ?i + 1"
    and t': "t' = t\<lparr>jt_used := (jt_used t)[0 := ?u OR push_bit ?i 1],
      jt_generations := (jt_generations t)[?i := jsi_generation jid]\<rparr>"
    using a by (auto simp: job_allocate_unfold Let_def split: if_splits)
  have i: "?i < 64" using trailing_zeros_lt [OF f] by simp
  have ni: "\<not> bit ?u ?i" using trailing_zeros_bit [OF f] by (simp add: bit_simps)
  have below: "bit ?u k" if "k < ?i" for k using trailing_zeros_least [OF that] that i by (simp add: bit_simps)
  have len: "length (jt_used t) = 1" "length (jt_generations t) = 64" "bit ?u 0"
    using wf job_is_allocated_bit [OF wf, of 0] by (auto simp: job_table_wf_def MAX_JOBS_def)
  have pos: "0 < ?i" using ni len(3) by (cases ?i) auto
  have bits: "bit (?u OR push_bit ?i 1) k \<longleftrightarrow> k = ?i \<or> bit ?u k" if "k < 64" for k
    using that i by (auto simp: bit_simps)
  have wf': "job_table_wf t'"
    using len i and_push_bit_one [of 0 "?u OR push_bit ?i 1"] bits [of 0]
    by (auto simp: job_table_wf_def t' MAX_JOBS_def job_is_allocated_def)
  have "jt_used t' ! 0 = ?u OR push_bit ?i 1" using len by (simp add: t')
  then show ?thesis
    using job_is_allocated_bit [OF wf] job_is_allocated_bit [OF wf'] i ni below pos bits wf' jid
    by (auto simp: MAX_JOBS_def t')
qed

lemma job_free_ok:
  assumes wf: "job_table_wf t" and f: "job_free t jid = (Inr (), t')"
  shows "job_is_allocated t (jsi_index jid) \<and> jt_generations t ! jsi_index jid = jsi_generation jid
    \<and> 0 < jsi_index jid \<and> job_table_wf t'
    \<and> (\<forall>k. job_is_allocated t' k \<longleftrightarrow> k \<noteq> jsi_index jid \<and> job_is_allocated t k)
    \<and> jt_generations t' = jt_generations t"
proof -
  let ?u = "jt_used t ! 0" and ?i = "jsi_index jid"
  have i: "0 < ?i" "?i < 64" and u: "?u AND push_bit ?i 1 \<noteq> 0" and g: "jt_generations t ! ?i = jsi_generation jid"
    and t': "t' = t\<lparr>jt_used := (jt_used t)[0 := ?u AND NOT (push_bit ?i 1)]\<rparr>"
    using f by (auto simp: job_free_def MAX_JOBS_def Let_def split: if_splits)
  have len: "length (jt_used t) = 1" "length (jt_generations t) = 64" "bit ?u 0"
    using wf job_is_allocated_bit [OF wf, of 0] by (auto simp: job_table_wf_def MAX_JOBS_def)
  have bits: "bit (?u AND NOT (push_bit ?i 1)) k \<longleftrightarrow> k \<noteq> ?i \<and> bit ?u k" if "k < 64" for k
    using that i by (auto simp: bit_simps)
  have wf': "job_table_wf t'"
    using len i and_push_bit_one [of 0 "?u AND NOT (push_bit ?i 1)"] bits [of 0]
    by (auto simp: job_table_wf_def t' MAX_JOBS_def job_is_allocated_def)
  have "jt_used t' ! 0 = ?u AND NOT (push_bit ?i 1)" using len by (simp add: t')
  then show ?thesis
    using job_is_allocated_bit [OF wf] job_is_allocated_bit [OF wf'] i u and_push_bit_one [of ?i ?u] bits wf' g
    by (auto simp: t')
qed

text \<open>
  The job table hands out the least free slot and never the root's. Allocation fails only when
  all 64 slots are taken; a slot that is freed stays free until it is allocated again, under the
  next generation, and the identity of the previous occupant can then no longer free it.
\<close>

theorem job_table_slots:
  assumes "job_table_wf t"
  shows "(fst (job_allocate t) = None \<longleftrightarrow> (\<forall>k < MAX_JOBS. job_is_allocated t k))
    \<and> (job_allocate t = (Some jid, t') \<longrightarrow>
          \<not> job_is_allocated t (jsi_index jid) \<and> (\<forall>k < jsi_index jid. job_is_allocated t k)
        \<and> 0 < jsi_index jid \<and> job_table_wf t' \<and> job_is_allocated t' (jsi_index jid)
        \<and> (jsi_index old = jsi_index jid \<and> jsi_generation old = jt_generations t ! jsi_index jid \<longrightarrow>
             job_free t' old = (Inl JobNotAllocated, t'))
        \<and> fst (job_free t' jid) = Inr ()
        \<and> (\<forall>k. job_is_allocated (snd (job_free t' jid)) k \<longleftrightarrow> job_is_allocated t k))"
proof (intro conjI impI)
  let ?u = "jt_used t ! 0"
  have "NOT ?u = 0 \<longleftrightarrow> (\<forall>k < 64. bit ?u k)"
    by (auto simp: bit_eq_iff bit_simps)
  then show "fst (job_allocate t) = None \<longleftrightarrow> (\<forall>k < MAX_JOBS. job_is_allocated t k)"
    using job_is_allocated_bit [OF assms] by (simp add: job_allocate_unfold Let_def MAX_JOBS_def)
next
  assume a: "job_allocate t = (Some jid, t')"
  let ?i = "jsi_index jid"
  note ok = job_allocate_ok [OF assms a]
  from ok show "\<not> job_is_allocated t ?i" "\<forall>k < ?i. job_is_allocated t k" "0 < ?i" "job_table_wf t'"
    "job_is_allocated t' ?i" by blast+
  have gen: "jt_generations t' ! ?i = jsi_generation jid"
    using ok assms by (simp add: job_table_wf_def)
  have live: "jt_used t' ! (?i div 64) AND push_bit (?i mod 64) 1 \<noteq> 0"
    using \<open>job_is_allocated t' ?i\<close> unfolding job_is_allocated_def by blast
  show "job_free t' old = (Inl JobNotAllocated, t')"
    if "jsi_index old = ?i \<and> jsi_generation old = jt_generations t ! ?i"
    using that gen ok by (simp add: job_free_def Let_def)
  show f: "fst (job_free t' jid) = Inr ()"
    using gen live ok by (simp add: job_free_def Let_def)
  show "\<forall>k. job_is_allocated (snd (job_free t' jid)) k \<longleftrightarrow> job_is_allocated t k"
    using job_free_ok [of t' jid "snd (job_free t' jid)"] f ok by (metis prod.collapse)
qed

theorem job_table_slots_witness:
  "\<exists>t'. job_allocate job_table_new = (Some \<lparr>jsi_index = 1, jsi_generation = 1\<rparr>, t')
     \<and> job_is_allocated t' 1 \<and> fst (job_free t' \<lparr>jsi_index = 1, jsi_generation = 1\<rparr>) = Inr ()"
proof -
  have wf: "job_table_wf job_table_new"
    by (simp add: job_table_wf_def job_table_new_def job_is_allocated_def MAX_JOBS_def)
  have "trailing_zeros (NOT 1 :: u64) = 1" by code_simp
  then have "\<exists>t'. job_allocate job_table_new = (Some \<lparr>jsi_index = 1, jsi_generation = 1\<rparr>, t')"
    by (simp add: job_allocate_unfold job_table_new_def MAX_JOBS_def Let_def)
  with job_table_slots [OF wf, of "\<lparr>jsi_index = 1, jsi_generation = 1\<rparr>"] show ?thesis by fastforce
qed

end
