(* ===== verification/Frame_Allocator.thy ===== *)
theory Frame_Allocator
  imports Rust_Prelude
begin

unbundle bit_operations_syntax

text \<open>
  The physical memory manager (\<open>huesos-pmm/src/lib.rs\<close>): a bitmap of 4 KiB frames with a next-fit
  search for one frame and a first-fit search for an aligned run. The allocator's bitmap, which the
  code reaches through the direct map, is a field of the record: writes to a frame that was handed
  out cannot reach it here. For regions that start on a frame that is no loss, since what is handed
  out then never overlaps the bytes of the bitmap. Frame indices and counts are
  naturals. They stay below \<open>2 ^ 52 + 1\<close> because addresses are 64 bits wide, so the saturating
  additions of the run search never saturate and are plain additions here.
\<close>

section \<open>The bitmap allocator\<close>

definition FRAME_SIZE :: u64 where
  "FRAME_SIZE = 4096"

record memory_region =
  mr_base :: u64
  mr_length :: u64
  mr_usable :: bool
  mr_kind :: u64

datatype pmm_error = OutOfMemory | NotInitialized | PmmInvalidArgs

datatype pmm_init_error = NoUsableRegion

record bitmap_allocator =
  ba_bitmap :: "u8 list"
  ba_frame_count :: nat
  ba_cursor :: nat

record pmm =
  pm_allocator :: "bitmap_allocator option"
  pm_free_frames :: u64
  pm_total_frames :: nat

definition set_used :: "bitmap_allocator \<Rightarrow> nat \<Rightarrow> bitmap_allocator" where
  "set_used a frame_idx = a\<lparr>ba_bitmap := bitmap_set (ba_bitmap a) frame_idx\<rparr>"

definition set_free :: "bitmap_allocator \<Rightarrow> nat \<Rightarrow> bitmap_allocator" where
  "set_free a frame_idx = a\<lparr>ba_bitmap := bitmap_clear (ba_bitmap a) frame_idx\<rparr>"

definition is_used :: "bitmap_allocator \<Rightarrow> nat \<Rightarrow> bool" where
  "is_used a frame_idx = bitmap_test (ba_bitmap a) frame_idx"

definition frame_address :: "nat \<Rightarrow> u64" where
  "frame_address idx = of_nat idx * FRAME_SIZE"

definition frame_allocate :: "bitmap_allocator \<Rightarrow> u64 \<Rightarrow> u64 option \<times> bitmap_allocator \<times> u64" where
  "frame_allocate a free =
     (let start = ba_cursor a; n = ba_frame_count a in
      case find (\<lambda>offset. \<not> is_used a ((start + offset) mod n)) [0..<n] of
        None \<Rightarrow> (None, a, free)
      | Some offset \<Rightarrow>
          let idx = (start + offset) mod n in
          (Some (frame_address idx), (set_used a idx)\<lparr>ba_cursor := (idx + 1) mod n\<rparr>, free - 1))"

definition free_run :: "bitmap_allocator \<Rightarrow> nat \<Rightarrow> nat \<Rightarrow> nat" where
  "free_run a idx frame_count = length (takeWhile (\<lambda>run. \<not> is_used a (idx + run)) [0..<frame_count])"

lemma align_step: "idx mod max alignment 1 < max alignment (1 :: nat)"
  by (rule mod_less_divisor) simp

function contiguous_scan :: "bitmap_allocator \<Rightarrow> nat \<Rightarrow> nat \<Rightarrow> nat \<Rightarrow> nat \<Rightarrow> nat option" where
  "contiguous_scan a frame_count alignment_frames max_frame idx =
     (let alignment = max alignment_frames 1 in
      if idx \<le> max_frame - frame_count then
        let misalignment = idx mod alignment in
        if misalignment \<noteq> 0
        then contiguous_scan a frame_count alignment_frames max_frame (idx + (alignment - misalignment))
        else let run = free_run a idx frame_count in
          if run = frame_count then Some idx
          else contiguous_scan a frame_count alignment_frames max_frame (idx + max run 1)
      else None)"
  by pat_completeness auto
termination
proof (relation "measure (\<lambda>(a, frame_count, alignment_frames, max_frame, idx). Suc max_frame - idx)", goal_cases)
  case (2 a frame_count alignment_frames max_frame idx alignment misalignment)
  then have "misalignment < alignment" by (simp only: align_step)
  with 2 have "Suc max_frame - (idx + (alignment - misalignment)) < Suc max_frame - idx" by linarith
  then show ?case by simp
qed auto

declare contiguous_scan.simps [simp del]

definition allocate_contiguous ::
  "bitmap_allocator \<Rightarrow> u64 \<Rightarrow> nat \<Rightarrow> nat \<Rightarrow> u64 \<Rightarrow> u64 option \<times> bitmap_allocator \<times> u64" where
  "allocate_contiguous a free frame_count alignment_frames max_exclusive =
     (if frame_count = 0 then (None, a, free)
      else let max_frame = min (unat (div_ceil max_exclusive FRAME_SIZE)) (ba_frame_count a) in
        if max_frame < frame_count then (None, a, free)
        else case contiguous_scan a frame_count alignment_frames max_frame 0 of
            None \<Rightarrow> (None, a, free)
          | Some idx \<Rightarrow>
              (Some (frame_address idx),
               (foldl set_used a [idx..<idx + frame_count])
                 \<lparr>ba_cursor := (idx + frame_count) mod ba_frame_count a\<rparr>,
               free - of_nat frame_count))"

definition frame_deallocate :: "bitmap_allocator \<Rightarrow> u64 \<Rightarrow> u64 \<Rightarrow> bitmap_allocator \<times> u64" where
  "frame_deallocate a free phys_addr =
     (let idx = unat (phys_addr div FRAME_SIZE) in
      if idx < ba_frame_count a \<and> is_used a idx then (set_free a idx, free + 1) else (a, free))"

section \<open>The interface\<close>

definition regions_end :: "memory_region list \<Rightarrow> u64" where
  "regions_end regions = foldl max 0 (map (\<lambda>r. saturating_add (mr_base r) (mr_length r)) regions)"

definition release_one :: "bitmap_allocator \<times> u64 \<Rightarrow> nat \<Rightarrow> bitmap_allocator \<times> u64" where
  "release_one acc idx = (case acc of (a, free) \<Rightarrow> (set_free a idx, saturating_add free 1))"

definition reserve_one :: "bitmap_allocator \<times> u64 \<Rightarrow> nat \<Rightarrow> bitmap_allocator \<times> u64" where
  "reserve_one acc idx =
     (case acc of (a, free) \<Rightarrow> (set_used a idx, if \<not> is_used a idx then saturating_sub free 1 else free))"

definition release_region :: "bitmap_allocator \<times> u64 \<Rightarrow> memory_region \<Rightarrow> bitmap_allocator \<times> u64" where
  "release_region acc r =
     (if \<not> mr_usable r then acc
      else let n = ba_frame_count (fst acc);
               start_frame = unat (mr_base r div FRAME_SIZE);
               end_frame = min (unat (saturating_add (mr_base r) (mr_length r) div FRAME_SIZE)) n in
        foldl release_one acc
          (takeWhile (\<lambda>idx. idx < n) [start_frame..<end_frame]))"

definition reserve_bitmap :: "bitmap_allocator \<times> u64 \<Rightarrow> u64 \<Rightarrow> nat \<Rightarrow> bitmap_allocator \<times> u64" where
  "reserve_bitmap acc bitmap_phys bitmap_frames =
     (let n = ba_frame_count (fst acc);
          bmp_start = unat (bitmap_phys div FRAME_SIZE);
          bmp_end = min (bmp_start + bitmap_frames) n in
      foldl reserve_one acc
        (takeWhile (\<lambda>idx. idx < n) [bmp_start..<bmp_end]))"

definition pmm_init :: "pmm \<Rightarrow> memory_region list \<Rightarrow> (pmm_init_error + unit) \<times> pmm" where
  "pmm_init s regions =
     (let highest = regions_end regions;
          frame_count = unat (div_ceil highest FRAME_SIZE);
          bitmap_bytes = (frame_count + 7) div 8;
          bitmap_frames = (bitmap_bytes + 4095) div 4096 in
      case find (\<lambda>r. mr_usable r \<and> bitmap_frames * 4096 \<le> unat (mr_length r)) regions of
        None \<Rightarrow> (Inl NoUsableRegion, s)
      | Some r \<Rightarrow>
          let alloc = \<lparr>ba_bitmap = replicate bitmap_bytes 0xFF, ba_frame_count = frame_count, ba_cursor = 0\<rparr>;
              (alloc, free) = reserve_bitmap (foldl release_region (alloc, 0) regions) (mr_base r) bitmap_frames in
          (Inr (), \<lparr>pm_allocator = Some alloc, pm_free_frames = free, pm_total_frames = frame_count\<rparr>))"

definition protect_one :: "bitmap_allocator \<times> u64 \<Rightarrow> nat \<Rightarrow> bitmap_allocator \<times> u64" where
  "protect_one acc f = (case acc of (a, free) \<Rightarrow>
     if f < ba_frame_count a \<and> \<not> is_used a f then (set_used a f, free - 1) else (a, free))"

definition reserve_range :: "pmm \<Rightarrow> u64 \<Rightarrow> u64 \<Rightarrow> pmm" where
  "reserve_range s base len =
     (case pm_allocator s of
        None \<Rightarrow> s
      | Some alloc \<Rightarrow>
          let start_frame = unat (base div FRAME_SIZE);
              end_frame = min (unat (div_ceil (saturating_add base len) FRAME_SIZE)) (ba_frame_count alloc);
              (alloc, free) = foldl protect_one (alloc, pm_free_frames s) [start_frame..<end_frame] in
          s\<lparr>pm_allocator := Some alloc, pm_free_frames := free\<rparr>)"

definition alloc_frame :: "pmm \<Rightarrow> (pmm_error + u64) \<times> pmm" where
  "alloc_frame s =
     (case pm_allocator s of
        None \<Rightarrow> (Inl NotInitialized, s)
      | Some alloc \<Rightarrow>
          let (result, alloc, free) = frame_allocate alloc (pm_free_frames s) in
          (ok_or result OutOfMemory, s\<lparr>pm_allocator := Some alloc, pm_free_frames := free\<rparr>))"

definition alloc_contiguous_aligned :: "pmm \<Rightarrow> u64 \<Rightarrow> u64 \<Rightarrow> u64 \<Rightarrow> (pmm_error + u64) \<times> pmm" where
  "alloc_contiguous_aligned s len alignment max_exclusive =
     (if len = 0 \<or> alignment = 0 \<or> len mod FRAME_SIZE \<noteq> 0 \<or> alignment mod FRAME_SIZE \<noteq> 0
      then (Inl PmmInvalidArgs, s)
      else let frame_count = unat (len div FRAME_SIZE);
               alignment_frames = unat (alignment div FRAME_SIZE);
               mx = (if max_exclusive = 0 then - 1 else max_exclusive) in
        case pm_allocator s of
          None \<Rightarrow> (Inl NotInitialized, s)
        | Some alloc \<Rightarrow>
            let (result, alloc, free) =
              allocate_contiguous alloc (pm_free_frames s) frame_count alignment_frames mx in
            (ok_or result OutOfMemory, s\<lparr>pm_allocator := Some alloc, pm_free_frames := free\<rparr>))"

definition free_frame :: "pmm \<Rightarrow> u64 \<Rightarrow> pmm" where
  "free_frame s phys_addr =
     (case pm_allocator s of
        None \<Rightarrow> s
      | Some alloc \<Rightarrow>
          let (alloc, free) = frame_deallocate alloc (pm_free_frames s) phys_addr in
          s\<lparr>pm_allocator := Some alloc, pm_free_frames := free\<rparr>)"

section \<open>Frames as a set\<close>

definition frame_capacity :: "bitmap_allocator \<Rightarrow> nat" where
  "frame_capacity a = min (ba_frame_count a) (bitmap_bits (ba_bitmap a))"

interpretation frame_map: index_set is_used set_used set_free frame_capacity
  by unfold_locales
    (simp_all add: is_used_def set_used_def set_free_def frame_capacity_def bitmap_test_set bitmap_test_clear)

definition allocator_wf :: "bitmap_allocator \<Rightarrow> bool" where
  "allocator_wf a \<longleftrightarrow> ba_frame_count a \<le> bitmap_bits (ba_bitmap a) \<and> ba_frame_count a \<le> 2 ^ 52"

definition free_set :: "bitmap_allocator \<Rightarrow> nat set" where
  "free_set a = {i. i < ba_frame_count a \<and> \<not> is_used a i}"

lemma frame_capacity_wf: "allocator_wf a \<Longrightarrow> frame_capacity a = ba_frame_count a"
  by (simp add: allocator_wf_def frame_capacity_def)

lemma allocator_ops_fields [simp]:
  "ba_frame_count (set_used a i) = ba_frame_count a" "ba_frame_count (set_free a i) = ba_frame_count a"
  "allocator_wf (set_used a i) = allocator_wf a" "allocator_wf (set_free a i) = allocator_wf a"
  "allocator_wf (a\<lparr>ba_cursor := c\<rparr>) = allocator_wf a" "is_used (a\<lparr>ba_cursor := c\<rparr>) i = is_used a i"
  "free_set (a\<lparr>ba_cursor := c\<rparr>) = free_set a"
  by (simp_all add: set_used_def set_free_def allocator_wf_def is_used_def free_set_def)

lemma finite_free_set [simp]: "finite (free_set a)"
  by (simp add: free_set_def)

lemma free_set_used: "allocator_wf a \<Longrightarrow> i < ba_frame_count a \<Longrightarrow> free_set (set_used a i) = free_set a - {i}"
  using frame_map.mem_ins [of i a] by (auto simp: free_set_def frame_capacity_wf)

lemma free_set_free: "allocator_wf a \<Longrightarrow> i < ba_frame_count a \<Longrightarrow> free_set (set_free a i) = insert i (free_set a)"
  using frame_map.mem_del [of i a] by (auto simp: free_set_def frame_capacity_wf)

lemma foldl_set_used:
  "allocator_wf a \<Longrightarrow> \<forall>i\<in>set xs. i < ba_frame_count a \<Longrightarrow>
     allocator_wf (foldl set_used a xs) \<and> ba_frame_count (foldl set_used a xs) = ba_frame_count a
     \<and> free_set (foldl set_used a xs) = free_set a - set xs"
  by (induction xs arbitrary: a) (auto simp: free_set_used)

lemma card_free_set: "allocator_wf a \<Longrightarrow> card (free_set a) \<le> 2 ^ 52"
proof -
  assume "allocator_wf a"
  moreover have "card (free_set a) \<le> card {..<ba_frame_count a}"
    by (rule card_mono) (auto simp: free_set_def)
  ultimately show ?thesis by (simp add: allocator_wf_def)
qed

lemma unat_frame_address: "i < 2 ^ 52 \<Longrightarrow> unat (frame_address i) = i * 4096"
  by (simp add: frame_address_def FRAME_SIZE_def unat_mult_nowrap unat_of_nat)

lemma frame_of_address: "i < 2 ^ 52 \<Longrightarrow> unat (frame_address i div FRAME_SIZE) = i"
  by (simp add: unat_div_word unat_frame_address FRAME_SIZE_def)

lemma div_ceil_frames: "unat (div_ceil h FRAME_SIZE) = (unat h + 4095) div 4096"
  by (simp add: unat_div_ceil FRAME_SIZE_def)

section \<open>Searching\<close>

lemma find_residue:
  assumes "find (\<lambda>offset. P ((start + offset) mod n)) [0..<n] = None" "i < n"
  shows "\<not> P (i :: nat)"
proof -
  let ?o = "(i + n - start mod n) mod n"
  have "(start + ?o) mod n = (start mod n + (i + n - start mod n)) mod n" by (simp add: mod_simps)
  also have "start mod n + (i + n - start mod n) = i + n"
    using assms(2) mod_less_divisor [of n start] by linarith
  finally have "(start + ?o) mod n = i" using assms(2) by simp
  moreover have "?o \<in> set [0..<n]" using assms(2) by simp
  ultimately show ?thesis using assms(1) unfolding find_None_iff by metis
qed

lemma find_upt_skip:
  "i \<le> j \<Longrightarrow> \<forall>k. i \<le> k \<and> k < j \<longrightarrow> \<not> P k \<Longrightarrow> find P [i..<m] = find P [j..<m]"
proof (induction "j - i" arbitrary: i)
  case (Suc d)
  then have "find P [Suc i..<m] = find P [j..<m]" by (intro Suc.hyps) auto
  moreover have "\<not> P i" using Suc by auto
  ultimately show ?case using Suc.hyps(2) by (cases "i < m") (auto simp: upt_conv_Cons)
qed simp

definition run_free :: "bitmap_allocator \<Rightarrow> nat \<Rightarrow> nat \<Rightarrow> bool" where
  "run_free a idx n \<longleftrightarrow> (\<forall>k. idx \<le> k \<and> k < idx + n \<longrightarrow> \<not> is_used a k)"

definition run_fits :: "bitmap_allocator \<Rightarrow> nat \<Rightarrow> nat \<Rightarrow> nat \<Rightarrow> bool" where
  "run_fits a n alignment idx \<longleftrightarrow> idx mod max alignment 1 = 0 \<and> run_free a idx n"

lemma free_run_full: "free_run a idx n = n \<longleftrightarrow> run_free a idx n"
proof -
  have "free_run a idx n = n \<longleftrightarrow> takeWhile (\<lambda>run. \<not> is_used a (idx + run)) [0..<n] = [0..<n]"
    unfolding free_run_def by (metis length_upt minus_nat.diff_0 takeWhile_eq_take take_all_iff order_refl)
  also have "\<dots> \<longleftrightarrow> (\<forall>r < n. \<not> is_used a (idx + r))" by (auto simp: takeWhile_eq_all_conv)
  also have "\<dots> \<longleftrightarrow> run_free a idx n"
    unfolding run_free_def by (metis add_le_cancel_left le_add1 le_iff_add nat_add_left_cancel_less)
  finally show ?thesis .
qed

lemma free_run_stops:
  assumes "free_run a idx n \<noteq> n"
  shows "free_run a idx n < n" "is_used a (idx + free_run a idx n)"
proof -
  let ?P = "\<lambda>run. \<not> is_used a (idx + run)"
  have "free_run a idx n \<le> n"
    using length_takeWhile_le [of ?P "[0..<n]"] by (simp add: free_run_def)
  with assms show lt: "free_run a idx n < n" by simp
  then show "is_used a (idx + free_run a idx n)"
    using nth_length_takeWhile [of ?P "[0..<n]"] by (simp add: free_run_def)
qed

lemma contiguous_scan_find:
  "contiguous_scan a n alignment m idx = find (run_fits a n alignment) [idx..<Suc (m - n)]"
proof (induction a n alignment m idx rule: contiguous_scan.induct)
  case (1 a n alignment m idx)
  let ?al = "max alignment 1"
  show ?case
  proof (cases "idx \<le> m - n")
    case False
    then show ?thesis by (simp add: contiguous_scan.simps [of a])
  next
    case True
    show ?thesis
    proof (cases "idx mod ?al = 0")
      case False
      let ?j = "idx + (?al - idx mod ?al)"
      have "\<not> run_fits a n alignment k" if k: "idx \<le> k" "k < ?j" for k
      proof -
        obtain d where d: "k = idx + d" "d < ?al - idx mod ?al" using k by (auto simp: le_iff_add)
        have "k mod ?al = (idx mod ?al + d) mod ?al" by (simp add: d(1) mod_simps)
        also have "\<dots> = idx mod ?al + d" using d(2) by (intro mod_less) linarith
        finally show ?thesis using False by (simp add: run_fits_def)
      qed
      then have "find (run_fits a n alignment) [idx..<Suc (m - n)] = find (run_fits a n alignment) [?j..<Suc (m - n)]"
        by (intro find_upt_skip) (simp_all only: le_add1, blast)
      then show ?thesis using True False 1(1) by (simp add: contiguous_scan.simps [of a n alignment m idx] Let_def)
    next
      case aligned: True
      show ?thesis
      proof (cases "free_run a idx n = n")
        case True
        then show ?thesis using \<open>idx \<le> m - n\<close> aligned free_run_full [of a idx n]
          by (simp add: contiguous_scan.simps [of a n alignment m idx] upt_conv_Cons run_fits_def Let_def
              del: upt_Suc)
      next
        case False
        let ?r = "free_run a idx n"
        have "\<not> run_fits a n alignment k" if k: "idx \<le> k" "k < idx + max ?r 1" for k
        proof -
          have "k \<le> idx + ?r" "idx + ?r < k + n" using k free_run_stops(1) [OF False] by auto
          then show ?thesis using free_run_stops(2) [OF False] by (auto simp: run_fits_def run_free_def)
        qed
        then have "find (run_fits a n alignment) [idx..<Suc (m - n)]
            = find (run_fits a n alignment) [idx + max ?r 1..<Suc (m - n)]"
          by (intro find_upt_skip) auto
        then show ?thesis using True aligned False 1(2)
          by (simp add: contiguous_scan.simps [of a n alignment m idx] Let_def)
      qed
    qed
  qed
qed

lemma frame_allocate_none: "free_set a = {} \<Longrightarrow> frame_allocate a free = (None, a, free)"
proof -
  assume none: "free_set a = {}"
  have "find (\<lambda>offset. \<not> is_used a ((ba_cursor a + offset) mod ba_frame_count a)) [0..<ba_frame_count a] = None"
    using none by (fastforce simp: find_None_iff free_set_def)
  then show ?thesis by (simp add: frame_allocate_def)
qed

lemma frame_allocate_some:
  assumes wf: "allocator_wf a" and some: "free_set a \<noteq> {}"
  obtains i a' where "frame_allocate a free = (Some (frame_address i), a', free - 1)" "i \<in> free_set a"
    "allocator_wf a'" "ba_frame_count a' = ba_frame_count a" "free_set a' = free_set a - {i}"
proof -
  let ?n = "ba_frame_count a"
  let ?f = "find (\<lambda>offset. \<not> is_used a ((ba_cursor a + offset) mod ?n)) [0..<?n]"
  have "?f \<noteq> None"
    using some find_residue [of "\<lambda>i. \<not> is_used a i" "ba_cursor a" ?n] by (auto simp: free_set_def)
  then obtain off where off: "?f = Some off" by blast
  let ?i = "(ba_cursor a + off) mod ?n"
  have "off < ?n" "\<not> is_used a ?i" using off by (auto simp: find_Some_iff)
  then have i: "?i < ?n" "?i \<in> free_set a" by (auto simp: free_set_def)
  show ?thesis
  proof (rule that)
    show "frame_allocate a free =
        (Some (frame_address ?i), (set_used a ?i)\<lparr>ba_cursor := (?i + 1) mod ?n\<rparr>, free - 1)"
      using off by (simp add: frame_allocate_def Let_def)
    show "free_set ((set_used a ?i)\<lparr>ba_cursor := (?i + 1) mod ?n\<rparr>) = free_set a - {?i}"
      using free_set_used [OF wf i(1)] by simp
  qed (use wf i in simp_all)
qed

definition run_limit :: "bitmap_allocator \<Rightarrow> u64 \<Rightarrow> nat" where
  "run_limit a max_exclusive = min ((unat max_exclusive + 4095) div 4096) (ba_frame_count a)"

lemma allocate_contiguous_none:
  assumes "allocate_contiguous a free n alignment mx = (None, a', free')" "0 < n"
  shows "a' = a \<and> free' = free \<and> (\<forall>i. i + n \<le> run_limit a mx \<longrightarrow> \<not> run_fits a n alignment i)"
proof -
  let ?m = "run_limit a mx"
  have c: "allocate_contiguous a free n alignment mx = (if ?m < n then (None, a, free)
      else case find (run_fits a n alignment) [0..<Suc (?m - n)] of None \<Rightarrow> (None, a, free)
        | Some idx \<Rightarrow> (Some (frame_address idx), (foldl set_used a [idx..<idx + n])
               \<lparr>ba_cursor := (idx + n) mod ba_frame_count a\<rparr>, free - of_nat n))"
    using assms(2) by (simp add: allocate_contiguous_def run_limit_def div_ceil_frames contiguous_scan_find
        Let_def del: upt_Suc)
  show ?thesis
  proof (cases "?m < n")
    case True
    then show ?thesis using assms(1) c by auto
  next
    case False
    then have "find (run_fits a n alignment) [0..<Suc (?m - n)] = None"
      using assms(1) c by (auto split: option.splits)
    then have "\<not> run_fits a n alignment i" if "i < Suc (?m - n)" for i
      using that by (simp add: find_None_iff del: upt_Suc)
    then show ?thesis using assms(1) c False by (auto split: option.splits)
  qed
qed

lemma allocate_contiguous_some:
  assumes wf: "allocator_wf a" and r: "allocate_contiguous a free n alignment mx = (Some p, a', free')"
  obtains i where "p = frame_address i" "0 < n" "i + n \<le> run_limit a mx" "run_fits a n alignment i"
    "\<forall>j < i. \<not> run_fits a n alignment j" "free' = free - of_nat n" "{i..<i + n} \<subseteq> free_set a"
    "allocator_wf a'" "ba_frame_count a' = ba_frame_count a" "free_set a' = free_set a - {i..<i + n}"
proof -
  let ?m = "run_limit a mx"
  have n: "0 < n" "\<not> ?m < n" using r
    by (auto simp: allocate_contiguous_def run_limit_def div_ceil_frames split: if_splits)
  then obtain i where f: "find (run_fits a n alignment) [0..<Suc (?m - n)] = Some i"
    and p: "p = frame_address i" and free': "free' = free - of_nat n"
    and a': "a' = (foldl set_used a [i..<i + n])\<lparr>ba_cursor := (i + n) mod ba_frame_count a\<rparr>"
    using r by (auto simp: allocate_contiguous_def run_limit_def div_ceil_frames contiguous_scan_find
        simp del: upt_Suc split: option.splits)
  have i: "i < Suc (?m - n)" "run_fits a n alignment i" and least: "\<forall>j < i. \<not> run_fits a n alignment j"
    using f by (auto simp: find_Some_iff simp del: upt_Suc)
  then have le: "i + n \<le> ?m" using n by linarith
  then have fc: "\<forall>k\<in>set [i..<i + n]. k < ba_frame_count a" by (auto simp: run_limit_def)
  moreover from i(2) fc have "{i..<i + n} \<subseteq> free_set a" by (auto simp: run_fits_def run_free_def free_set_def)
  ultimately show ?thesis
    using that [OF p n(1) le i(2) least free'] foldl_set_used [OF wf fc] by (simp add: a')
qed

section \<open>The frame map after initialisation\<close>

definition region_frames :: "nat \<Rightarrow> memory_region \<Rightarrow> nat list" where
  "region_frames n r = [unat (mr_base r div FRAME_SIZE)
     ..<min (unat (saturating_add (mr_base r) (mr_length r) div FRAME_SIZE)) n]"

definition usable_frames :: "nat \<Rightarrow> memory_region list \<Rightarrow> nat list" where
  "usable_frames n regions = concat (map (region_frames n) (filter mr_usable regions))"

text \<open>
  The counter is the number of clear bits plus a drift, modulo \<open>2 ^ 64\<close>. Boot over usable regions
  that do not overlap gives drift 0; whatever boot left, no later operation changes it.
\<close>

definition counted :: "u64 \<Rightarrow> bitmap_allocator \<times> u64 \<Rightarrow> bool" where
  "counted d acc \<longleftrightarrow> allocator_wf (fst acc) \<and> snd acc = of_nat (card (free_set (fst acc))) + d"

lemma counted_zero:
  "counted 0 acc \<longleftrightarrow> allocator_wf (fst acc) \<and> unat (snd acc) = card (free_set (fst acc))"
proof -
  have "snd acc = of_nat (card (free_set (fst acc))) \<longleftrightarrow> unat (snd acc) = card (free_set (fst acc))"
    if "allocator_wf (fst acc)"
  proof
    have "card (free_set (fst acc)) < 2 ^ 64" using card_free_set [OF that] by simp
    then show "unat (snd acc) = card (free_set (fst acc))" if "snd acc = of_nat (card (free_set (fst acc)))"
      using that by (simp add: unat_of_nat)
    show "snd acc = of_nat (card (free_set (fst acc)))" if "unat (snd acc) = card (free_set (fst acc))"
      using that [symmetric] by simp
  qed
  then show ?thesis by (auto simp: counted_def)
qed

lemma takeWhile_upt_min [simp]: "takeWhile (\<lambda>idx. idx < n) [s..<min e n] = [s..<min e n]"
  by (rule takeWhile_eq_all_conv [THEN iffD2]) auto

lemma release_one_fields [simp]: "ba_frame_count (fst (release_one acc i)) = ba_frame_count (fst acc)"
  by (simp add: release_one_def split: prod.splits)

lemma release_ones_fields [simp]: "ba_frame_count (fst (foldl release_one acc xs)) = ba_frame_count (fst acc)"
  by (induction xs arbitrary: acc) simp_all

lemma release_region_eq:
  "release_region acc r =
     (if mr_usable r then foldl release_one acc (region_frames (ba_frame_count (fst acc)) r) else acc)"
  by (simp add: release_region_def region_frames_def Let_def)

lemma release_regions_eq:
  "ba_frame_count (fst acc) = n \<Longrightarrow> foldl release_region acc regions = foldl release_one acc (usable_frames n regions)"
  by (induction regions arbitrary: acc) (simp_all add: release_region_eq usable_frames_def)

lemma counted_release_one:
  assumes "counted 0 acc" "i < ba_frame_count (fst acc)" "i \<notin> free_set (fst acc)"
  shows "counted 0 (release_one acc i)" "free_set (fst (release_one acc i)) = insert i (free_set (fst acc))"
proof -
  obtain a free where acc: "acc = (a, free)" by (cases acc)
  have wf: "allocator_wf a" and c: "unat free = card (free_set a)" and i: "i < ba_frame_count a" "i \<notin> free_set a"
    using assms by (auto simp: counted_zero acc)
  show f: "free_set (fst (release_one acc i)) = insert i (free_set (fst acc))"
    using free_set_free [OF wf i(1)] by (simp add: release_one_def acc)
  have "card (free_set a) + 1 < 2 ^ 64" using card_free_set [OF wf] by simp
  then show "counted 0 (release_one acc i)"
    using f wf c i by (simp add: counted_zero release_one_def acc unat_saturating_add)
qed

lemma counted_release:
  "counted 0 acc \<Longrightarrow> distinct xs \<Longrightarrow> \<forall>i\<in>set xs. i < ba_frame_count (fst acc) \<and> i \<notin> free_set (fst acc) \<Longrightarrow>
     counted 0 (foldl release_one acc xs) \<and> free_set (fst (foldl release_one acc xs)) = free_set (fst acc) \<union> set xs"
proof (induction xs arbitrary: acc)
  case (Cons x xs)
  then have one: "counted 0 (release_one acc x)" "free_set (fst (release_one acc x)) = insert x (free_set (fst acc))"
    by (simp_all add: counted_release_one)
  have "counted 0 (foldl release_one (release_one acc x) xs) \<and>
      free_set (fst (foldl release_one (release_one acc x) xs)) = free_set (fst (release_one acc x)) \<union> set xs"
    using Cons.prems one(2) by (intro Cons.IH one(1)) auto
  then show ?case using one(2) by simp
qed simp

lemma counted_reserve_one:
  assumes "counted 0 acc" "i < ba_frame_count (fst acc)"
  shows "counted 0 (reserve_one acc i)" "free_set (fst (reserve_one acc i)) = free_set (fst acc) - {i}"
    "ba_frame_count (fst (reserve_one acc i)) = ba_frame_count (fst acc)"
proof -
  obtain a free where acc: "acc = (a, free)" by (cases acc)
  have wf: "allocator_wf a" and c: "unat free = card (free_set a)" and i: "i < ba_frame_count a"
    using assms by (auto simp: counted_zero acc)
  have f: "free_set (set_used a i) = free_set a - {i}" by (rule free_set_used [OF wf i])
  show "free_set (fst (reserve_one acc i)) = free_set (fst acc) - {i}"
    "ba_frame_count (fst (reserve_one acc i)) = ba_frame_count (fst acc)"
    using f by (simp_all add: reserve_one_def acc)
  show "counted 0 (reserve_one acc i)"
  proof (cases "is_used a i")
    case True
    then have "free_set a - {i} = free_set a" by (auto simp: free_set_def)
    then show ?thesis using True f wf c by (simp add: counted_zero reserve_one_def acc)
  next
    case False
    then have "i \<in> free_set a" using i by (simp add: free_set_def)
    then show ?thesis using False f wf c by (simp add: counted_zero reserve_one_def acc unat_saturating_sub)
  qed
qed

lemma counted_reserve:
  "counted 0 acc \<Longrightarrow> \<forall>i\<in>set xs. i < ba_frame_count (fst acc) \<Longrightarrow>
     counted 0 (foldl reserve_one acc xs) \<and> free_set (fst (foldl reserve_one acc xs)) = free_set (fst acc) - set xs
     \<and> ba_frame_count (fst (foldl reserve_one acc xs)) = ba_frame_count (fst acc)"
proof (induction xs arbitrary: acc)
  case (Cons x xs)
  then show ?case
    using Cons.IH [of "reserve_one acc x"] counted_reserve_one [of acc x] by auto
qed simp

lemma reserve_bitmap_eq:
  "reserve_bitmap acc phys frames = foldl reserve_one acc
     [unat (phys div FRAME_SIZE)..<min (unat (phys div FRAME_SIZE) + frames) (ba_frame_count (fst acc))]"
  by (simp add: reserve_bitmap_def Let_def)

lemma all_used_start:
  "n \<le> 2 ^ 52 \<Longrightarrow> counted 0 (\<lparr>ba_bitmap = replicate ((n + 7) div 8) 0xFF, ba_frame_count = n, ba_cursor = 0\<rparr>, 0)"
  "free_set \<lparr>ba_bitmap = replicate ((n + 7) div 8) 0xFF, ba_frame_count = n, ba_cursor = 0\<rparr> = {}"
proof -
  let ?a = "\<lparr>ba_bitmap = replicate ((n + 7) div 8) 0xFF, ba_frame_count = n, ba_cursor = 0\<rparr>"
  have "bit (0xFF :: u8) (i mod 8)" for i :: nat
  proof -
    have "(0xFF :: u8) = - 1" by simp
    then show ?thesis by (simp only: bit_minus_1_iff) simp
  qed
  then have used: "is_used ?a i" if "i < n" for i
    using that by (auto simp: is_used_def bitmap_test_bit)
  then show e: "free_set ?a = {}" by (auto simp: free_set_def)
  have "n \<le> (n + 7) div 8 * 8" by linarith
  then show "counted 0 (?a, 0)" if "n \<le> 2 ^ 52"
    using that e by (simp add: counted_zero allocator_wf_def bitmap_bits_def)
qed

lemma regions_end_le: "r \<in> set regions \<Longrightarrow> saturating_add (mr_base r) (mr_length r) \<le> regions_end regions"
proof -
  have fold: "b \<le> foldl max b xs \<and> (\<forall>x\<in>set xs. x \<le> foldl max b xs)" for b :: u64 and xs
  proof (induction xs arbitrary: b)
    case (Cons x xs)
    then have "max b x \<le> foldl max (max b x) xs" "\<forall>y\<in>set xs. y \<le> foldl max (max b x) xs" by blast+
    then show ?case by auto
  qed simp
  assume "r \<in> set regions"
  then show ?thesis using fold [of 0 "map (\<lambda>r. saturating_add (mr_base r) (mr_length r)) regions"]
    by (auto simp: regions_end_def)
qed

lemma usable_frames_lt: "f \<in> set (usable_frames n regions) \<Longrightarrow> f < n"
  by (auto simp: usable_frames_def region_frames_def)

definition boot_frames :: "memory_region list \<Rightarrow> nat" where
  "boot_frames regions = unat (div_ceil (regions_end regions) FRAME_SIZE)"

definition bitmap_frames :: "nat \<Rightarrow> nat" where
  "bitmap_frames n = ((n + 7) div 8 + 4095) div 4096"

definition bitmap_home :: "memory_region list \<Rightarrow> memory_region option" where
  "bitmap_home regions =
     find (\<lambda>r. mr_usable r \<and> bitmap_frames (boot_frames regions) * 4096 \<le> unat (mr_length r)) regions"

definition bitmap_reserved :: "memory_region list \<Rightarrow> memory_region \<Rightarrow> nat set" where
  "bitmap_reserved regions r =
     {unat (mr_base r div FRAME_SIZE)..<unat (mr_base r div FRAME_SIZE) + bitmap_frames (boot_frames regions)}"

lemma boot_frames_le: "boot_frames regions \<le> 2 ^ 52"
proof -
  have "unat (regions_end regions) < 2 ^ 64" using unat_lt_pow [of "regions_end regions"] by simp
  then show ?thesis by (simp add: boot_frames_def div_ceil_frames)
qed

lemma release_marks:
  "allocator_wf (fst acc) \<Longrightarrow> \<forall>i\<in>set xs. i < ba_frame_count (fst acc) \<Longrightarrow>
     allocator_wf (fst (foldl release_one acc xs))
     \<and> free_set (fst (foldl release_one acc xs)) = free_set (fst acc) \<union> set xs"
proof (induction xs arbitrary: acc)
  case (Cons x xs)
  then show ?case using Cons.IH [of "release_one acc x"]
    by (auto simp: release_one_def free_set_free split: prod.splits)
qed simp

lemma reserve_marks:
  "allocator_wf (fst acc) \<Longrightarrow> \<forall>i\<in>set xs. i < ba_frame_count (fst acc) \<Longrightarrow>
     allocator_wf (fst (foldl reserve_one acc xs))
     \<and> free_set (fst (foldl reserve_one acc xs)) = free_set (fst acc) - set xs
     \<and> ba_frame_count (fst (foldl reserve_one acc xs)) = ba_frame_count (fst acc)"
proof (induction xs arbitrary: acc)
  case (Cons x xs)
  then show ?case using Cons.IH [of "reserve_one acc x"]
    by (auto simp: reserve_one_def free_set_used split: prod.splits)
qed simp

lemma pmm_init_ok:
  assumes h: "bitmap_home regions = Some r"
  obtains a free where "pmm_init s regions = (Inr (), \<lparr>pm_allocator = Some a, pm_free_frames = free,
       pm_total_frames = boot_frames regions\<rparr>)" "allocator_wf a"
    "distinct (usable_frames (boot_frames regions) regions) \<longrightarrow> counted 0 (a, free)"
    "free_set a = set (usable_frames (boot_frames regions) regions) - bitmap_reserved regions r"
proof -
  let ?n = "boot_frames regions"
  let ?start = "(\<lparr>ba_bitmap = replicate ((?n + 7) div 8) 0xFF, ba_frame_count = ?n, ba_cursor = 0\<rparr>, 0) :: bitmap_allocator \<times> u64"
  let ?xs = "usable_frames ?n regions"
  let ?mid = "foldl release_one ?start ?xs"
  let ?ys = "[unat (mr_base r div FRAME_SIZE)..<min (unat (mr_base r div FRAME_SIZE) + bitmap_frames ?n) ?n]"
  let ?fin = "foldl reserve_one ?mid ?ys"
  have st: "counted 0 ?start" "free_set (fst ?start) = {}"
    using all_used_start [of ?n] boot_frames_le [of regions] by simp_all
  have lt: "\<forall>i\<in>set ?xs. i < ba_frame_count (fst ?start)" using usable_frames_lt by auto
  have "allocator_wf (fst ?start)" using st(1) unfolding counted_zero by blast
  from release_marks [OF this lt] have mid: "allocator_wf (fst ?mid)" "free_set (fst ?mid) = set ?xs"
    using st(2) by simp_all
  then have fin: "allocator_wf (fst ?fin) \<and> free_set (fst ?fin) = set ?xs - set ?ys"
    using reserve_marks [of ?mid ?ys] by auto
  have cnt: "counted 0 ?fin" if "distinct ?xs"
  proof -
    have "counted 0 ?mid" using counted_release [OF st(1) that] st(2) usable_frames_lt by auto
    then show ?thesis using counted_reserve [of ?mid ?ys] by auto
  qed
  have "set ?xs - set ?ys = set ?xs - bitmap_reserved regions r"
    using usable_frames_lt by (auto simp: bitmap_reserved_def)
  moreover have "pmm_init s regions = (Inr (), \<lparr>pm_allocator = Some (fst ?fin), pm_free_frames = snd ?fin,
       pm_total_frames = ?n\<rparr>)"
    using h by (simp add: pmm_init_def boot_frames_def [symmetric] bitmap_frames_def [symmetric]
        bitmap_home_def reserve_bitmap_eq release_regions_eq Let_def split: prod.splits)
  ultimately show ?thesis using that [of "fst ?fin" "snd ?fin"] fin cnt by auto
qed

section \<open>Exclusive ownership of frames\<close>

definition pmm_wf :: "u64 \<Rightarrow> pmm \<Rightarrow> bool" where
  "pmm_wf d s \<longleftrightarrow> (case pm_allocator s of None \<Rightarrow> True | Some a \<Rightarrow> counted d (a, pm_free_frames s))"

definition frame_of :: "u64 \<Rightarrow> nat" where
  "frame_of p = unat (p div FRAME_SIZE)"

definition free_frame_set :: "pmm \<Rightarrow> nat set" where
  "free_frame_set s = (case pm_allocator s of None \<Rightarrow> {} | Some a \<Rightarrow> free_set a)"

definition tracked_frames :: "pmm \<Rightarrow> nat" where
  "tracked_frames s = (case pm_allocator s of None \<Rightarrow> 0 | Some a \<Rightarrow> ba_frame_count a)"

lemma counted_minus:
  assumes "counted d (a, free)" "allocator_wf a'" "X \<subseteq> free_set a" "free_set a' = free_set a - X"
  shows "counted d (a', free - of_nat (card X))"
proof -
  have "finite X" "card X \<le> card (free_set a)"
    using assms(3) finite_free_set [of a] by (auto intro: finite_subset card_mono)
  then show ?thesis using assms by (simp add: counted_def card_Diff_subset)
qed

lemma alloc_frame_cases:
  assumes "pmm_wf d s"
  shows "(pm_allocator s = None \<and> alloc_frame s = (Inl NotInitialized, s))
    \<or> (pm_allocator s \<noteq> None \<and> free_frame_set s = {} \<and> alloc_frame s = (Inl OutOfMemory, s))
    \<or> (\<exists>i s'. alloc_frame s = (Inr (frame_address i), s') \<and> i \<in> free_frame_set s \<and> i < 2 ^ 52 \<and> pmm_wf d s'
         \<and> free_frame_set s' = free_frame_set s - {i} \<and> tracked_frames s' = tracked_frames s)"
proof (cases "pm_allocator s")
  case None
  then show ?thesis by (simp add: alloc_frame_def)
next
  case (Some a)
  have c: "counted d (a, pm_free_frames s)" and wf: "allocator_wf a"
    using assms Some by (simp_all add: pmm_wf_def counted_def)
  show ?thesis
  proof (cases "free_set a = {}")
    case True
    then show ?thesis using Some by (simp add: alloc_frame_def frame_allocate_none free_frame_set_def)
  next
    case False
    obtain i a' where al: "frame_allocate a (pm_free_frames s) = (Some (frame_address i), a', pm_free_frames s - 1)"
      and i: "i \<in> free_set a" and a': "allocator_wf a'" "ba_frame_count a' = ba_frame_count a"
        "free_set a' = free_set a - {i}"
      by (rule frame_allocate_some [OF wf False])
    have "i < 2 ^ 52" using i wf by (auto simp: free_set_def allocator_wf_def)
    moreover have "counted d (a', pm_free_frames s - 1)"
      using counted_minus [OF c a'(1) _ a'(3)] i by simp
    ultimately show ?thesis using Some al i a'
      by (intro disjI2, intro exI [of _ i]) (simp add: alloc_frame_def free_frame_set_def tracked_frames_def pmm_wf_def)
  qed
qed

definition frames_of :: "u64 \<Rightarrow> u64 \<Rightarrow> nat set" where
  "frames_of p len = {frame_of p..<frame_of p + unat (len div FRAME_SIZE)}"

definition rounded_fit :: "pmm \<Rightarrow> u64 \<Rightarrow> u64 \<Rightarrow> u64 \<Rightarrow> nat \<Rightarrow> bool" where
  "rounded_fit s len alignment mx i \<longleftrightarrow>
     i mod unat (alignment div FRAME_SIZE) = 0
   \<and> i + unat (len div FRAME_SIZE) \<le> (unat (if mx = 0 then - 1 else mx) + 4095) div 4096
   \<and> {i..<i + unat (len div FRAME_SIZE)} \<subseteq> free_frame_set s"

definition contiguous_args :: "u64 \<Rightarrow> u64 \<Rightarrow> bool" where
  "contiguous_args len alignment \<longleftrightarrow>
     len \<noteq> 0 \<and> alignment \<noteq> 0 \<and> len mod FRAME_SIZE = 0 \<and> alignment mod FRAME_SIZE = 0"

text \<open>
  What the documentation asks of a run: aligned, wholly below the physical address cap
  (a cap of 0 is no cap), and free.
\<close>

definition contiguous_fit :: "pmm \<Rightarrow> u64 \<Rightarrow> u64 \<Rightarrow> u64 \<Rightarrow> nat \<Rightarrow> bool" where
  "contiguous_fit s len alignment max_exclusive i \<longleftrightarrow>
     unat alignment dvd i * 4096
   \<and> (max_exclusive = 0 \<or> i * 4096 + unat len \<le> unat max_exclusive)
   \<and> {i..<i + unat (len div FRAME_SIZE)} \<subseteq> free_frame_set s"

lemma whole_frames:
  assumes "w \<noteq> 0" "w mod FRAME_SIZE = 0"
  shows "0 < unat (w div FRAME_SIZE)"
proof -
  have "unat w mod 4096 = 0" using assms(2) unat_mod_word [of w FRAME_SIZE] by (simp add: FRAME_SIZE_def)
  moreover have "0 < unat w" using assms(1) by (simp add: unat_gt_0)
  ultimately have "0 < unat w div 4096" by (auto simp: div_greater_zero_iff dest: dvd_imp_le)
  then show ?thesis by (simp add: unat_div_word FRAME_SIZE_def)
qed

lemma frame_multiple: "w mod FRAME_SIZE = 0 \<Longrightarrow> unat w = 4096 * unat (w div FRAME_SIZE)"
proof -
  assume "w mod FRAME_SIZE = 0"
  then have "unat w mod 4096 = 0" using unat_mod_word [of w FRAME_SIZE] by (simp add: FRAME_SIZE_def)
  then show ?thesis using mult_div_mod_eq [of 4096 "unat w"] by (simp add: unat_div_word FRAME_SIZE_def)
qed

lemma contiguous_args_pos:
  "contiguous_args len alignment \<Longrightarrow> 0 < unat (len div FRAME_SIZE) \<and> 0 < unat (alignment div FRAME_SIZE)"
  unfolding contiguous_args_def by (metis whole_frames)

lemma rounded_fit_run:
  assumes "pm_allocator s = Some a" "0 < unat (alignment div FRAME_SIZE)" "0 < unat (len div FRAME_SIZE)"
  shows "rounded_fit s len alignment mx i \<longleftrightarrow>
     i + unat (len div FRAME_SIZE) \<le> run_limit a (if mx = 0 then - 1 else mx)
   \<and> run_fits a (unat (len div FRAME_SIZE)) (unat (alignment div FRAME_SIZE)) i" (is "?l \<longleftrightarrow> ?r")
proof -
  let ?n = "unat (len div FRAME_SIZE)" and ?al = "unat (alignment div FRAME_SIZE)"
  have m: "max ?al 1 = ?al" using assms(2) by simp
  have sub: "{i..<i + ?n} \<subseteq> free_set a \<longleftrightarrow> i + ?n \<le> ba_frame_count a \<and> run_free a i ?n"
  proof
    assume fs: "{i..<i + ?n} \<subseteq> free_set a"
    have "i + ?n - 1 \<in> {i..<i + ?n}" using assms(3) by auto
    with fs have "i + ?n - 1 < ba_frame_count a" unfolding free_set_def by blast
    then show "i + ?n \<le> ba_frame_count a \<and> run_free a i ?n"
      using fs by (auto simp: run_free_def free_set_def subset_iff)
  qed (auto simp: run_free_def free_set_def)
  show ?thesis using assms(1) m sub
    by (auto simp: rounded_fit_def run_limit_def run_fits_def free_frame_set_def)
qed

lemma free_frame_bound: "pmm_wf d s \<Longrightarrow> f \<in> free_frame_set s \<Longrightarrow> f < 2 ^ 52"
  by (auto simp: pmm_wf_def counted_def allocator_wf_def free_frame_set_def free_set_def split: option.splits)

text \<open>For a frame aligned cap, rounding the cap up changes nothing.\<close>

lemma rounded_fit_aligned:
  assumes "pmm_wf d s" "contiguous_args len alignment" "mx mod FRAME_SIZE = 0"
  shows "rounded_fit s len alignment mx i \<longleftrightarrow> contiguous_fit s len alignment mx i"
proof -
  let ?n = "unat (len div FRAME_SIZE)" and ?al = "unat (alignment div FRAME_SIZE)"
  have w: "unat len = 4096 * ?n" "unat alignment = 4096 * ?al" "unat mx = 4096 * unat (mx div FRAME_SIZE)"
    using assms(2,3) by (simp_all add: contiguous_args_def frame_multiple)
  have pos: "0 < ?n" using contiguous_args_pos [OF assms(2)] by simp
  have al: "unat alignment dvd i * 4096 \<longleftrightarrow> i mod ?al = 0"
    unfolding w(2) by (simp add: dvd_eq_mod_eq_0 [symmetric] mult.commute)
  have cap: "i + ?n \<le> (unat (if mx = 0 then - 1 else mx) + 4095) div 4096
      \<longleftrightarrow> mx = 0 \<or> i * 4096 + unat len \<le> unat mx" if "{i..<i + ?n} \<subseteq> free_frame_set s"
  proof (cases "mx = 0")
    case True
    have "i + ?n - 1 \<in> free_frame_set s" using that pos by auto
    then have "i + ?n \<le> 2 ^ 52" using free_frame_bound [OF assms(1)] pos by fastforce
    then show ?thesis using True by (simp add: unat_minus_one_word_nat)
  next
    case False
    then show ?thesis unfolding w(1) w(3) using False by (simp add: w(3)) linarith
  qed
  show ?thesis unfolding rounded_fit_def contiguous_fit_def al
    by (cases "{i..<i + ?n} \<subseteq> free_frame_set s") (simp_all only: cap simp_thms)
qed

lemma alloc_contiguous_ok:
  assumes wf: "pmm_wf d s" and r: "alloc_contiguous_aligned s len alignment mx = (Inr p, s')"
  obtains i where "p = frame_address i" "i < 2 ^ 52" "contiguous_args len alignment"
    "rounded_fit s len alignment mx i" "\<forall>j < i. \<not> rounded_fit s len alignment mx j"
    "pmm_wf d s'" "free_frame_set s' = free_frame_set s - {i..<i + unat (len div FRAME_SIZE)}"
    "tracked_frames s' = tracked_frames s"
proof -
  let ?n = "unat (len div FRAME_SIZE)" and ?al = "unat (alignment div FRAME_SIZE)" and ?m = "if mx = 0 then - 1 else mx"
  have args: "contiguous_args len alignment"
    using r by (auto simp: alloc_contiguous_aligned_def contiguous_args_def split: if_splits)
  then have pos: "0 < ?al" "0 < ?n" using contiguous_args_pos by simp_all
  obtain a a' free' where a: "pm_allocator s = Some a"
    and al: "allocate_contiguous a (pm_free_frames s) ?n ?al ?m = (Some p, a', free')"
    and s': "s' = s\<lparr>pm_allocator := Some a', pm_free_frames := free'\<rparr>"
    using r args by (auto simp: alloc_contiguous_aligned_def contiguous_args_def Let_def ok_or_def
        split: option.splits prod.splits)
  have c: "counted d (a, pm_free_frames s)" and awf: "allocator_wf a"
    using wf a by (simp_all add: pmm_wf_def counted_def)
  obtain i where i: "p = frame_address i" "i + ?n \<le> run_limit a ?m" "run_fits a ?n ?al i"
      "\<forall>j < i. \<not> run_fits a ?n ?al j" "free' = pm_free_frames s - of_nat ?n"
    and fs: "{i..<i + ?n} \<subseteq> free_set a" "free_set a' = free_set a - {i..<i + ?n}"
    and a': "allocator_wf a'" "ba_frame_count a' = ba_frame_count a"
    by (rule allocate_contiguous_some [OF awf al])
  have "counted d (a', free')" using counted_minus [OF c a'(1) fs] i(5) by simp
  moreover have "i < 2 ^ 52" using i(2) pos awf by (auto simp: run_limit_def allocator_wf_def)
  ultimately show ?thesis
    using that [of i] i args fs a' a s' rounded_fit_run [OF a pos(1) pos(2), of mx]
    by (simp add: pmm_wf_def free_frame_set_def tracked_frames_def)
qed

lemma alloc_contiguous_none:
  assumes wf: "pmm_wf d s" and args: "contiguous_args len alignment" and a: "pm_allocator s = Some a"
    and r: "alloc_contiguous_aligned s len alignment mx = (Inl e, s')"
  shows "e = OutOfMemory \<and> s' = s \<and> (\<forall>i. \<not> rounded_fit s len alignment mx i)"
proof -
  let ?n = "unat (len div FRAME_SIZE)" and ?al = "unat (alignment div FRAME_SIZE)" and ?m = "if mx = 0 then - 1 else mx"
  have pos: "0 < ?al" "0 < ?n" using contiguous_args_pos [OF args] by simp_all
  obtain a' free' where al: "allocate_contiguous a (pm_free_frames s) ?n ?al ?m = (None, a', free')"
    and e: "e = OutOfMemory" "s' = s\<lparr>pm_allocator := Some a', pm_free_frames := free'\<rparr>"
    using r args a by (auto simp: alloc_contiguous_aligned_def contiguous_args_def Let_def ok_or_def
        split: option.splits prod.splits)
  show ?thesis
    using allocate_contiguous_none [OF al pos(2)] e a rounded_fit_run [OF a pos(1) pos(2), of mx]
    by simp
qed

lemma free_frame_ok:
  assumes wf: "pmm_wf d s"
  shows "pmm_wf d (free_frame s p)" "tracked_frames (free_frame s p) = tracked_frames s"
    "free_frame_set (free_frame s p) =
       free_frame_set s \<union> (if frame_of p < tracked_frames s then {frame_of p} else {})"
proof (atomize (full), cases "pm_allocator s")
  case (Some a)
  have c: "allocator_wf a" "pm_free_frames s = of_nat (card (free_set a)) + d"
    using wf Some by (simp_all add: pmm_wf_def counted_def)
  show "pmm_wf d (free_frame s p) \<and> tracked_frames (free_frame s p) = tracked_frames s \<and> free_frame_set (free_frame s p) =
       free_frame_set s \<union> (if frame_of p < tracked_frames s then {frame_of p} else {})"
  proof (cases "frame_of p < ba_frame_count a \<and> is_used a (frame_of p)")
    case True
    have new: "frame_of p \<notin> free_set a" using True by (simp add: free_set_def)
    have f: "free_set (set_free a (frame_of p)) = insert (frame_of p) (free_set a)"
      using True by (simp add: free_set_free [OF c(1)])
    show ?thesis using True Some c new f
      by (simp add: free_frame_def frame_deallocate_def frame_of_def [symmetric] pmm_wf_def counted_def
          free_frame_set_def tracked_frames_def Let_def)
  next
    case False
    then have "frame_of p < ba_frame_count a \<Longrightarrow> frame_of p \<in> free_set a" by (simp add: free_set_def)
    then show ?thesis using False Some wf
      by (auto simp: free_frame_def frame_deallocate_def frame_of_def [symmetric] pmm_wf_def
          free_frame_set_def tracked_frames_def Let_def)
  qed
qed (simp add: free_frame_def pmm_wf_def free_frame_set_def tracked_frames_def)

lemma counted_protect_one:
  assumes "counted d acc"
  shows "counted d (protect_one acc f) \<and> free_set (fst (protect_one acc f)) = free_set (fst acc) - {f}
    \<and> ba_frame_count (fst (protect_one acc f)) = ba_frame_count (fst acc)"
proof -
  obtain a free where acc: "acc = (a, free)" by (cases acc)
  have wf: "allocator_wf a" using assms by (simp add: counted_def acc)
  show ?thesis
  proof (cases "f \<in> free_set a")
    case True
    then have f: "f < ba_frame_count a" "\<not> is_used a f" by (auto simp: free_set_def)
    have "free_set (set_used a f) = free_set a - {f}" by (rule free_set_used [OF wf f(1)])
    then show ?thesis using counted_minus [of d a free "set_used a f" "{f}"] assms wf f True
      by (simp add: protect_one_def acc)
  next
    case False
    then show ?thesis using assms by (auto simp: protect_one_def acc free_set_def)
  qed
qed

lemma counted_protect:
  "counted d acc \<Longrightarrow> counted d (foldl protect_one acc xs)
     \<and> free_set (fst (foldl protect_one acc xs)) = free_set (fst acc) - set xs
     \<and> ba_frame_count (fst (foldl protect_one acc xs)) = ba_frame_count (fst acc)"
proof (induction xs arbitrary: acc)
  case (Cons x xs)
  then show ?case using Cons.IH [of "protect_one acc x"] counted_protect_one [of d acc x] by auto
qed simp

lemma reserve_range_ok:
  assumes wf: "pmm_wf d s"
  shows "pmm_wf d (reserve_range s base len)" "tracked_frames (reserve_range s base len) = tracked_frames s"
    "free_frame_set (reserve_range s base len) = free_frame_set s -
       {frame_of base..<(unat (saturating_add base len) + 4095) div 4096}"
proof (atomize (full), cases "pm_allocator s")
  case (Some a)
  let ?e = "(unat (saturating_add base len) + 4095) div 4096"
  let ?xs = "[frame_of base..<min ?e (ba_frame_count a)]"
  let ?acc = "foldl protect_one (a, pm_free_frames s) ?xs"
  have "free_set a - set ?xs = free_set a - {frame_of base..<?e}" by (auto simp: free_set_def)
  moreover have "counted d (a, pm_free_frames s)" using wf Some by (simp add: pmm_wf_def)
  ultimately have acc: "counted d ?acc \<and> free_set (fst ?acc) = free_set a - {frame_of base..<?e}
      \<and> ba_frame_count (fst ?acc) = ba_frame_count a"
    using counted_protect [of d "(a, pm_free_frames s)" ?xs] by (simp only: fst_conv)
  have "reserve_range s base len = s\<lparr>pm_allocator := Some (fst ?acc), pm_free_frames := snd ?acc\<rparr>"
    using Some by (simp add: reserve_range_def div_ceil_frames
        frame_of_def case_prod_unfold Let_def)
  with acc Some show "pmm_wf d (reserve_range s base len) \<and> tracked_frames (reserve_range s base len) = tracked_frames s
      \<and> free_frame_set (reserve_range s base len) = free_frame_set s - {frame_of base..<?e}"
    by (simp add: pmm_wf_def tracked_frames_def free_frame_set_def)
qed (simp add: reserve_range_def pmm_wf_def free_frame_set_def tracked_frames_def)

text \<open>
  The memory map in bytes: where a region ends, usable regions that do not overlap, regions that
  start on a frame, the bytes of a frame and the bytes the bitmap is stored in.
\<close>

definition region_end :: "memory_region \<Rightarrow> nat" where
  "region_end r = unat (saturating_add (mr_base r) (mr_length r))"

definition regions_apart :: "memory_region list \<Rightarrow> bool" where
  "regions_apart regions \<longleftrightarrow>
     sorted_wrt (\<lambda>r r'. region_end r \<le> unat (mr_base r') \<or> region_end r' \<le> unat (mr_base r))
       (filter mr_usable regions)"

definition regions_aligned :: "memory_region list \<Rightarrow> bool" where
  "regions_aligned regions \<longleftrightarrow> list_all (\<lambda>r. mr_usable r \<longrightarrow> unat (mr_base r) mod 4096 = 0) regions"

definition frame_bytes :: "nat \<Rightarrow> nat set" where
  "frame_bytes f = {f * 4096..<f * 4096 + 4096}"

definition bitmap_bytes :: "memory_region list \<Rightarrow> nat set" where
  "bitmap_bytes regions = (case bitmap_home regions of None \<Rightarrow> {}
     | Some r \<Rightarrow> {unat (mr_base r)..<unat (mr_base r) + (boot_frames regions + 7) div 8})"

lemma apart_frames_distinct:
  assumes "regions_apart regions"
  shows "distinct (usable_frames n regions)"
proof -
  have "sorted_wrt (\<lambda>r r'. region_end r \<le> unat (mr_base r') \<or> region_end r' \<le> unat (mr_base r)) rs \<Longrightarrow>
      distinct (concat (map (region_frames n) rs))" for rs
  proof (induction rs)
    case (Cons r rs)
    have "set (region_frames n r) \<inter> set (region_frames n r') = {}" if "r' \<in> set rs" for r'
    proof -
      have "region_end r \<le> unat (mr_base r') \<or> region_end r' \<le> unat (mr_base r)" using Cons.prems that by simp
      then have "region_end r div 4096 \<le> unat (mr_base r') div 4096 \<or> region_end r' div 4096 \<le> unat (mr_base r) div 4096"
        by (auto intro: div_le_mono)
      then show ?thesis by (auto simp: region_frames_def region_end_def unat_div_word FRAME_SIZE_def)
    qed
    moreover have "distinct (region_frames n r)" by (simp add: region_frames_def)
    ultimately show ?case using Cons by auto
  qed simp
  then show ?thesis using assms by (simp add: regions_apart_def usable_frames_def)
qed

lemma bitmap_home_usable: "bitmap_home regions = Some r \<Longrightarrow> r \<in> set regions \<and> mr_usable r"
  by (auto simp: bitmap_home_def find_Some_iff)

lemma reserved_holds_bitmap:
  assumes "regions_aligned regions" "bitmap_home regions = Some r"
  shows "f \<in> bitmap_reserved regions r \<longleftrightarrow> frame_bytes f \<inter> bitmap_bytes regions \<noteq> {}"
proof -
  define m where "m = (boot_frames regions + 7) div 8"
  have "unat (mr_base r) mod 4096 = 0"
    using assms bitmap_home_usable by (auto simp: regions_aligned_def list_all_iff)
  then obtain b where b: "unat (mr_base r) = 4096 * b" by (auto elim: dvdE simp: mod_eq_0_iff_dvd)
  have "bitmap_bytes regions = {4096 * b..<4096 * b + m}"
    by (simp add: bitmap_bytes_def assms(2) b m_def)
  then have "frame_bytes f \<inter> bitmap_bytes regions \<noteq> {} \<longleftrightarrow>
      0 < m \<and> f * 4096 < 4096 * b + m \<and> 4096 * b < f * 4096 + 4096"
    by (simp add: frame_bytes_def max_def min_def not_less) linarith
  also have "\<dots> \<longleftrightarrow> b \<le> f \<and> f < b + (m + 4095) div 4096" by linarith
  finally show ?thesis
    by (simp add: bitmap_reserved_def bitmap_frames_def unat_div_word FRAME_SIZE_def b m_def)
qed

text \<open>
  A history of the manager: the state and the set of frames that callers hold. A caller frees only
  a frame that is held; reserving a range may overlap held frames.
\<close>

inductive frame_step :: "pmm \<times> nat set \<Rightarrow> pmm \<times> nat set \<Rightarrow> bool" where
  take_one: "alloc_frame s = (Inr p, s') \<Longrightarrow> frame_step (s, held) (s', insert (frame_of p) held)"
| take_run: "alloc_contiguous_aligned s len alignment mx = (Inr p, s') \<Longrightarrow>
    frame_step (s, held) (s', held \<union> frames_of p len)"
| give_back: "frame_of p \<in> held \<Longrightarrow> frame_step (s, held) (free_frame s p, held - {frame_of p})"
| protect: "frame_step (s, held) (reserve_range s base len, held)"

definition frame_start :: "u64 \<Rightarrow> nat set \<Rightarrow> pmm \<times> nat set \<Rightarrow> bool" where
  "frame_start d kept w \<longleftrightarrow> snd w = {} \<and> pmm_wf d (fst w) \<and> kept \<inter> free_frame_set (fst w) = {}"

definition frame_inv :: "u64 \<Rightarrow> nat set \<Rightarrow> pmm \<times> nat set \<Rightarrow> bool" where
  "frame_inv d kept w \<longleftrightarrow> pmm_wf d (fst w) \<and> snd w \<inter> free_frame_set (fst w) = {}
     \<and> kept \<inter> (snd w \<union> free_frame_set (fst w)) = {}"

lemma pmm_init_home: "pmm_init s regions = (Inr (), s') \<Longrightarrow> \<exists>r. bitmap_home regions = Some r"
  by (auto simp: pmm_init_def bitmap_home_def boot_frames_def bitmap_frames_def Let_def split: option.splits)

lemma boot_frame_start:
  assumes "pmm_init s0 regions = (Inr (), s)" "bitmap_home regions = Some r"
  shows "\<exists>d. frame_start d (bitmap_reserved regions r) (s, {}) \<and> (regions_apart regions \<longrightarrow> d = 0)"
proof -
  obtain a free where i: "pmm_init s0 regions = (Inr (), \<lparr>pm_allocator = Some a, pm_free_frames = free,
       pm_total_frames = boot_frames regions\<rparr>)" and wf: "allocator_wf a"
    and c: "distinct (usable_frames (boot_frames regions) regions) \<longrightarrow> counted 0 (a, free)"
    and f: "free_set a = set (usable_frames (boot_frames regions) regions) - bitmap_reserved regions r"
    by (rule pmm_init_ok [OF assms(2)])
  let ?d = "free - of_nat (card (free_set a))"
  have "?d = 0" if "regions_apart regions"
    using c [rule_format, OF apart_frames_distinct [OF that]] by (simp add: counted_def)
  moreover have "frame_start ?d (bitmap_reserved regions r) (s, {})"
    using i assms(1) wf f by (auto simp: frame_start_def pmm_wf_def counted_def free_frame_set_def)
  ultimately show ?thesis by blast
qed

lemma taken_frame:
  assumes "pmm_wf d s" "alloc_frame s = (Inr p, s')"
  shows "frame_of p \<in> free_frame_set s \<and> p = frame_address (frame_of p) \<and> pmm_wf d s'
    \<and> free_frame_set s' = free_frame_set s - {frame_of p}"
proof -
  obtain i where "p = frame_address i" "i \<in> free_frame_set s" "i < 2 ^ 52" "pmm_wf d s'"
    "free_frame_set s' = free_frame_set s - {i}"
    using alloc_frame_cases [OF assms(1)] unfolding assms(2) by blast
  then show ?thesis by (simp add: frame_of_def frame_of_address)
qed

lemma taken_run:
  assumes "pmm_wf d s" "alloc_contiguous_aligned s len alignment mx = (Inr p, s')"
  shows "frames_of p len \<subseteq> free_frame_set s \<and> pmm_wf d s' \<and> free_frame_set s' = free_frame_set s - frames_of p len"
proof -
  obtain i where i: "p = frame_address i" "i < 2 ^ 52" "rounded_fit s len alignment mx i" "pmm_wf d s'"
    "free_frame_set s' = free_frame_set s - {i..<i + unat (len div FRAME_SIZE)}"
    by (rule alloc_contiguous_ok [OF assms])
  have "frames_of p len = {i..<i + unat (len div FRAME_SIZE)}"
    using i(1,2) by (simp add: frames_of_def frame_of_def frame_of_address)
  with i show ?thesis by (simp add: rounded_fit_def)
qed

lemma frame_step_inv:
  assumes "frame_inv d kept w" "frame_step w w'"
  shows "frame_inv d kept w'"
  using assms(2,1)
proof cases
  case (take_one s p s' held)
  then show ?thesis using assms(1) taken_frame [of d s p s'] by (auto simp: frame_inv_def)
next
  case (take_run s len alignment mx p s' held)
  then show ?thesis using assms(1) taken_run [of d s len alignment mx p s'] by (auto simp: frame_inv_def)
next
  case (give_back p held s)
  then show ?thesis using assms(1) free_frame_ok [of d s p] by (auto simp: frame_inv_def)
next
  case (protect s held base len)
  then show ?thesis using assms(1) reserve_range_ok [of d s base len] by (auto simp: frame_inv_def)
qed

lemma frame_start_inv: "frame_start d kept w \<Longrightarrow> frame_inv d kept w"
  by (auto simp: frame_start_def frame_inv_def)

interpretation frame_ownership: invariant_machine "frame_start d kept" frame_step "frame_inv d kept" for d kept
  by unfold_locales (auto intro: frame_start_inv frame_step_inv)

text \<open>
  C3: no physical frame has two owners. After a successful boot over any memory map, and any history
  of allocations, reservations and releases in which callers release only frames they hold, a frame
  the manager hands out, alone or in a run, is held by nobody. When usable regions start on a frame,
  the bytes of what is handed out share nothing with the bytes of the bitmap, and when usable
  regions do not overlap, the counter of free frames is exactly the number of clear bits.
\<close>

theorem frames_exclusive:
  assumes "pmm_init s0 regions = (Inr (), s1)" "frame_step\<^sup>*\<^sup>* (s1, {}) (s, held)"
  shows "(alloc_frame s = (Inr p, s2) \<longrightarrow> frame_of p \<notin> held \<and> p = frame_address (frame_of p))
    \<and> (alloc_contiguous_aligned s len alignment mx = (Inr q, s3) \<longrightarrow> frames_of q len \<inter> held = {})
    \<and> (regions_aligned regions \<longrightarrow>
        (alloc_frame s = (Inr p, s2) \<longrightarrow> frame_bytes (frame_of p) \<inter> bitmap_bytes regions = {})
      \<and> (alloc_contiguous_aligned s len alignment mx = (Inr q, s3) \<longrightarrow>
          (\<Union>f\<in>frames_of q len. frame_bytes f) \<inter> bitmap_bytes regions = {}))
    \<and> (regions_apart regions \<longrightarrow>
        (\<forall>a. pm_allocator s = Some a \<longrightarrow> unat (pm_free_frames s) = card (free_set a)))"
proof -
  obtain r where r: "bitmap_home regions = Some r" using pmm_init_home [OF assms(1)] by blast
  obtain d where st: "frame_start d (bitmap_reserved regions r) (s1, {})" and d: "regions_apart regions \<longrightarrow> d = 0"
    using boot_frame_start [OF assms(1) r] by blast
  have inv: "pmm_wf d s" "held \<inter> free_frame_set s = {}" "bitmap_reserved regions r \<inter> free_frame_set s = {}"
    using frame_ownership.reachable_inv [OF st assms(2)] by (auto simp: frame_inv_def)
  have "\<forall>a. pm_allocator s = Some a \<longrightarrow> unat (pm_free_frames s) = card (free_set a)" if "regions_apart regions"
    using inv(1) d that by (auto simp: pmm_wf_def counted_zero)
  moreover have one: "frame_of p \<notin> held \<and> p = frame_address (frame_of p)" "frame_of p \<notin> bitmap_reserved regions r"
    if "alloc_frame s = (Inr p, s2)"
    using taken_frame [OF inv(1) that] inv(2,3) by blast+
  moreover have run: "frames_of q len \<inter> held = {}" "frames_of q len \<inter> bitmap_reserved regions r = {}"
    if "alloc_contiguous_aligned s len alignment mx = (Inr q, s3)"
    using taken_run [OF inv(1) that] inv(2,3) by blast+
  moreover have "frame_bytes f \<inter> bitmap_bytes regions = {}"
    if "regions_aligned regions" "f \<notin> bitmap_reserved regions r" for f
    using reserved_holds_bitmap [OF that(1) r, of f] that(2) by blast
  ultimately show ?thesis by blast
qed

text \<open>
  C22: the run search, which skips past the used frame that ended each attempt, is first fit. For a
  cap that is a multiple of the frame size (0 being no cap), an allocation with valid arguments
  returns and takes exactly the lowest aligned run of free frames that ends at or below the cap, and
  fails with \<open>OutOfMemory\<close>, unchanged, exactly when there is none; other arguments are refused.
\<close>

theorem contiguous_is_first_fit:
  assumes "pmm_wf d s" "pm_allocator s \<noteq> None" "mx mod FRAME_SIZE = 0"
  shows "(\<not> contiguous_args len alignment \<longrightarrow> alloc_contiguous_aligned s len alignment mx = (Inl PmmInvalidArgs, s))
    \<and> (contiguous_args len alignment \<longrightarrow>
        (if \<exists>i. contiguous_fit s len alignment mx i
         then \<exists>i s'. i = (LEAST i. contiguous_fit s len alignment mx i)
            \<and> alloc_contiguous_aligned s len alignment mx = (Inr (frame_address i), s')
            \<and> free_frame_set s' = free_frame_set s - {i..<i + unat (len div FRAME_SIZE)}
         else alloc_contiguous_aligned s len alignment mx = (Inl OutOfMemory, s)))"
proof (intro conjI impI)
  show "alloc_contiguous_aligned s len alignment mx = (Inl PmmInvalidArgs, s)"
    if "\<not> contiguous_args len alignment"
    using that by (auto simp: alloc_contiguous_aligned_def contiguous_args_def)
next
  assume args: "contiguous_args len alignment"
  note fit = rounded_fit_aligned [OF assms(1) args assms(3)]
  obtain a where a: "pm_allocator s = Some a" using assms(2) by blast
  obtain r s' where rs: "alloc_contiguous_aligned s len alignment mx = (r, s')" by fastforce
  show "if \<exists>i. contiguous_fit s len alignment mx i
         then \<exists>i s'. i = (LEAST i. contiguous_fit s len alignment mx i)
            \<and> alloc_contiguous_aligned s len alignment mx = (Inr (frame_address i), s')
            \<and> free_frame_set s' = free_frame_set s - {i..<i + unat (len div FRAME_SIZE)}
         else alloc_contiguous_aligned s len alignment mx = (Inl OutOfMemory, s)"
  proof (cases r)
    case (Inl e)
    then show ?thesis using alloc_contiguous_none [OF assms(1) args a rs [unfolded Inl], unfolded fit] rs by auto
  next
    case (Inr p)
    obtain i where i: "p = frame_address i" "contiguous_fit s len alignment mx i"
      "\<forall>j < i. \<not> contiguous_fit s len alignment mx j"
      "free_frame_set s' = free_frame_set s - {i..<i + unat (len div FRAME_SIZE)}"
      by (rule alloc_contiguous_ok [OF assms(1) rs [unfolded Inr], unfolded fit])
    then have "(LEAST i. contiguous_fit s len alignment mx i) = i"
      by (intro Least_equality) (auto intro: leI)
    then show ?thesis using i rs Inr by auto
  qed
qed

text \<open>The frames of a region that starts on a frame are those that lie in it whole.\<close>

lemma region_frames_whole:
  assumes "unat (mr_base r) mod 4096 = 0" "r \<in> set regions"
  shows "f \<in> set (region_frames (boot_frames regions) r) \<longleftrightarrow> frame_bytes f \<subseteq> {unat (mr_base r)..<region_end r}"
proof -
  have "region_end r \<le> unat (regions_end regions)"
    using regions_end_le [OF assms(2)] by (simp add: region_end_def word_le_nat_alt)
  then have "region_end r div 4096 \<le> (unat (regions_end regions) + 4095) div 4096"
    by (intro div_le_mono) simp
  then have n: "region_end r div 4096 \<le> boot_frames regions"
    unfolding boot_frames_def div_ceil_frames .
  have b: "unat (mr_base r) = 4096 * (unat (mr_base r) div 4096)"
    using assms(1) mult_div_mod_eq [of 4096 "unat (mr_base r)"] by simp
  have "frame_bytes f \<subseteq> {unat (mr_base r)..<region_end r} \<longleftrightarrow>
      unat (mr_base r) \<le> f * 4096 \<and> f * 4096 + 4096 \<le> region_end r"
    unfolding frame_bytes_def by (auto dest!: atLeastLessThan_subset_iff)
  also have "\<dots> \<longleftrightarrow> unat (mr_base r) div 4096 \<le> f \<and> f < region_end r div 4096"
    using b by linarith
  finally show ?thesis using n
    by (auto simp: region_frames_def unat_div_word FRAME_SIZE_def region_end_def)
qed

lemma usable_frames_whole:
  assumes "regions_aligned regions"
  shows "f \<in> set (usable_frames (boot_frames regions) regions) \<longleftrightarrow>
     (\<exists>r\<in>set regions. mr_usable r \<and> frame_bytes f \<subseteq> {unat (mr_base r)..<region_end r})"
proof -
  have "f \<in> set (region_frames (boot_frames regions) r) \<longleftrightarrow> frame_bytes f \<subseteq> {unat (mr_base r)..<region_end r}"
    if "r \<in> set regions" "mr_usable r" for r
    using assms that by (intro region_frames_whole) (auto simp: regions_aligned_def list_all_iff)
  then show ?thesis by (auto simp: usable_frames_def)
qed

text \<open>
  C31: initialisation, byte for byte. For usable regions that start on a frame and do not overlap,
  \<open>init\<close> fails exactly when no usable region is long enough for the bitmap's frames; otherwise the
  free frames are exactly those that lie whole inside one usable region and share no byte with the
  bitmap, which itself lies inside a usable region, and the counter is their number.
\<close>

theorem pmm_init_frames:
  assumes "regions_aligned regions" "regions_apart regions"
  shows "if list_all (\<lambda>r. mr_usable r \<longrightarrow> unat (mr_length r) < bitmap_frames (boot_frames regions) * 4096) regions
    then pmm_init s regions = (Inl NoUsableRegion, s)
    else \<exists>s'. pmm_init s regions = (Inr (), s')
      \<and> free_frame_set s' = {f. frame_bytes f \<inter> bitmap_bytes regions = {}
          \<and> (\<exists>r\<in>set regions. mr_usable r \<and> frame_bytes f \<subseteq> {unat (mr_base r)..<region_end r})}
      \<and> (\<exists>r\<in>set regions. mr_usable r
          \<and> bitmap_bytes regions \<subseteq> {unat (mr_base r)..<unat (mr_base r) + unat (mr_length r)})
      \<and> unat (pm_free_frames s') = card (free_frame_set s')"
proof (cases "bitmap_home regions")
  case None
  then have "pmm_init s regions = (Inl NoUsableRegion, s)"
    by (simp add: pmm_init_def boot_frames_def [symmetric] bitmap_frames_def [symmetric] bitmap_home_def Let_def)
  moreover have "list_all (\<lambda>r. mr_usable r \<longrightarrow> unat (mr_length r) < bitmap_frames (boot_frames regions) * 4096) regions"
    using None by (auto simp: bitmap_home_def find_None_iff list_all_iff not_le)
  ultimately show ?thesis by simp
next
  case (Some home)
  let ?n = "boot_frames regions"
  obtain a free where i: "pmm_init s regions = (Inr (), \<lparr>pm_allocator = Some a, pm_free_frames = free,
       pm_total_frames = ?n\<rparr>)"
    and c: "distinct (usable_frames ?n regions) \<longrightarrow> counted 0 (a, free)"
    and f: "free_set a = set (usable_frames ?n regions) - bitmap_reserved regions home"
    by (rule pmm_init_ok [OF Some])
  have h: "home \<in> set regions" "mr_usable home" "bitmap_frames ?n * 4096 \<le> unat (mr_length home)"
    using Some by (auto simp: bitmap_home_def find_Some_iff)
  have "bitmap_bytes regions \<subseteq> {unat (mr_base home)..<unat (mr_base home) + unat (mr_length home)}"
    using h(3) by (auto simp: bitmap_bytes_def Some bitmap_frames_def)
  moreover have "counted 0 (a, free)" by (rule c [rule_format, OF apart_frames_distinct [OF assms(2)]])
  moreover have "free_set a = {f. frame_bytes f \<inter> bitmap_bytes regions = {}
      \<and> (\<exists>r\<in>set regions. mr_usable r \<and> frame_bytes f \<subseteq> {unat (mr_base r)..<region_end r})}"
    unfolding f using usable_frames_whole [OF assms(1)] reserved_holds_bitmap [OF assms(1) Some] by blast
  ultimately have "free_set a = {f. frame_bytes f \<inter> bitmap_bytes regions = {}
      \<and> (\<exists>r\<in>set regions. mr_usable r \<and> frame_bytes f \<subseteq> {unat (mr_base r)..<region_end r})}
    \<and> (\<exists>r\<in>set regions. mr_usable r
          \<and> bitmap_bytes regions \<subseteq> {unat (mr_base r)..<unat (mr_base r) + unat (mr_length r)})
    \<and> unat free = card (free_set a)"
    using h by (auto simp: counted_zero)
  moreover have "\<not> list_all (\<lambda>r. mr_usable r \<longrightarrow> unat (mr_length r) < bitmap_frames ?n * 4096) regions"
    using h by (auto simp: list_all_iff)
  ultimately show ?thesis using i by (simp add: free_frame_set_def)
qed

definition sample_memory :: "memory_region list" where
  "sample_memory = [\<lparr>mr_base = 0, mr_length = 32768, mr_usable = True, mr_kind = 0\<rparr>]"

lemma sample_memory_frames:
  "saturating_add 0 (32768 :: u64) = 32768" "boot_frames sample_memory = 8" "bitmap_frames 8 = 1"
  by (simp_all add: saturating_add_def boot_frames_def div_ceil_def regions_end_def sample_memory_def
      bitmap_frames_def FRAME_SIZE_def unat_div_word)

lemma sample_memory_facts:
  "regions_aligned sample_memory" "regions_apart sample_memory"
  "bitmap_home sample_memory = Some \<lparr>mr_base = 0, mr_length = 32768, mr_usable = True, mr_kind = 0\<rparr>"
  unfolding bitmap_home_def sample_memory_frames
  by (simp_all add: sample_memory_def regions_aligned_def regions_apart_def)

lemma sample_memory_bytes:
  "frame_bytes f \<inter> bitmap_bytes sample_memory = {} \<longleftrightarrow> 1 \<le> f"
  "(\<exists>r\<in>set sample_memory. mr_usable r \<and> frame_bytes f \<subseteq> {unat (mr_base r)..<region_end r}) \<longleftrightarrow> f < 8"
proof -
  have "bitmap_reserved sample_memory \<lparr>mr_base = 0, mr_length = 32768, mr_usable = True, mr_kind = 0\<rparr> = {0..<1}"
    by (simp add: bitmap_reserved_def sample_memory_frames)
  then show "frame_bytes f \<inter> bitmap_bytes sample_memory = {} \<longleftrightarrow> 1 \<le> f"
    using reserved_holds_bitmap [OF sample_memory_facts(1,3), of f] by auto
  have "set (usable_frames 8 sample_memory) = {0..<8}"
    by (simp add: usable_frames_def region_frames_def sample_memory_def sample_memory_frames FRAME_SIZE_def
        unat_div_word)
  then show "(\<exists>r\<in>set sample_memory. mr_usable r \<and> frame_bytes f \<subseteq> {unat (mr_base r)..<region_end r}) \<longleftrightarrow> f < 8"
    using usable_frames_whole [OF sample_memory_facts(1), of f] by (simp add: sample_memory_frames)
qed

theorem pmm_init_frames_witness:
  "\<exists>s'. pmm_init \<lparr>pm_allocator = None, pm_free_frames = 0, pm_total_frames = 0\<rparr> sample_memory = (Inr (), s')
     \<and> free_frame_set s' = {1..<8} \<and> unat (pm_free_frames s') = 7"
proof -
  have "\<not> list_all (\<lambda>r. mr_usable r \<longrightarrow> unat (mr_length r) < bitmap_frames (boot_frames sample_memory) * 4096) sample_memory"
    by (simp add: sample_memory_frames) (simp add: sample_memory_def)
  moreover have "{f. 1 \<le> f \<and> f < 8} = {1..<8 :: nat}" by auto
  ultimately show ?thesis
    using pmm_init_frames [OF sample_memory_facts(1,2), of "\<lparr>pm_allocator = None, pm_free_frames = 0, pm_total_frames = 0\<rparr>"]
    unfolding sample_memory_bytes by auto
qed

definition sample_pmm :: pmm where
  "sample_pmm = snd (pmm_init \<lparr>pm_allocator = None, pm_free_frames = 0, pm_total_frames = 0\<rparr> sample_memory)"

lemma sample_pmm_facts:
  "pmm_init \<lparr>pm_allocator = None, pm_free_frames = 0, pm_total_frames = 0\<rparr> sample_memory = (Inr (), sample_pmm)"
  "pmm_wf 0 sample_pmm" "free_frame_set sample_pmm = {0..<8} - {0..<1}"
proof -
  let ?s0 = "\<lparr>pm_allocator = None, pm_free_frames = 0, pm_total_frames = 0\<rparr>"
  obtain a free where i: "pmm_init ?s0 sample_memory = (Inr (), \<lparr>pm_allocator = Some a, pm_free_frames = free,
       pm_total_frames = boot_frames sample_memory\<rparr>)"
    and c: "distinct (usable_frames (boot_frames sample_memory) sample_memory) \<longrightarrow> counted 0 (a, free)"
    and f: "free_set a = set (usable_frames (boot_frames sample_memory) sample_memory)
      - bitmap_reserved sample_memory \<lparr>mr_base = 0, mr_length = 32768, mr_usable = True, mr_kind = 0\<rparr>"
    by (rule pmm_init_ok [OF sample_memory_facts(3)])
  show "pmm_init ?s0 sample_memory = (Inr (), sample_pmm)" using i by (simp add: sample_pmm_def)
  show "pmm_wf 0 sample_pmm" using i c [rule_format, OF apart_frames_distinct [OF sample_memory_facts(2)]]
    by (simp add: sample_pmm_def pmm_wf_def)
  have "set (usable_frames 8 sample_memory) = {0..<8}"
    by (simp add: usable_frames_def region_frames_def sample_memory_def sample_memory_frames FRAME_SIZE_def
        unat_div_word)
  then show "free_frame_set sample_pmm = {0..<8} - {0..<1}"
    using i f by (simp add: sample_pmm_def free_frame_set_def sample_memory_frames bitmap_reserved_def)
qed

theorem frames_exclusive_witness:
  "\<exists>p s1 q s2. alloc_frame sample_pmm = (Inr p, s1) \<and> alloc_frame s1 = (Inr q, s2) \<and> frame_of q \<noteq> frame_of p"
proof -
  have some: "1 \<in> free_frame_set sample_pmm" "2 \<in> free_frame_set sample_pmm"
    by (simp_all add: sample_pmm_facts(3))
  then have "free_frame_set sample_pmm \<noteq> {}" by blast
  then obtain i s1 where p: "alloc_frame sample_pmm = (Inr (frame_address i), s1)" "pmm_wf 0 s1"
    "free_frame_set s1 = free_frame_set sample_pmm - {i}"
    using alloc_frame_cases [OF sample_pmm_facts(2)] by (auto simp: free_frame_set_def)
  have "free_frame_set s1 \<noteq> {}" using some p(3) by (cases "i = 1") auto
  then obtain q s2 where q: "alloc_frame s1 = (Inr q, s2)"
    using alloc_frame_cases [OF p(2)] by (auto simp: free_frame_set_def)
  have "frame_step\<^sup>*\<^sup>* (sample_pmm, {}) (s1, {frame_of (frame_address i)})"
    using take_one [OF p(1), of "{}"] by auto
  from frames_exclusive [OF sample_pmm_facts(1) this, of q s2] p(1) q show ?thesis by auto
qed

theorem contiguous_is_first_fit_witness:
  "\<exists>s'. alloc_contiguous_aligned sample_pmm 8192 8192 16384 = (Inr (frame_address 2), s')
     \<and> free_frame_set s' = {1, 4, 5, 6, 7}"
proof -
  have n: "unat ((8192 :: u64) div FRAME_SIZE) = 2" "contiguous_args 8192 8192"
    by (simp_all add: FRAME_SIZE_def contiguous_args_def)
  have fit: "contiguous_fit sample_pmm 8192 8192 16384 i \<longleftrightarrow> even i \<and> i \<le> 2 \<and> {i..<i + 2} \<subseteq> {0..<8} - {0..<1}" for i
  proof -
    have "8192 dvd i * 4096 \<longleftrightarrow> even i" using dvd_times_right_cancel_iff [of 4096 2 i] by simp
    moreover have "i * 4096 + 8192 \<le> 16384 \<longleftrightarrow> i \<le> 2" by linarith
    ultimately show ?thesis by (simp add: contiguous_fit_def n sample_pmm_facts(3))
  qed
  have "{2..<4} \<subseteq> {0..<8} - {0..<1 :: nat}" by auto
  then have "contiguous_fit sample_pmm 8192 8192 16384 2" by (simp add: fit)
  moreover have "\<not> contiguous_fit sample_pmm 8192 8192 16384 i" if "i < 2" for i
    using that by (cases i) (auto simp: fit)
  ultimately have "(LEAST i. contiguous_fit sample_pmm 8192 8192 16384 i) = 2" "\<exists>i. contiguous_fit sample_pmm 8192 8192 16384 i"
    by (auto intro!: Least_equality leI)
  moreover have "pm_allocator sample_pmm \<noteq> None"
  proof -
    have "1 \<in> free_frame_set sample_pmm" by (simp add: sample_pmm_facts(3))
    then show ?thesis by (cases "pm_allocator sample_pmm") (simp_all add: free_frame_set_def)
  qed
  ultimately show ?thesis
    using contiguous_is_first_fit [OF sample_pmm_facts(2), of 16384 8192 8192] n
    by (auto simp: sample_pmm_facts(3) FRAME_SIZE_def)
qed

end
