(* ===== verification/Process_Lifecycle.thy ===== *)
theory Process_Lifecycle
  imports Rust_Prelude
begin

text \<open>
  The per-process lifecycle record (\<open>huesos-proclife/src/lib.rs\<close>): created, running, exited, reaped,
  with the exit status and the count of waiters. The lemmas show that the status a supervisor can
  observe is delivered once and never changes, and that a process is reaped only after every waiter
  that registered has been released.
\<close>

section \<open>The record\<close>

datatype proc_state = Created | Running | Exited | Reaped

definition is_terminal :: "proc_state \<Rightarrow> bool" where
  "is_terminal st \<longleftrightarrow> st = Reaped"

fun can_transition :: "proc_state \<Rightarrow> proc_state \<Rightarrow> bool" where
  "can_transition Created Running = True"
| "can_transition Created Exited = True"
| "can_transition Running Exited = True"
| "can_transition Exited Reaped = True"
| "can_transition _ _ = False"

record exit_info =
  ei_koid :: u64
  ei_generation :: u64
  ei_exit_code :: i64

record process_lifecycle =
  pl_koid :: u64
  pl_generation :: u64
  pl_state :: proc_state
  pl_exit_code :: "i64 option"
  pl_waiters :: u64

definition process_new :: "u64 \<Rightarrow> u64 \<Rightarrow> process_lifecycle" where
  "process_new koid generation =
     \<lparr>pl_koid = koid, pl_generation = generation, pl_state = Created, pl_exit_code = None, pl_waiters = 0\<rparr>"

definition is_running :: "process_lifecycle \<Rightarrow> bool" where
  "is_running p \<longleftrightarrow> pl_state p = Running"

definition is_exited :: "process_lifecycle \<Rightarrow> bool" where
  "is_exited p \<longleftrightarrow> pl_state p = Exited"

definition process_start :: "process_lifecycle \<Rightarrow> bool \<times> process_lifecycle" where
  "process_start p =
     (if can_transition (pl_state p) Running then (True, p\<lparr>pl_state := Running\<rparr>) else (False, p))"

definition process_exit :: "process_lifecycle \<Rightarrow> i64 \<Rightarrow> bool \<times> process_lifecycle" where
  "process_exit p code =
     (if can_transition (pl_state p) Exited
      then (True, p\<lparr>pl_state := Exited, pl_exit_code := Some code\<rparr>) else (False, p))"

definition add_waiter :: "process_lifecycle \<Rightarrow> bool \<times> process_lifecycle" where
  "add_waiter p =
     (if pl_state p \<noteq> Created \<and> pl_state p \<noteq> Running then (False, p)
      else (True, p\<lparr>pl_waiters := saturating_add (pl_waiters p) 1\<rparr>))"

definition remove_waiter :: "process_lifecycle \<Rightarrow> process_lifecycle" where
  "remove_waiter p = p\<lparr>pl_waiters := saturating_sub (pl_waiters p) 1\<rparr>"

definition can_reap :: "process_lifecycle \<Rightarrow> bool" where
  "can_reap p \<longleftrightarrow> pl_state p = Exited \<and> pl_waiters p = 0"

definition process_reap :: "process_lifecycle \<Rightarrow> bool \<times> process_lifecycle" where
  "process_reap p = (if can_reap p then (True, p\<lparr>pl_state := Reaped\<rparr>) else (False, p))"

definition exit_info_of :: "process_lifecycle \<Rightarrow> exit_info option" where
  "exit_info_of p =
     (if pl_state p = Exited \<or> pl_state p = Reaped
      then map_option (\<lambda>code. \<lparr>ei_koid = pl_koid p, ei_generation = pl_generation p, ei_exit_code = code\<rparr>)
        (pl_exit_code p)
      else None)"

section \<open>Histories\<close>

text \<open>
  The record together with the waiters that registered and were not released: a waiter is released
  once, so \<open>remove_waiter\<close> is called only while one is registered.
\<close>

inductive process_step :: "process_lifecycle \<times> nat \<Rightarrow> process_lifecycle \<times> nat \<Rightarrow> bool" where
  start: "process_step (p, n) (snd (process_start p), n)"
| exit: "process_step (p, n) (snd (process_exit p code), n)"
| wait: "add_waiter p = (True, p') \<Longrightarrow> n < 2 ^ 64 - 1 \<Longrightarrow> process_step (p, n) (p', Suc n)"
| refused: "add_waiter p = (False, p') \<Longrightarrow> process_step (p, n) (p', n)"
| release: "process_step (p, Suc n) (remove_waiter p, n)"
| reap: "process_step (p, n) (snd (process_reap p), n)"

definition process_fresh :: "process_lifecycle \<times> nat \<Rightarrow> bool" where
  "process_fresh w \<longleftrightarrow> (\<exists>koid generation. w = (process_new koid generation, 0))"

definition process_inv :: "process_lifecycle \<times> nat \<Rightarrow> bool" where
  "process_inv w \<longleftrightarrow> unat (pl_waiters (fst w)) = snd w
     \<and> (pl_exit_code (fst w) \<noteq> None \<longleftrightarrow> pl_state (fst w) \<in> {Exited, Reaped})
     \<and> (pl_state (fst w) = Reaped \<longrightarrow> snd w = 0)"

lemma can_transition_cases:
  "can_transition a Running \<longleftrightarrow> a = Created" "can_transition a Exited \<longleftrightarrow> a = Created \<or> a = Running"
  "can_transition a Reaped \<longleftrightarrow> a = Exited" "\<not> can_transition a Created"
  by (cases a; simp)+

lemma process_step_inv: "process_step w w' \<Longrightarrow> process_inv w \<Longrightarrow> process_inv w'"
proof (induction rule: process_step.induct)
  case (wait p p' n)
  then show ?case by (auto simp: add_waiter_def process_inv_def unat_saturating_add split: if_splits)
next
  case (release p n)
  then show ?case by (auto simp: remove_waiter_def process_inv_def unat_saturating_sub)
next
  case (reap p n)
  then show ?case by (auto simp: process_reap_def can_reap_def process_inv_def)
next
  case (start p n)
  then show ?case by (auto simp: process_start_def can_transition_cases process_inv_def)
next
  case (exit p n code)
  then show ?case by (auto simp: process_exit_def can_transition_cases process_inv_def)
next
  case (refused p p' n)
  then show ?case by (auto simp: add_waiter_def split: if_splits)
qed

interpretation process_history: invariant_machine process_fresh process_step process_inv
proof
  show "process_inv w" if "process_fresh w" for w
    using that by (auto simp: process_fresh_def process_new_def process_inv_def)
  show "process_inv w'" if "process_inv w" "process_step w w'" for w w'
    by (rule process_step_inv [OF that(2,1)])
qed

lemma exit_info_stable:
  "process_step w w' \<Longrightarrow> process_inv w \<Longrightarrow> exit_info_of (fst w) = Some i \<Longrightarrow> exit_info_of (fst w') = Some i"
  by (induction rule: process_step.induct)
    (auto simp: exit_info_of_def process_start_def process_exit_def add_waiter_def remove_waiter_def
      process_reap_def can_reap_def can_transition_cases process_inv_def split: if_splits)

lemma exit_info_stable_steps:
  "process_step\<^sup>*\<^sup>* w w' \<Longrightarrow> process_inv w \<Longrightarrow> exit_info_of (fst w) = Some i \<Longrightarrow>
     process_inv w' \<and> exit_info_of (fst w') = Some i"
  by (induction rule: rtranclp_induct) (auto intro: process_step_inv exit_info_stable)

text \<open>
  C37: a supervisor observes exactly one exit. In any history the exit payload is available exactly
  from the exit on, through reaping, and never changes afterwards; and a process is reaped only when
  every registered waiter has been released, after which nobody can register.
\<close>

theorem process_exit_observed_once:
  assumes "process_fresh w0" "process_step\<^sup>*\<^sup>* w0 (p, n)" "process_step\<^sup>*\<^sup>* (p, n) (p', n')"
  shows "(exit_info_of p \<noteq> None \<longleftrightarrow> pl_state p \<in> {Exited, Reaped})
    \<and> (exit_info_of p = Some i \<longrightarrow> exit_info_of p' = Some i)
    \<and> (fst (process_reap p) \<longleftrightarrow> pl_state p = Exited \<and> n = 0)
    \<and> (pl_state p \<in> {Exited, Reaped} \<longrightarrow> \<not> fst (add_waiter p) \<and> (\<forall>code. process_exit p code = (False, p)))"
proof -
  have inv: "process_inv (p, n)" by (rule process_history.reachable_inv [OF assms(1,2)])
  have "unat (pl_waiters p) = n" using inv by (simp add: process_inv_def)
  then have "fst (process_reap p) \<longleftrightarrow> pl_state p = Exited \<and> n = 0"
    by (auto simp: process_reap_def can_reap_def unat_eq_zero unat_gt_0)
  moreover have "exit_info_of p \<noteq> None \<longleftrightarrow> pl_state p \<in> {Exited, Reaped}"
    using inv by (auto simp: exit_info_of_def process_inv_def)
  moreover have "exit_info_of p = Some i \<longrightarrow> exit_info_of p' = Some i"
    using exit_info_stable_steps [OF assms(3) inv, of i] by simp
  moreover have "pl_state p \<in> {Exited, Reaped} \<longrightarrow>
      \<not> fst (add_waiter p) \<and> (\<forall>code. process_exit p code = (False, p))"
    by (auto simp: add_waiter_def process_exit_def can_transition_cases)
  ultimately show ?thesis by blast
qed

theorem process_exit_observed_once_witness:
  "\<exists>p. process_step\<^sup>*\<^sup>* (process_new 7 1, 0) (p, 0) \<and> fst (process_reap p)
     \<and> exit_info_of p = Some \<lparr>ei_koid = 7, ei_generation = 1, ei_exit_code = 3\<rparr>"
proof -
  let ?w = "(process_new 7 1, 0)" and ?p = "snd (process_exit (process_new 7 1) 3)"
  have "process_step\<^sup>*\<^sup>* ?w (?p, 0)" using exit [of "process_new 7 1" 0 3] by blast
  moreover have "process_fresh ?w" by (auto simp: process_fresh_def)
  moreover have "pl_state ?p = Exited" "exit_info_of ?p = Some \<lparr>ei_koid = 7, ei_generation = 1, ei_exit_code = 3\<rparr>"
    by (simp_all add: process_exit_def process_new_def exit_info_of_def)
  ultimately show ?thesis using process_exit_observed_once [of ?w ?p 0 ?p 0] by blast
qed

end
