(* ===== verification/Wait_Set.thy ===== *)
theory Wait_Set
  imports Rust_Prelude
begin

unbundle bit_operations_syntax

text \<open>
  Multi-object waits (\<open>huesos-waitset/src/lib.rs\<close>): signal sets, wait items, and the bounded set of
  items kept in the prefix of an array. The lemmas show that the array implements a list of items
  with distinct keys, in the order in which they were added, and that polling reports cancellation
  first, then the condition of the mode, then the deadline.
\<close>

section \<open>Signals and items\<close>

datatype signals = Signals (signal_bits: u32)

definition signals_is_empty :: "signals \<Rightarrow> bool" where
  "signals_is_empty s \<longleftrightarrow> signal_bits s = 0"

definition signals_contains :: "signals \<Rightarrow> signals \<Rightarrow> bool" where
  "signals_contains s other \<longleftrightarrow> signal_bits s AND signal_bits other = signal_bits other"

definition signals_intersects :: "signals \<Rightarrow> signals \<Rightarrow> bool" where
  "signals_intersects s other \<longleftrightarrow> signal_bits s AND signal_bits other \<noteq> 0"

definition signals_union :: "signals \<Rightarrow> signals \<Rightarrow> signals" where
  "signals_union s other = Signals (signal_bits s OR signal_bits other)"

definition signals_intersection :: "signals \<Rightarrow> signals \<Rightarrow> signals" where
  "signals_intersection s other = Signals (signal_bits s AND signal_bits other)"

definition signals_difference :: "signals \<Rightarrow> signals \<Rightarrow> signals" where
  "signals_difference s other = Signals (signal_bits s AND NOT (signal_bits other))"

record wait_item =
  wi_key :: u64
  wi_awaited :: signals
  wi_active :: signals

definition wait_item_new :: "u64 \<Rightarrow> signals \<Rightarrow> wait_item" where
  "wait_item_new key awaited = \<lparr>wi_key = key, wi_awaited = awaited, wi_active = Signals 0\<rparr>"

definition item_satisfied :: "wait_item \<Rightarrow> bool" where
  "item_satisfied item \<longleftrightarrow> signals_intersects (wi_active item) (wi_awaited item)"

definition satisfied_signals :: "wait_item \<Rightarrow> signals" where
  "satisfied_signals item = signals_intersection (wi_active item) (wi_awaited item)"

datatype wait_mode = AnyOf | AllOf

datatype wait_outcome = Pending | Signaled | Canceled | TimedOut

section \<open>The wait set\<close>

record wait_set =
  ws_items :: "wait_item option list"
  ws_len :: nat
  ws_canceled :: bool

definition wait_set_new :: "nat \<Rightarrow> wait_set" where
  "wait_set_new n = \<lparr>ws_items = replicate n None, ws_len = 0, ws_canceled = False\<rparr>"

definition ws_capacity :: "wait_set \<Rightarrow> nat" where
  "ws_capacity w = length (ws_items w)"

definition occupied :: "wait_set \<Rightarrow> wait_item list" where
  "occupied w = flatten (ws_items w)"

definition has_key :: "u64 \<Rightarrow> wait_item option \<Rightarrow> bool" where
  "has_key key slot = (case slot of Some item \<Rightarrow> wi_key item = key | None \<Rightarrow> False)"

definition ws_position :: "wait_set \<Rightarrow> u64 \<Rightarrow> nat option" where
  "ws_position w key = position (has_key key) (ws_items w)"

definition ws_add :: "wait_set \<Rightarrow> u64 \<Rightarrow> signals \<Rightarrow> bool \<times> wait_set" where
  "ws_add w key awaited =
     (if ws_canceled w \<or> ws_len w = ws_capacity w then (False, w)
      else if list_ex (\<lambda>item. wi_key item = key) (occupied w) then (False, w)
      else (True, w\<lparr>ws_items := (ws_items w)[ws_len w := Some (wait_item_new key awaited)],
                    ws_len := ws_len w + 1\<rparr>))"

definition rotate_left_range :: "'a list \<Rightarrow> nat \<Rightarrow> nat \<Rightarrow> 'a list" where
  "rotate_left_range xs i j = take i xs @ rotate1 (drop i (take j xs)) @ drop j xs"

definition ws_remove :: "wait_set \<Rightarrow> u64 \<Rightarrow> bool \<times> wait_set" where
  "ws_remove w key =
     (case ws_position w key of
        None \<Rightarrow> (False, w)
      | Some i \<Rightarrow>
          let items = rotate_left_range (ws_items w) i (ws_len w) in
          (True, w\<lparr>ws_items := items[ws_len w - 1 := None], ws_len := ws_len w - 1\<rparr>))"

definition update_item :: "wait_set \<Rightarrow> u64 \<Rightarrow> (wait_item \<Rightarrow> wait_item) \<Rightarrow> bool \<times> wait_set" where
  "update_item w key f =
     (case position (has_key key) (ws_items w) of
        None \<Rightarrow> (False, w)
      | Some i \<Rightarrow> (True, w\<lparr>ws_items := (ws_items w)[i := map_option f (ws_items w ! i)]\<rparr>))"

definition ws_signal :: "wait_set \<Rightarrow> u64 \<Rightarrow> signals \<Rightarrow> bool \<times> wait_set" where
  "ws_signal w key s = update_item w key (\<lambda>item. item\<lparr>wi_active := signals_union (wi_active item) s\<rparr>)"

definition ws_set_active :: "wait_set \<Rightarrow> u64 \<Rightarrow> signals \<Rightarrow> bool \<times> wait_set" where
  "ws_set_active w key s = update_item w key (\<lambda>item. item\<lparr>wi_active := s\<rparr>)"

definition ws_clear_signal :: "wait_set \<Rightarrow> u64 \<Rightarrow> signals \<Rightarrow> bool \<times> wait_set" where
  "ws_clear_signal w key s = update_item w key (\<lambda>item. item\<lparr>wi_active := signals_difference (wi_active item) s\<rparr>)"

definition ws_cancel :: "wait_set \<Rightarrow> wait_set" where
  "ws_cancel w = w\<lparr>ws_canceled := True\<rparr>"

definition ws_get :: "wait_set \<Rightarrow> u64 \<Rightarrow> wait_item option" where
  "ws_get w key = find (\<lambda>item. wi_key item = key) (occupied w)"

definition ws_satisfied :: "wait_set \<Rightarrow> wait_item list" where
  "ws_satisfied w = filter item_satisfied (occupied w)"

definition satisfied_count :: "wait_set \<Rightarrow> nat" where
  "satisfied_count w = length (filter item_satisfied (occupied w))"

definition any_satisfied :: "wait_set \<Rightarrow> bool" where
  "any_satisfied w = list_ex item_satisfied (occupied w)"

definition all_satisfied :: "wait_set \<Rightarrow> bool" where
  "all_satisfied w = list_all item_satisfied (occupied w)"

definition ws_poll :: "wait_set \<Rightarrow> wait_mode \<Rightarrow> wait_outcome" where
  "ws_poll w mode =
     (if ws_canceled w then Canceled
      else let done = (case mode of AnyOf \<Rightarrow> any_satisfied w | AllOf \<Rightarrow> all_satisfied w) in
        if done then Signaled else Pending)"

definition ws_poll_at :: "wait_set \<Rightarrow> wait_mode \<Rightarrow> u64 \<Rightarrow> u64 option \<Rightarrow> wait_outcome" where
  "ws_poll_at w mode now deadline =
     (let base = ws_poll w mode in
      case base of
        Pending \<Rightarrow> (case deadline of Some d \<Rightarrow> if d \<le> now then TimedOut else base | None \<Rightarrow> base)
      | _ \<Rightarrow> base)"

section \<open>The array is a list with distinct keys\<close>

definition ws_repr :: "wait_set \<Rightarrow> wait_item list \<Rightarrow> nat \<Rightarrow> bool \<Rightarrow> bool" where
  "ws_repr w xs n c \<longleftrightarrow> ws_items w = map Some xs @ replicate (n - length xs) None \<and> length xs \<le> n
     \<and> ws_len w = length xs \<and> ws_canceled w = c \<and> distinct (map wi_key xs)"

lemma ws_reprD:
  assumes "ws_repr w xs n c"
  shows "occupied w = xs" "ws_capacity w = n"
  using assms by (auto simp: ws_repr_def occupied_def ws_capacity_def)

lemma position_prefix:
  "position (has_key key) (map Some xs @ replicate k None) = position (\<lambda>item. wi_key item = key) xs"
proof (induction xs)
  case Nil
  show ?case by (induction k) (simp_all add: has_key_def)
qed (simp add: has_key_def)

lemma key_index_unique:
  "distinct (map wi_key xs) \<Longrightarrow> i < length xs \<Longrightarrow> j < length xs \<Longrightarrow> wi_key (xs ! i) = wi_key (xs ! j) \<Longrightarrow> i = j"
  using nth_eq_iff_index_eq [of "map wi_key xs" i j] by simp

lemma map_update_key:
  assumes "distinct (map wi_key xs)" "i < length xs" "wi_key (xs ! i) = key"
  shows "xs[i := f (xs ! i)] = map (\<lambda>item. if wi_key item = key then f item else item) xs"
proof (intro nth_equalityI)
  fix j assume "j < length (xs[i := f (xs ! i)])"
  then have j: "j < length xs" by simp
  show "xs[i := f (xs ! i)] ! j = map (\<lambda>item. if wi_key item = key then f item else item) xs ! j"
  proof (cases "j = i")
    case False
    then have "wi_key (xs ! j) \<noteq> key" using key_index_unique [OF assms(1) j assms(2)] assms(3) by auto
    then show ?thesis using False j by simp
  qed (use assms in simp)
qed simp

lemma filter_delete_key:
  assumes "distinct (map wi_key xs)" "i < length xs" "wi_key (xs ! i) = key"
  shows "take i xs @ drop (Suc i) xs = filter (\<lambda>item. wi_key item \<noteq> key) xs"
proof -
  have "wi_key x \<noteq> key" if x: "x \<in> set (take i xs)" for x
  proof -
    obtain j where "j < length (take i xs)" "x = take i xs ! j" using x unfolding in_set_conv_nth by blast
    then have "x = xs ! j" "j < length xs" "j < i" by auto
    then show ?thesis using key_index_unique [OF assms(1) _ assms(2), of j] assms(3) by auto
  qed
  moreover have "wi_key x \<noteq> key" if x: "x \<in> set (drop (Suc i) xs)" for x
  proof -
    obtain j where "j < length (drop (Suc i) xs)" "x = drop (Suc i) xs ! j" using x unfolding in_set_conv_nth by blast
    then have "x = xs ! (Suc i + j)" "Suc i + j < length xs" by auto
    then show ?thesis using key_index_unique [OF assms(1) _ assms(2), of "Suc i + j"] assms(3) by auto
  qed
  ultimately have "filter (\<lambda>item. wi_key item \<noteq> key) (take i xs @ xs ! i # drop (Suc i) xs)
      = take i xs @ drop (Suc i) xs"
    using assms(3) by (simp add: filter_id_conv)
  then show ?thesis by (simp add: id_take_nth_drop [OF assms(2), symmetric])
qed

lemma rotate_prefix:
  assumes "i < length xs"
  shows "(rotate_left_range (map Some xs @ replicate k None) i (length xs))[length xs - 1 := None]
    = map Some (take i xs @ drop (Suc i) xs) @ replicate (Suc k) None"
proof -
  let ?d = "map Some (drop (Suc i) xs)"
  have "drop i (map Some xs) = Some (xs ! i) # ?d"
    using assms by (simp add: Cons_nth_drop_Suc drop_map flip: list.simps(9))
  then have "rotate_left_range (map Some xs @ replicate k None) i (length xs)
      = (map Some (take i xs) @ ?d) @ Some (xs ! i) # replicate k None"
    using assms by (simp add: rotate_left_range_def take_map)
  moreover have len: "length xs - 1 = length (map Some (take i xs) @ ?d)" using assms by simp
  ultimately have "(rotate_left_range (map Some xs @ replicate k None) i (length xs))[length xs - 1 := None]
      = (map Some (take i xs) @ ?d) @ None # replicate k None"
    by (simp only: len list_update_length)
  then show ?thesis by simp
qed

lemma ws_add_repr:
  assumes r: "ws_repr w xs n c"
  shows "ws_add w key awaited =
      (if c \<or> length xs = n \<or> key \<in> set (map wi_key xs) then (False, w) else (True, snd (ws_add w key awaited)))"
    "fst (ws_add w key awaited) \<Longrightarrow> ws_repr (snd (ws_add w key awaited)) (xs @ [wait_item_new key awaited]) n c"
proof -
  note [simp] = ws_reprD [OF r]
  have f: "ws_len w = length xs" "ws_canceled w = c" "length xs \<le> n" "distinct (map wi_key xs)"
    "ws_items w = map Some xs @ replicate (n - length xs) None" using r by (simp_all add: ws_repr_def)
  show "ws_add w key awaited =
      (if c \<or> length xs = n \<or> key \<in> set (map wi_key xs) then (False, w) else (True, snd (ws_add w key awaited)))"
    by (auto simp: ws_add_def f(1,2) list_ex_iff)
  assume ok: "fst (ws_add w key awaited)"
  then have lt: "length xs < n" and new: "key \<notin> set (map wi_key xs)"
    using f by (auto simp: ws_add_def list_ex_iff split: if_splits)
  obtain k where k: "n - length xs = Suc k" using lt by (metis Suc_diff_Suc)
  have "ws_items (snd (ws_add w key awaited)) = map Some (xs @ [wait_item_new key awaited]) @ replicate k None"
    using ok f(1,5) k by (auto simp: ws_add_def list_update_append split: if_splits)
  moreover have "n - length (xs @ [wait_item_new key awaited]) = k" using k by simp
  ultimately show "ws_repr (snd (ws_add w key awaited)) (xs @ [wait_item_new key awaited]) n c"
    using ok f(1,2,4) lt new by (auto simp: ws_repr_def ws_add_def wait_item_new_def split: if_splits)
qed

lemma ws_remove_repr:
  assumes r: "ws_repr w xs n c"
  shows "fst (ws_remove w key) \<longleftrightarrow> key \<in> set (map wi_key xs)"
    "ws_repr (snd (ws_remove w key)) (filter (\<lambda>item. wi_key item \<noteq> key) xs) n c"
proof -
  have f: "ws_len w = length xs" "ws_canceled w = c" "length xs \<le> n" "distinct (map wi_key xs)"
    "ws_items w = map Some xs @ replicate (n - length xs) None" using r by (simp_all add: ws_repr_def)
  have p: "ws_position w key = position (\<lambda>item. wi_key item = key) xs"
    by (simp add: ws_position_def f(5) position_prefix)
  show "fst (ws_remove w key) \<longleftrightarrow> key \<in> set (map wi_key xs)"
    using position_None [of "\<lambda>item. wi_key item = key" xs] by (auto simp: ws_remove_def p Let_def split: option.splits)
  show "ws_repr (snd (ws_remove w key)) (filter (\<lambda>item. wi_key item \<noteq> key) xs) n c"
  proof (cases "position (\<lambda>item. wi_key item = key) xs")
    case None
    then have "filter (\<lambda>item. wi_key item \<noteq> key) xs = xs" by (auto simp: position_None filter_id_conv)
    then show ?thesis using None r by (simp add: ws_remove_def p)
  next
    case (Some i)
    then have i: "i < length xs" "wi_key (xs ! i) = key" using position_SomeD by fastforce+
    note del = filter_delete_key [OF f(4) i]
    have len: "length (filter (\<lambda>item. wi_key item \<noteq> key) xs) = length xs - 1"
      using i(1) by (simp flip: del)
    then have "n - length (filter (\<lambda>item. wi_key item \<noteq> key) xs) = Suc (n - length xs)"
      using i(1) f(3) by linarith
    moreover have "ws_items (snd (ws_remove w key)) =
        map Some (filter (\<lambda>item. wi_key item \<noteq> key) xs) @ replicate (Suc (n - length xs)) None"
      unfolding del [symmetric] using rotate_prefix [OF i(1), of "n - length xs"] f(1,5) Some
      by (simp add: ws_remove_def p Let_def)
    ultimately show ?thesis
      using f len Some by (simp add: ws_repr_def ws_remove_def p Let_def distinct_map_filter)
  qed
qed

lemma update_item_repr:
  assumes r: "ws_repr w xs n c" and key: "\<And>item. wi_key (f item) = wi_key item"
  shows "fst (update_item w key f) \<longleftrightarrow> key \<in> set (map wi_key xs)"
    "ws_repr (snd (update_item w key f)) (map (\<lambda>item. if wi_key item = key then f item else item) xs) n c"
proof -
  have g: "ws_len w = length xs" "ws_canceled w = c" "length xs \<le> n" "distinct (map wi_key xs)"
    "ws_items w = map Some xs @ replicate (n - length xs) None" using r by (simp_all add: ws_repr_def)
  have p: "position (has_key key) (ws_items w) = position (\<lambda>item. wi_key item = key) xs"
    by (simp add: g(5) position_prefix)
  show "fst (update_item w key f) \<longleftrightarrow> key \<in> set (map wi_key xs)"
    using position_None [of "\<lambda>item. wi_key item = key" xs] by (auto simp: update_item_def p split: option.splits)
  show "ws_repr (snd (update_item w key f)) (map (\<lambda>item. if wi_key item = key then f item else item) xs) n c"
  proof (cases "position (\<lambda>item. wi_key item = key) xs")
    case None
    then have "map (\<lambda>item. if wi_key item = key then f item else item) xs = xs"
      by (auto simp: position_None intro: map_idI)
    then show ?thesis using None r by (simp add: update_item_def p)
  next
    case (Some i)
    then have i: "i < length xs" "wi_key (xs ! i) = key" using position_SomeD by fastforce+
    have "map wi_key (map (\<lambda>item. if wi_key item = key then f item else item) xs) = map wi_key xs"
      by (auto simp: key)
    moreover have "(ws_items w)[i := map_option f (ws_items w ! i)]
        = map Some (xs[i := f (xs ! i)]) @ replicate (n - length xs) None"
      using i(1) by (simp add: g(5) nth_append list_update_append map_update)
    then have "snd (update_item w key f) = w\<lparr>ws_items :=
        map Some (map (\<lambda>item. if wi_key item = key then f item else item) xs) @ replicate (n - length xs) None\<rparr>"
      unfolding map_update_key [OF g(4) i] by (simp add: update_item_def p Some)
    ultimately show ?thesis using g(1-4) by (simp add: ws_repr_def del: map_map)
  qed
qed

text \<open>
  C38: the wait set implements a list of items with distinct keys, in the order of their addition.
  Adding appends, or is refused when cancelled, full or already present; removing, by rotating the
  prefix of the array, deletes exactly that key; signalling, setting and clearing change exactly the
  active signals of that item; each reports whether the key was there.
\<close>

theorem wait_set_refines_list:
  assumes "ws_repr w xs n c"
  shows "ws_repr (snd (ws_add w key awaited))
      (if c \<or> length xs = n \<or> key \<in> wi_key ` set xs then xs else xs @ [wait_item_new key awaited]) n c
    \<and> (fst (ws_add w key awaited) \<longleftrightarrow> \<not> (c \<or> length xs = n \<or> key \<in> wi_key ` set xs))
    \<and> ws_repr (snd (ws_remove w key)) (filter (\<lambda>item. wi_key item \<noteq> key) xs) n c
    \<and> (fst (ws_remove w key) \<longleftrightarrow> key \<in> wi_key ` set xs)
    \<and> ws_repr (snd (ws_signal w key s))
        (map (\<lambda>it. if wi_key it = key then it\<lparr>wi_active := signals_union (wi_active it) s\<rparr> else it) xs) n c
    \<and> ws_repr (snd (ws_set_active w key s))
        (map (\<lambda>it. if wi_key it = key then it\<lparr>wi_active := s\<rparr> else it) xs) n c
    \<and> ws_repr (snd (ws_clear_signal w key s))
        (map (\<lambda>it. if wi_key it = key then it\<lparr>wi_active := signals_difference (wi_active it) s\<rparr> else it) xs) n c
    \<and> (fst (ws_signal w key s) \<longleftrightarrow> key \<in> wi_key ` set xs)
    \<and> ws_repr (ws_cancel w) xs n True \<and> ws_get w key = find (\<lambda>it. wi_key it = key) xs
    \<and> ws_repr (wait_set_new m) [] m False"
proof -
  let ?refused = "c \<or> length xs = n \<or> key \<in> wi_key ` set xs"
  have add: "ws_repr (snd (ws_add w key awaited)) (if ?refused then xs else xs @ [wait_item_new key awaited]) n c"
    "fst (ws_add w key awaited) \<longleftrightarrow> \<not> ?refused"
  proof (atomize (full), cases ?refused)
    case True
    then have "ws_add w key awaited = (False, w)" using ws_add_repr(1) [OF assms, of key awaited] by auto
    then show "ws_repr (snd (ws_add w key awaited)) (if ?refused then xs else xs @ [wait_item_new key awaited]) n c
        \<and> (fst (ws_add w key awaited) \<longleftrightarrow> \<not> ?refused)" using True assms by simp
  next
    case False
    then have "ws_add w key awaited = (True, snd (ws_add w key awaited))"
      using ws_add_repr(1) [OF assms, of key awaited] by auto
    then have "fst (ws_add w key awaited)" by (metis fst_conv)
    then show "ws_repr (snd (ws_add w key awaited)) (if ?refused then xs else xs @ [wait_item_new key awaited]) n c
        \<and> (fst (ws_add w key awaited) \<longleftrightarrow> \<not> ?refused)"
      using False ws_add_repr(2) [OF assms, of key awaited] by auto
  qed
  have rest: "ws_repr (ws_cancel w) xs n True" "ws_get w key = find (\<lambda>it. wi_key it = key) xs"
    "ws_repr (wait_set_new m) [] m False"
    using assms by (simp_all add: ws_repr_def ws_cancel_def ws_get_def ws_reprD(1) [OF assms] wait_set_new_def)
  show ?thesis
    unfolding ws_signal_def ws_set_active_def ws_clear_signal_def
    by (intro conjI add rest ws_remove_repr [OF assms, unfolded set_map]
        update_item_repr [OF assms, unfolded set_map]) simp_all
qed

definition sample_wait :: wait_set where
  "sample_wait = snd (ws_add (snd (ws_add (wait_set_new 3) 5 (Signals 1))) 9 (Signals 2))"

theorem wait_set_refines_list_witness:
  "ws_repr sample_wait [wait_item_new 5 (Signals 1), wait_item_new 9 (Signals 2)] 3 False
   \<and> ws_repr (snd (ws_remove sample_wait 5)) [wait_item_new 9 (Signals 2)] 3 False \<and> fst (ws_remove sample_wait 5)"
proof -
  have r: "ws_repr sample_wait [wait_item_new 5 (Signals 1), wait_item_new 9 (Signals 2)] 3 False"
    by (simp add: ws_repr_def sample_wait_def ws_add_def wait_set_new_def wait_item_new_def ws_capacity_def
        occupied_def numeral_3_eq_3)
  from wait_set_refines_list [OF r, of 5] r show ?thesis by (simp add: wait_item_new_def)
qed

text \<open>
  A wait ends for the right reason. Polling reports cancellation before anything else, then
  completion under the mode, and a timeout only when the condition does not hold and the deadline
  has passed; a wait with no deadline never times out, and a signal on an awaited object completes
  a wait for any, whatever was set before.
\<close>

theorem wait_outcome_precedence:
  assumes "ws_repr w xs n c"
  shows "ws_poll_at w mode now deadline =
      (if c then Canceled
       else if (case mode of AnyOf \<Rightarrow> \<exists>it\<in>set xs. item_satisfied it | AllOf \<Rightarrow> \<forall>it\<in>set xs. item_satisfied it)
         then Signaled
       else if \<exists>d. deadline = Some d \<and> d \<le> now then TimedOut else Pending)
    \<and> (\<not> c \<and> it \<in> set xs \<and> signals_intersects s (wi_awaited it) \<longrightarrow>
      ws_poll_at (snd (ws_signal w (wi_key it) s)) AnyOf now deadline = Signaled)"
proof -
  have poll: "ws_poll_at v mode now deadline =
      (if e then Canceled
       else if (case mode of AnyOf \<Rightarrow> \<exists>it\<in>set ys. item_satisfied it | AllOf \<Rightarrow> \<forall>it\<in>set ys. item_satisfied it)
         then Signaled
       else if \<exists>d. deadline = Some d \<and> d \<le> now then TimedOut else Pending)" if "ws_repr v ys n e" for v ys e mode
    using that ws_reprD(1) [OF that]
    by (cases mode) (auto simp: ws_poll_at_def ws_poll_def ws_repr_def any_satisfied_def all_satisfied_def
        list_ex_iff list_all_iff Let_def split: option.splits)
  have "ws_poll_at (snd (ws_signal w (wi_key it) s)) AnyOf now deadline = Signaled"
    if it: "\<not> c" "it \<in> set xs" "signals_intersects s (wi_awaited it)"
  proof -
  let ?f = "\<lambda>i. i\<lparr>wi_active := signals_union (wi_active i) s\<rparr>"
  have "item_satisfied (?f it)"
    using it(3) by (auto simp: item_satisfied_def signals_intersects_def signals_union_def bit_eq_iff bit_simps)
  moreover have "?f it \<in> set (map (\<lambda>i. if wi_key i = wi_key it then ?f i else i) xs)"
    unfolding set_map by (rule image_eqI [OF _ it(2)]) simp
  ultimately have "\<exists>i\<in>set (map (\<lambda>i. if wi_key i = wi_key it then ?f i else i) xs). item_satisfied i" by blast
  then show "ws_poll_at (snd (ws_signal w (wi_key it) s)) AnyOf now deadline = Signaled"
    using poll [OF update_item_repr(2) [OF assms], of ?f "wi_key it" AnyOf] it(1) by (simp add: ws_signal_def)
  qed
  with poll [OF assms] show ?thesis by blast
qed

theorem wait_outcome_precedence_witness:
  "ws_poll_at sample_wait AnyOf 4 (Some 3) = TimedOut
   \<and> ws_poll_at (snd (ws_signal sample_wait 9 (Signals 2))) AnyOf 4 (Some 3) = Signaled"
proof -
  have r: "ws_repr sample_wait [wait_item_new 5 (Signals 1), wait_item_new 9 (Signals 2)] 3 False"
    by (simp add: ws_repr_def sample_wait_def ws_add_def wait_set_new_def wait_item_new_def ws_capacity_def
        occupied_def numeral_3_eq_3)
  from wait_outcome_precedence [OF r, of AnyOf 4 "Some 3" "wait_item_new 9 (Signals 2)" "Signals 2"]
  show ?thesis by (simp add: wait_item_new_def item_satisfied_def signals_intersects_def)
qed

end
