(* ===== verification/Sched_Gates.thy ===== *)
theory Sched_Gates
  imports Cpu_Mask
begin

unbundle bit_operations_syntax

text \<open>
  Two gates of the scheduler core (\<open>huesos-sched/src/lib.rs\<close>): \<open>SmtCoreGate\<close>, which decides which
  sibling processors of a physical core may run userspace together, and \<open>IrqEventState\<close>, which counts
  interrupts between the handler and its thread. The lemmas show that the isolated policy never lets
  two trust domains share a core, and that no interrupt is lost while the source honours the mask.
\<close>

section \<open>The SMT gate\<close>

datatype trust_domain_id = TrustDomainId (domain_raw: u64)

definition trust_domain_new :: "u64 \<Rightarrow> trust_domain_id option" where
  "trust_domain_new raw = (if raw = 0 then None else Some (TrustDomainId raw))"

datatype smt_policy = SmtOff | SmtIsolated | SmtTrusted

record smt_core_gate =
  sg_policy :: smt_policy
  sg_active_domain :: "trust_domain_id option"
  sg_active_siblings :: cpu_mask
  sg_epoch :: u64

datatype smt_gate_error = SmtDisabled | IncompatibleDomain | AlreadyActive | NotActive

definition smt_gate_new :: "smt_policy \<Rightarrow> smt_core_gate" where
  "smt_gate_new policy =
     \<lparr>sg_policy = policy, sg_active_domain = None, sg_active_siblings = cpu_mask_empty, sg_epoch = 0\<rparr>"

definition admit_sibling :: "smt_core_gate \<Rightarrow> cpu_index \<Rightarrow> (smt_gate_error + u64) \<times> smt_core_gate" where
  "admit_sibling g cpu =
     (let epoch = max (sg_epoch g + 1) 1 in
      (Inr epoch, g\<lparr>sg_active_siblings := cpu_mask_insert (sg_active_siblings g) cpu, sg_epoch := epoch\<rparr>))"

definition smt_claim ::
  "smt_core_gate \<Rightarrow> cpu_index \<Rightarrow> trust_domain_id \<Rightarrow> (smt_gate_error + u64) \<times> smt_core_gate" where
  "smt_claim g cpu dmn =
     (if cpu_mask_contains (sg_active_siblings g) cpu then (Inl AlreadyActive, g)
      else case sg_policy g of
          SmtOff \<Rightarrow> (Inl SmtDisabled, g)
        | SmtIsolated \<Rightarrow>
            (if (case sg_active_domain g of Some active \<Rightarrow> active \<noteq> dmn | None \<Rightarrow> False)
             then (Inl IncompatibleDomain, g)
             else admit_sibling (g\<lparr>sg_active_domain := Some dmn\<rparr>) cpu)
        | SmtTrusted \<Rightarrow> admit_sibling g cpu)"

definition smt_release :: "smt_core_gate \<Rightarrow> cpu_index \<Rightarrow> (smt_gate_error + u64) \<times> smt_core_gate" where
  "smt_release g cpu =
     (if \<not> cpu_mask_contains (sg_active_siblings g) cpu then (Inl NotActive, g)
      else let siblings = cpu_mask_remove (sg_active_siblings g) cpu;
               dmn = (if cpu_mask_is_empty siblings then None else sg_active_domain g);
               epoch = max (sg_epoch g + 1) 1 in
        (Inr epoch, g\<lparr>sg_active_siblings := siblings, sg_active_domain := dmn, sg_epoch := epoch\<rparr>))"

text \<open>A history of the gate, with the domain each sibling in userspace claimed.\<close>

inductive smt_step ::
  "smt_core_gate \<times> (nat \<Rightarrow> trust_domain_id option) \<Rightarrow> smt_core_gate \<times> (nat \<Rightarrow> trust_domain_id option) \<Rightarrow> bool" where
  claim: "cpu_valid cpu \<Longrightarrow> smt_claim g cpu dmn = (Inr e, g') \<Longrightarrow> smt_step (g, runs) (g', runs(as_usize cpu \<mapsto> dmn))"
| refused: "cpu_valid cpu \<Longrightarrow> smt_claim g cpu dmn = (Inl err, g') \<Longrightarrow> smt_step (g, runs) (g', runs)"
| release: "cpu_valid cpu \<Longrightarrow> smt_release g cpu = (Inr e, g') \<Longrightarrow> smt_step (g, runs) (g', runs(as_usize cpu := None))"
| spurious: "cpu_valid cpu \<Longrightarrow> smt_release g cpu = (Inl err, g') \<Longrightarrow> smt_step (g, runs) (g', runs)"

definition smt_start :: "smt_core_gate \<times> (nat \<Rightarrow> trust_domain_id option) \<Rightarrow> bool" where
  "smt_start w \<longleftrightarrow> (\<exists>policy. w = (smt_gate_new policy, Map.empty))"

definition smt_inv :: "smt_core_gate \<times> (nat \<Rightarrow> trust_domain_id option) \<Rightarrow> bool" where
  "smt_inv w \<longleftrightarrow> cpu_mask_wf (sg_active_siblings (fst w)) \<and> dom (snd w) = cpus (sg_active_siblings (fst w))
     \<and> (sg_policy (fst w) = SmtOff \<longrightarrow> snd w = Map.empty)
     \<and> (sg_policy (fst w) = SmtIsolated \<longrightarrow> (\<forall>c x. snd w c = Some x \<longrightarrow> sg_active_domain (fst w) = Some x))"

lemma admit_sibling_fields:
  "admit_sibling g cpu = (Inr e, g') \<Longrightarrow> sg_policy g' = sg_policy g \<and> sg_active_domain g' = sg_active_domain g
     \<and> sg_active_siblings g' = cpu_mask_insert (sg_active_siblings g) cpu"
  by (auto simp: admit_sibling_def Let_def)

lemma smt_claim_ok:
  assumes "smt_claim g cpu dmn = (Inr e, g')"
  shows "sg_policy g \<noteq> SmtOff \<and> sg_policy g' = sg_policy g
    \<and> sg_active_siblings g' = cpu_mask_insert (sg_active_siblings g) cpu
    \<and> (sg_policy g = SmtIsolated \<longrightarrow> sg_active_domain g' = Some dmn \<and> sg_active_domain g \<in> {None, Some dmn})"
proof (cases "sg_policy g")
  case SmtOff
  then show ?thesis using assms by (auto simp: smt_claim_def split: if_splits)
next
  case SmtIsolated
  then have "admit_sibling (g\<lparr>sg_active_domain := Some dmn\<rparr>) cpu = (Inr e, g')" "sg_active_domain g \<in> {None, Some dmn}"
    using assms by (auto simp: smt_claim_def split: if_splits option.splits)
  with SmtIsolated show ?thesis using admit_sibling_fields [of "g\<lparr>sg_active_domain := Some dmn\<rparr>"] by force
next
  case SmtTrusted
  then have "admit_sibling g cpu = (Inr e, g')" using assms by (auto simp: smt_claim_def split: if_splits)
  with SmtTrusted show ?thesis using admit_sibling_fields by force
qed

lemma smt_refused: "smt_claim g cpu dmn = (Inl err, g') \<Longrightarrow> g' = g" "smt_release g cpu = (Inl err, g') \<Longrightarrow> g' = g"
  by (auto simp: smt_claim_def smt_release_def admit_sibling_def Let_def
      split: if_splits smt_policy.splits option.splits)

lemma smt_release_ok:
  assumes "smt_release g cpu = (Inr e, g')"
  shows "sg_policy g' = sg_policy g \<and> sg_active_siblings g' = cpu_mask_remove (sg_active_siblings g) cpu
    \<and> (cpus (sg_active_siblings g') \<noteq> {} \<longrightarrow> sg_active_domain g' = sg_active_domain g)"
  using assms by (auto simp: smt_release_def Let_def is_empty_iff_cpus split: if_splits)

lemma smt_step_inv: "smt_step w w' \<Longrightarrow> smt_inv w \<Longrightarrow> smt_inv w'"
proof (induction rule: smt_step.induct)
  case (claim cpu g dmn e g' runs)
  note ok = smt_claim_ok [OF claim(2)]
  have c: "cpus (sg_active_siblings g') = insert (as_usize cpu) (cpus (sg_active_siblings g))"
    using ok claim by (simp add: smt_inv_def cpus_insert)
  have "sg_active_domain g' = Some x"
    if "sg_policy g = SmtIsolated" "(runs(as_usize cpu \<mapsto> dmn)) c = Some x" for c x
    using that ok claim(3) by (cases "c = as_usize cpu") (auto simp: smt_inv_def)
  then show ?case using ok c claim(3) by (simp add: smt_inv_def)
next
  case (release cpu g e g' runs)
  note ok = smt_release_ok [OF release(2)]
  have c: "cpus (sg_active_siblings g') = cpus (sg_active_siblings g) - {as_usize cpu}"
    using ok release by (simp add: smt_inv_def cpus_remove)
  then have d: "dom (runs(as_usize cpu := None)) = cpus (sg_active_siblings g')"
    using release(3) by (simp add: smt_inv_def)
  have "sg_active_domain g' = Some x"
    if x: "sg_policy g = SmtIsolated" "(runs(as_usize cpu := None)) c = Some x" for c x
  proof -
    have "c \<in> dom (runs(as_usize cpu := None))" using x(2) by blast
    then have "cpus (sg_active_siblings g') \<noteq> {}" unfolding d by blast
    then have "sg_active_domain g' = sg_active_domain g" using ok by blast
    then show ?thesis using x release(3) by (auto simp: smt_inv_def split: if_splits)
  qed
  then show ?case using ok d release(3) by (auto simp: smt_inv_def)
qed (auto dest: smt_refused)

interpretation smt_gate: invariant_machine smt_start smt_step smt_inv
proof
  show "smt_inv w" if "smt_start w" for w
    using that by (auto simp: smt_start_def smt_inv_def smt_gate_new_def cpus_empty)
  show "smt_inv w'" if "smt_inv w" "smt_step w w'" for w w'
    by (rule smt_step_inv [OF that(2,1)])
qed

text \<open>
  C18: the isolated policy keeps trust domains apart. In any history of claims and releases, all the
  siblings of a core that are in userspace at the same time under the isolated policy claimed one
  trust domain; with SMT off no sibling is ever admitted.
\<close>

theorem smt_isolation:
  assumes "smt_start w0" "smt_step\<^sup>*\<^sup>* w0 (g, runs)"
  shows "(sg_policy g = SmtIsolated \<and> runs a = Some x \<and> runs b = Some y \<longrightarrow> x = y)
    \<and> (sg_policy g = SmtOff \<longrightarrow> runs a = None)
    \<and> (runs a \<noteq> None \<longleftrightarrow> a \<in> cpus (sg_active_siblings g))"
proof -
  have inv: "smt_inv (g, runs)" by (rule smt_gate.reachable_inv [OF assms])
  have "x = y" if "sg_policy g = SmtIsolated" "runs a = Some x" "runs b = Some y"
  proof -
    have "sg_active_domain g = Some x" "sg_active_domain g = Some y"
      using inv that unfolding smt_inv_def fst_conv snd_conv by blast+
    then show ?thesis by simp
  qed
  moreover have "runs a \<noteq> None \<longleftrightarrow> a \<in> cpus (sg_active_siblings g)" using inv by (auto simp: smt_inv_def)
  ultimately show ?thesis using inv by (auto simp: smt_inv_def)
qed

theorem smt_isolation_witness:
  "\<exists>g. smt_step\<^sup>*\<^sup>* (smt_gate_new SmtIsolated, Map.empty) (g, [0 \<mapsto> TrustDomainId 4])
     \<and> sg_policy g = SmtIsolated \<and> 0 \<in> cpus (sg_active_siblings g)"
proof -
  let ?g = "snd (smt_claim (smt_gate_new SmtIsolated) (CpuIndex 0) (TrustDomainId 4))"
  have v: "cpu_valid (CpuIndex 0)" "as_usize (CpuIndex 0) = 0" by (simp_all add: cpu_valid_def as_usize_def)
  have c: "smt_claim (smt_gate_new SmtIsolated) (CpuIndex 0) (TrustDomainId 4) = (Inr 1, ?g)" "sg_policy ?g = SmtIsolated"
    by (simp_all add: smt_claim_def smt_gate_new_def admit_sibling_def contains_iff_cpus v cpus_empty Let_def)
  have "smt_step\<^sup>*\<^sup>* (smt_gate_new SmtIsolated, Map.empty) (?g, [0 \<mapsto> TrustDomainId 4])"
    using claim [OF v(1) c(1), of Map.empty] v(2) by auto
  moreover have "smt_start (smt_gate_new SmtIsolated, Map.empty)" by (auto simp: smt_start_def)
  ultimately show ?thesis using smt_isolation [of _ ?g "[0 \<mapsto> TrustDomainId 4]" 0] c(2) by fastforce
qed

section \<open>Interrupt events\<close>

record irq_event_state =
  iq_pending :: u32
  iq_storm_limit :: u32
  iq_masked :: bool
  iq_stormed :: bool

datatype irq_event_error = ZeroLimit

definition irq_event_new :: "u32 \<Rightarrow> irq_event_error + irq_event_state" where
  "irq_event_new storm_limit =
     (if storm_limit = 0 then Inl ZeroLimit
      else Inr \<lparr>iq_pending = 0, iq_storm_limit = storm_limit, iq_masked = False, iq_stormed = False\<rparr>)"

definition irq_arrive :: "irq_event_state \<Rightarrow> irq_event_state" where
  "irq_arrive q =
     (let pending = saturating_add (iq_pending q) 1 in
      if iq_storm_limit q \<le> pending
      then q\<lparr>iq_pending := pending, iq_masked := True, iq_stormed := True\<rparr>
      else q\<lparr>iq_pending := pending\<rparr>)"

definition irq_consume :: "irq_event_state \<Rightarrow> u32 \<Rightarrow> u32 \<times> irq_event_state" where
  "irq_consume q budget =
     (let consumed = min (iq_pending q) budget in (consumed, q\<lparr>iq_pending := iq_pending q - consumed\<rparr>))"

definition irq_rearm :: "irq_event_state \<Rightarrow> bool \<times> irq_event_state" where
  "irq_rearm q = (if iq_pending q \<noteq> 0 then (False, q) else (True, q\<lparr>iq_masked := False\<rparr>))"

text \<open>A history with the number of arrivals and of consumed events; a masked source does not raise.\<close>

inductive irq_step :: "irq_event_state \<times> nat \<times> nat \<Rightarrow> irq_event_state \<times> nat \<times> nat \<Rightarrow> bool" where
  raise: "\<not> iq_masked q \<Longrightarrow> irq_step (q, a, c) (irq_arrive q, Suc a, c)"
| serve: "irq_consume q budget = (k, q') \<Longrightarrow> irq_step (q, a, c) (q', a, c + unat k)"
| rearm: "irq_step (q, a, c) (snd (irq_rearm q), a, c)"

definition irq_start :: "irq_event_state \<times> nat \<times> nat \<Rightarrow> bool" where
  "irq_start w \<longleftrightarrow> (\<exists>limit q. irq_event_new limit = Inr q \<and> w = (q, 0, 0))"

definition irq_inv :: "irq_event_state \<times> nat \<times> nat \<Rightarrow> bool" where
  "irq_inv w \<longleftrightarrow> (case w of (q, a, c) \<Rightarrow> a = c + unat (iq_pending q) \<and> 0 < unat (iq_storm_limit q)
     \<and> unat (iq_pending q) \<le> unat (iq_storm_limit q)
     \<and> (\<not> iq_masked q \<longrightarrow> unat (iq_pending q) < unat (iq_storm_limit q)))"

lemma irq_step_inv: "irq_step w w' \<Longrightarrow> irq_inv w \<Longrightarrow> irq_inv w'"
proof (induction rule: irq_step.induct)
  case (raise q a c)
  have "unat (iq_storm_limit q) < 2 ^ 32" using unat_lt_pow [of "iq_storm_limit q"] by simp
  then have "unat (saturating_add (iq_pending q) 1) = unat (iq_pending q) + 1"
    using raise by (simp add: irq_inv_def unat_saturating_add)
  then show ?case using raise by (auto simp: irq_inv_def irq_arrive_def word_le_nat_alt Let_def)
next
  case (serve q budget k q' a c)
  let ?k = "min (iq_pending q) budget"
  have "?k \<le> iq_pending q" by simp
  then have "unat (iq_pending q - ?k) = unat (iq_pending q) - unat ?k" "unat ?k \<le> unat (iq_pending q)"
    by (simp_all only: unat_sub_nowrap word_le_nat_alt)
  then show ?case using serve by (auto simp: irq_inv_def irq_consume_def Let_def)
next
  case (rearm q a c)
  then show ?case by (auto simp: irq_inv_def irq_rearm_def)
qed

interpretation irq_events: invariant_machine irq_start irq_step irq_inv
proof
  show "irq_inv w" if "irq_start w" for w
    using that by (auto simp: irq_start_def irq_inv_def irq_event_new_def unat_gt_0 split: if_splits)
  show "irq_inv w'" if "irq_inv w" "irq_step w w'" for w w'
    by (rule irq_step_inv [OF that(2,1)])
qed

text \<open>
  C32: no interrupt is lost between the handler and its thread. While the source honours the mask, the
  saturating counter never saturates: in any history the pending count is exactly the arrivals less
  the events consumed, stays within the storm limit, and the source is rearmed only when every
  arrival has been consumed.
\<close>

theorem irq_events_conserved:
  assumes "irq_start w0" "irq_step\<^sup>*\<^sup>* w0 (q, arrived, consumed)"
  shows "arrived = consumed + unat (iq_pending q) \<and> unat (iq_pending q) \<le> unat (iq_storm_limit q)
    \<and> (fst (irq_rearm q) \<longleftrightarrow> arrived = consumed)"
proof -
  have "irq_inv (q, arrived, consumed)" by (rule irq_events.reachable_inv [OF assms])
  then show ?thesis by (auto simp: irq_inv_def irq_rearm_def unat_eq_zero)
qed

theorem irq_events_conserved_witness:
  "\<exists>q. irq_step\<^sup>*\<^sup>* (projr (irq_event_new 2), 0, 0) (q, 1, 0) \<and> unat (iq_pending q) = 1 \<and> \<not> fst (irq_rearm q)"
proof -
  let ?q = "projr (irq_event_new 2)"
  have "irq_event_new 2 = Inr ?q" "\<not> iq_masked ?q" by (simp_all add: irq_event_new_def)
  then have "irq_start (?q, 0, 0)" "\<not> iq_masked ?q" by (auto simp: irq_start_def)
  moreover from this(2) have "irq_step\<^sup>*\<^sup>* (?q, 0, 0) (irq_arrive ?q, 1, 0)" using raise [of ?q 0 0] by auto
  ultimately show ?thesis using irq_events_conserved [of "(?q, 0, 0)" "irq_arrive ?q" 1 0] by auto
qed

end
