(* ===== verification/Fixup_Table.thy ===== *)
theory Fixup_Table
  imports Rust_Prelude
begin

text \<open>
  The exception table of recoverable user copies (\<open>huesos-extable/src/lib.rs\<close>). The binary search is
  the one of the standard library's \<open>binary_search_by_key\<close>, written out as a bisection of the index
  range. The lemmas show that validation accepts exactly the sorted tables of disjoint ranges and
  that lookup in such a table finds the range that covers the faulting instruction, if there is one.
\<close>

section \<open>Entries and the table\<close>

record fixup_range =
  fx_start_rip :: u64
  fx_end_rip :: u64
  fx_fixup_rip :: u64

definition fixup_point :: "u64 \<Rightarrow> u64 \<Rightarrow> fixup_range" where
  "fixup_point rip fixup_rip =
     \<lparr>fx_start_rip = rip, fx_end_rip = saturating_add rip 1, fx_fixup_rip = fixup_rip\<rparr>"

definition fixup_contains :: "fixup_range \<Rightarrow> u64 \<Rightarrow> bool" where
  "fixup_contains e rip \<longleftrightarrow> fx_start_rip e \<le> rip \<and> rip < fx_end_rip e"

definition fixup_is_valid :: "fixup_range \<Rightarrow> bool" where
  "fixup_is_valid e \<longleftrightarrow> fx_start_rip e < fx_end_rip e"

record extable =
  xt_entries :: "fixup_range list"

fun windows_ok :: "fixup_range list \<Rightarrow> bool" where
  "windows_ok (a # b # rest) =
     (if fx_start_rip b \<le> fx_start_rip a then False
      else if fx_start_rip b < fx_end_rip a then False
      else windows_ok (b # rest))"
| "windows_ok _ = True"

definition new_sorted :: "fixup_range list \<Rightarrow> extable option" where
  "new_sorted entries =
     (if \<not> list_all fixup_is_valid entries then None
      else if \<not> windows_ok entries then None
      else Some \<lparr>xt_entries = entries\<rparr>)"

function bisect :: "u64 list \<Rightarrow> u64 \<Rightarrow> nat \<Rightarrow> nat \<Rightarrow> nat + nat" where
  "bisect keys key left right =
     (if right \<le> left then Inl left
      else let mid = left + (right - left) div 2 in
        if keys ! mid < key then bisect keys key (mid + 1) right
        else if key < keys ! mid then bisect keys key left mid
        else Inr mid)"
  by pat_completeness auto
termination
  by (relation "measure (\<lambda>(keys, key, left, right). right - left)") auto

declare bisect.simps [simp del]

definition binary_search_by_key :: "(fixup_range \<Rightarrow> u64) \<Rightarrow> fixup_range list \<Rightarrow> u64 \<Rightarrow> nat + nat" where
  "binary_search_by_key f entries key = bisect (map f entries) key 0 (length entries)"

definition entry_covering :: "fixup_range \<Rightarrow> u64 \<Rightarrow> u64 option" where
  "entry_covering entry fault_rip = (if fault_rip < fx_end_rip entry then Some (fx_fixup_rip entry) else None)"

definition extable_find :: "extable \<Rightarrow> u64 \<Rightarrow> u64 option" where
  "extable_find t fault_rip =
     (case binary_search_by_key fx_start_rip (xt_entries t) fault_rip of
        Inr i \<Rightarrow> entry_covering (xt_entries t ! i) fault_rip
      | Inl i \<Rightarrow> if i = 0 then None else entry_covering (xt_entries t ! (i - 1)) fault_rip)"

definition is_recoverable :: "extable \<Rightarrow> u64 \<Rightarrow> bool" where
  "is_recoverable t fault_rip \<longleftrightarrow> extable_find t fault_rip \<noteq> None"

definition sort_ranges :: "fixup_range list \<Rightarrow> fixup_range list" where
  "sort_ranges entries = sort_key fx_start_rip entries"

datatype fault_resolution = Recover u64 | Fatal

definition resolve_kernel_fault :: "u64 \<Rightarrow> extable \<Rightarrow> fault_resolution" where
  "resolve_kernel_fault fault_rip t =
     (case extable_find t fault_rip of Some fixup_rip \<Rightarrow> Recover fixup_rip | None \<Rightarrow> Fatal)"

section \<open>Validated tables\<close>

definition sorted_disjoint :: "fixup_range list \<Rightarrow> bool" where
  "sorted_disjoint es \<longleftrightarrow> (\<forall>e\<in>set es. fixup_is_valid e)
     \<and> sorted_wrt (\<lambda>a b. fx_end_rip a \<le> fx_start_rip b) es"

lemma windows_sorted:
  "\<forall>e\<in>set es. fixup_is_valid e \<Longrightarrow>
     windows_ok es \<longleftrightarrow> sorted_wrt (\<lambda>a b. fx_end_rip a \<le> fx_start_rip b) es"
proof (induction es rule: windows_ok.induct)
  case (1 a b rest)
  have va: "fx_start_rip a < fx_end_rip a" and vb: "fx_start_rip b < fx_end_rip b"
    using 1(2) by (simp_all add: fixup_is_valid_def)
  have step: "windows_ok (a # b # rest) \<longleftrightarrow> fx_end_rip a \<le> fx_start_rip b \<and> windows_ok (b # rest)"
    using va by auto
  show ?case
  proof (cases "fx_end_rip a \<le> fx_start_rip b")
    case True
    then have "windows_ok (b # rest) \<longleftrightarrow> sorted_wrt (\<lambda>a b. fx_end_rip a \<le> fx_start_rip b) (b # rest)"
      using 1 va by auto
    moreover have "fx_end_rip a \<le> fx_start_rip x" if "fx_end_rip b \<le> fx_start_rip x" for x
      using True vb that by (meson order_trans less_imp_le)
    ultimately show ?thesis unfolding step using True by auto
  next
    case False
    then show ?thesis unfolding step by simp
  qed
qed auto

lemma new_sorted_iff: "new_sorted es = (if sorted_disjoint es then Some \<lparr>xt_entries = es\<rparr> else None)"
  using windows_sorted [of es] by (auto simp: new_sorted_def sorted_disjoint_def list_all_iff)

lemma sorted_disjoint_nth:
  assumes "sorted_disjoint es" "i < j" "j < length es"
  shows "fx_start_rip (es ! i) < fx_end_rip (es ! i)" "fx_end_rip (es ! i) \<le> fx_start_rip (es ! j)"
  using assms sorted_wrt_nth_less [of _ es i j] by (auto simp: sorted_disjoint_def fixup_is_valid_def)

lemma sorted_disjoint_starts:
  "sorted_disjoint es \<Longrightarrow> i < j \<Longrightarrow> j < length es \<Longrightarrow> fx_start_rip (es ! i) < fx_start_rip (es ! j)"
  using sorted_disjoint_nth [of es i j] by (meson less_le_trans)

section \<open>Bisection\<close>

lemma bisect_correct:
  assumes "sorted keys" "left \<le> right" "right \<le> length keys"
    "\<forall>k < left. keys ! k < key" "\<forall>k. right \<le> k \<and> k < length keys \<longrightarrow> key < keys ! k"
  shows "case bisect keys key left right of
      Inr i \<Rightarrow> i < length keys \<and> keys ! i = key
    | Inl i \<Rightarrow> i \<le> length keys \<and> (\<forall>k < i. keys ! k < key) \<and> (\<forall>k. i \<le> k \<and> k < length keys \<longrightarrow> key < keys ! k)"
  using assms
proof (induction keys key left right rule: bisect.induct)
  case (1 keys key left right)
  let ?m = "left + (right - left) div 2"
  show ?case
  proof (cases "right \<le> left")
    case True
    then have "bisect keys key left right = Inl left" by (simp add: bisect.simps [of keys key left right])
    then show ?thesis using 1(3-7) True by simp
  next
    case False
    then have m: "left \<le> ?m" "?m < right" "?m < length keys" using 1(5) by auto
    consider (lt) "keys ! ?m < key" | (gt) "key < keys ! ?m" | (eq) "keys ! ?m = key" by fastforce
    then show ?thesis
    proof cases
      case lt
      have "\<forall>k < ?m + 1. keys ! k < key"
        using lt 1(3) m(3) sorted_nth_mono [of keys _ ?m] by (fastforce simp: less_Suc_eq_le)
      then have "case bisect keys key (?m + 1) right of
          Inr i \<Rightarrow> i < length keys \<and> keys ! i = key
        | Inl i \<Rightarrow> i \<le> length keys \<and> (\<forall>k < i. keys ! k < key) \<and> (\<forall>k. i \<le> k \<and> k < length keys \<longrightarrow> key < keys ! k)"
        using 1(1) [OF False refl lt] 1(3-7) m by simp
      then show ?thesis using False lt by (simp add: bisect.simps [of keys key left right] Let_def)
    next
      case gt
      have "\<forall>k. ?m \<le> k \<and> k < length keys \<longrightarrow> key < keys ! k"
        using gt 1(3) sorted_nth_mono [of keys ?m] by (fastforce intro: less_le_trans)
      then have "case bisect keys key left ?m of
          Inr i \<Rightarrow> i < length keys \<and> keys ! i = key
        | Inl i \<Rightarrow> i \<le> length keys \<and> (\<forall>k < i. keys ! k < key) \<and> (\<forall>k. i \<le> k \<and> k < length keys \<longrightarrow> key < keys ! k)"
        using 1(2) [OF False refl not_less_iff_gr_or_eq [THEN iffD2, OF disjI1, OF gt] gt] 1(3-7) m by simp
      moreover have "bisect keys key left right = bisect keys key left ?m"
        using False gt by (subst bisect.simps) (auto simp: Let_def)
      ultimately show ?thesis by (simp only:)
    next
      case eq
      then show ?thesis using False m by (simp add: bisect.simps [of keys key left right] Let_def)
    qed
  qed
qed

section \<open>Lookup\<close>

lemma starts_sorted: "sorted_disjoint es \<Longrightarrow> sorted (map fx_start_rip es)"
  using sorted_disjoint_starts [of es] by (auto simp: sorted_iff_nth_mono_less intro: less_imp_le)

lemma covering_candidate:
  assumes es: "sorted_disjoint es" and i: "i < length es" "fx_start_rip (es ! i) \<le> rip"
    and above: "\<And>k. i < k \<Longrightarrow> k < length es \<Longrightarrow> rip < fx_start_rip (es ! k)"
  shows "fixup_contains (es ! k) rip \<and> k < length es \<longleftrightarrow> k = i \<and> rip < fx_end_rip (es ! i)"
proof (cases k i rule: linorder_cases)
  case less
  then have "fx_end_rip (es ! k) \<le> fx_start_rip (es ! i)" using sorted_disjoint_nth [OF es] i(1) by blast
  then show ?thesis using less i(2) by (auto simp: fixup_contains_def)
next
  case equal
  then show ?thesis using i by (auto simp: fixup_contains_def)
next
  case greater
  then show ?thesis using above [of k] by (auto simp: fixup_contains_def)
qed

text \<open>
  C25: the exception table resolves a fault exactly. Validation accepts exactly the tables of
  well-formed ranges in ascending order without overlap, and on such a table the binary search
  recovers at the fixup of the one range that covers the faulting instruction, and reports the fault
  as fatal exactly when no range covers it.
\<close>

theorem extable_resolves:
  assumes "new_sorted es = Some t"
  shows "(resolve_kernel_fault rip t = Fatal \<longleftrightarrow> (\<forall>e\<in>set es. \<not> fixup_contains e rip))
    \<and> (\<forall>e\<in>set es. fixup_contains e rip \<longrightarrow> resolve_kernel_fault rip t = Recover (fx_fixup_rip e))
    \<and> (is_recoverable t rip \<longleftrightarrow> (\<exists>e\<in>set es. fixup_contains e rip))
    \<and> (sorted_disjoint es' \<longleftrightarrow> new_sorted es' \<noteq> None)"
proof -
  have es: "sorted_disjoint es" and t: "t = \<lparr>xt_entries = es\<rparr>"
    using assms by (auto simp: new_sorted_iff split: if_splits)
  let ?r = "bisect (map fx_start_rip es) rip 0 (length es)"
  have b: "case ?r of
      Inr i \<Rightarrow> i < length es \<and> map fx_start_rip es ! i = rip
    | Inl i \<Rightarrow> i \<le> length es \<and> (\<forall>k < i. map fx_start_rip es ! k < rip)
        \<and> (\<forall>k. i \<le> k \<and> k < length es \<longrightarrow> rip < map fx_start_rip es ! k)"
    by (rule bisect_correct [OF starts_sorted [OF es], of 0 "length es" rip, unfolded length_map]) auto
  have found: "extable_find t rip = entry_covering (es ! i) rip"
      "\<And>k. fixup_contains (es ! k) rip \<and> k < length es \<longleftrightarrow> k = i \<and> rip < fx_end_rip (es ! i)" "i < length es"
    if i: "?r = Inr i \<or> ?r = Inl (Suc i)" for i
  proof -
    have c: "i < length es" "fx_start_rip (es ! i) \<le> rip"
      using i
    proof (atomize (full), elim disjE)
      assume r: "?r = Inl (Suc i)"
      then have le: "Suc i \<le> length es" "\<forall>k < Suc i. map fx_start_rip es ! k < rip"
        using b unfolding r sum.case by blast+
      from le(2) have "map fx_start_rip es ! i < rip" by blast
      with le(1) show "i < length es \<and> fx_start_rip (es ! i) \<le> rip" by simp
    next
      assume "?r = Inr i"
      then have "i < length es" "map fx_start_rip es ! i = rip" using b by simp_all
      then show "i < length es \<and> fx_start_rip (es ! i) \<le> rip" by simp
    qed
    have "rip < fx_start_rip (es ! k)" if k: "i < k" "k < length es" for k
      using i b k sorted_disjoint_starts [OF es k] by auto
    then show "\<And>k. fixup_contains (es ! k) rip \<and> k < length es \<longleftrightarrow> k = i \<and> rip < fx_end_rip (es ! i)"
      by (rule covering_candidate [OF es c])
    show "extable_find t rip = entry_covering (es ! i) rip"
      using i by (auto simp: extable_find_def binary_search_by_key_def t)
    show "i < length es" by (rule c(1))
  qed
  have f: "(extable_find t rip = None \<longleftrightarrow> \<not> (\<exists>e\<in>set es. fixup_contains e rip))
    \<and> (\<forall>e\<in>set es. fixup_contains e rip \<longrightarrow> extable_find t rip = Some (fx_fixup_rip e))"
  proof (cases "?r = Inl 0")
    case True
    then have "\<not> fixup_contains e rip" if "e \<in> set es" for e
      using b that by (auto simp: in_set_conv_nth fixup_contains_def)
    moreover have "extable_find t rip = None" using True by (simp add: extable_find_def binary_search_by_key_def t)
    ultimately show ?thesis by auto
  next
    case False
    then obtain i where i: "?r = Inr i \<or> ?r = Inl (Suc i)" by (metis not0_implies_Suc sum.exhaust)
    have cov: "e \<in> set es \<and> fixup_contains e rip \<longleftrightarrow> e = es ! i \<and> rip < fx_end_rip (es ! i)" for e
      using found(2,3) [OF i] unfolding in_set_conv_nth by metis
    show ?thesis
    proof (cases "rip < fx_end_rip (es ! i)")
      case True
      then have "extable_find t rip = Some (fx_fixup_rip (es ! i))" using found(1) [OF i] by (simp add: entry_covering_def)
      then show ?thesis using cov True by (metis option.distinct(1))
    next
      case False
      then have "extable_find t rip = None" using found(1) [OF i] by (simp add: entry_covering_def)
      then show ?thesis using cov False by blast
    qed
  qed
  show ?thesis
    using f by (auto simp: resolve_kernel_fault_def is_recoverable_def new_sorted_iff split: option.splits)
qed

definition sample_extable :: "fixup_range list" where
  "sample_extable = [\<lparr>fx_start_rip = 10, fx_end_rip = 20, fx_fixup_rip = 100\<rparr>,
     \<lparr>fx_start_rip = 20, fx_end_rip = 21, fx_fixup_rip = 200\<rparr>]"

theorem extable_resolves_witness:
  "new_sorted sample_extable = Some \<lparr>xt_entries = sample_extable\<rparr>
   \<and> resolve_kernel_fault 20 \<lparr>xt_entries = sample_extable\<rparr> = Recover 200
   \<and> resolve_kernel_fault 21 \<lparr>xt_entries = sample_extable\<rparr> = Fatal"
proof -
  have t: "new_sorted sample_extable = Some \<lparr>xt_entries = sample_extable\<rparr>"
    by (simp add: new_sorted_def sample_extable_def fixup_is_valid_def)
  from extable_resolves [OF t, of 20] extable_resolves [OF t, of 21] t show ?thesis
    by (simp add: sample_extable_def fixup_contains_def)
qed

end
