(* ===== verification/Handle_Transfer.thy ===== *)
theory Handle_Transfer
  imports Rust_Prelude
begin

unbundle bit_operations_syntax

text \<open>
  Atomic handle transfer between two handle tables (\<open>huesos-handlemove/src/lib.rs\<close>). The lemmas show
  that a transfer does all of its dispositions or nothing, that every capability it creates carries
  the requested rights capped by the source's, and that tables refine finite maps of handles.
\<close>

section \<open>Rights and tables\<close>

datatype rights = Rights (rights_bits: u32)

definition DUPLICATE :: rights where
  "DUPLICATE = Rights (push_bit 0 1)"

definition TRANSFER :: rights where
  "TRANSFER = Rights (push_bit 1 1)"

definition rights_is_empty :: "rights \<Rightarrow> bool" where
  "rights_is_empty r \<longleftrightarrow> rights_bits r = 0"

definition rights_contains :: "rights \<Rightarrow> rights \<Rightarrow> bool" where
  "rights_contains r other \<longleftrightarrow> rights_bits r AND rights_bits other = rights_bits other"

definition rights_union :: "rights \<Rightarrow> rights \<Rightarrow> rights" where
  "rights_union r other = Rights (rights_bits r OR rights_bits other)"

definition rights_intersection :: "rights \<Rightarrow> rights \<Rightarrow> rights" where
  "rights_intersection r other = Rights (rights_bits r AND rights_bits other)"

definition transfer_rights :: "rights \<Rightarrow> rights \<Rightarrow> rights" where
  "transfer_rights source requested = rights_intersection source requested"

record handle_table =
  ht_slots :: "rights option list"
  ht_len :: nat

definition handle_table_new :: "nat \<Rightarrow> handle_table" where
  "handle_table_new n = \<lparr>ht_slots = replicate n None, ht_len = 0\<rparr>"

definition ht_capacity :: "handle_table \<Rightarrow> nat" where
  "ht_capacity t = length (ht_slots t)"

definition ht_available :: "handle_table \<Rightarrow> nat" where
  "ht_available t = ht_capacity t - ht_len t"

definition ht_insert :: "handle_table \<Rightarrow> rights \<Rightarrow> u64 option \<times> handle_table" where
  "ht_insert t r =
     (case position (\<lambda>slot. slot = None) (ht_slots t) of
        None \<Rightarrow> (None, t)
      | Some idx \<Rightarrow> (Some (of_nat idx), t\<lparr>ht_slots := (ht_slots t)[idx := Some r], ht_len := ht_len t + 1\<rparr>))"

definition ht_get :: "handle_table \<Rightarrow> u64 \<Rightarrow> rights option" where
  "ht_get t handle = (if unat handle < length (ht_slots t) then ht_slots t ! unat handle else None)"

definition ht_contains :: "handle_table \<Rightarrow> u64 \<Rightarrow> bool" where
  "ht_contains t handle \<longleftrightarrow> ht_get t handle \<noteq> None"

definition ht_remove :: "handle_table \<Rightarrow> u64 \<Rightarrow> rights option \<times> handle_table" where
  "ht_remove t handle =
     (if unat handle < length (ht_slots t) then
        let old = ht_slots t ! unat handle;
            t' = t\<lparr>ht_slots := (ht_slots t)[unat handle := None]\<rparr> in
        (old, if old \<noteq> None then t'\<lparr>ht_len := ht_len t - 1\<rparr> else t')
      else (None, t))"

section \<open>Transfers\<close>

datatype disp_op = MoveOp | DuplicateOp

record disposition =
  dp_handle :: u64
  dp_op :: disp_op
  dp_rights :: rights

datatype transfer_error = NoSuchHandle | MissingRight | AlreadyStaged | DestinationFull

fun staged_twice :: "disposition list \<Rightarrow> bool" where
  "staged_twice [] = False"
| "staged_twice (a # rest) = (list_ex (\<lambda>b. dp_handle a = dp_handle b) rest \<or> staged_twice rest)"

definition required_right :: "disp_op \<Rightarrow> rights" where
  "required_right op = (case op of MoveOp \<Rightarrow> TRANSFER | DuplicateOp \<Rightarrow> DUPLICATE)"

fun validate :: "handle_table \<Rightarrow> disposition list \<Rightarrow> transfer_error option" where
  "validate src [] = None"
| "validate src (d # rest) =
     (case ht_get src (dp_handle d) of
        None \<Rightarrow> Some NoSuchHandle
      | Some source_rights \<Rightarrow>
          if \<not> rights_contains source_rights (required_right (dp_op d)) then Some MissingRight
          else validate src rest)"

definition apply_one :: "handle_table \<times> handle_table \<Rightarrow> disposition \<Rightarrow> handle_table \<times> handle_table" where
  "apply_one st d =
     (case st of (src, dst) \<Rightarrow>
        let source_rights = (case ht_get src (dp_handle d) of Some r \<Rightarrow> r | None \<Rightarrow> Rights 0);
            effective = transfer_rights source_rights (dp_rights d);
            src' = (if dp_op d = MoveOp then snd (ht_remove src (dp_handle d)) else src) in
        (src', snd (ht_insert dst effective)))"

definition transfer ::
  "handle_table \<Rightarrow> handle_table \<Rightarrow> disposition list \<Rightarrow> (transfer_error + nat) \<times> handle_table \<times> handle_table" where
  "transfer src dst disps =
     (if disps = [] then (Inr 0, src, dst)
      else if staged_twice disps then (Inl AlreadyStaged, src, dst)
      else case validate src disps of
          Some e \<Rightarrow> (Inl e, src, dst)
        | None \<Rightarrow>
            if ht_available dst < length disps then (Inl DestinationFull, src, dst)
            else let (src', dst') = foldl apply_one (src, dst) disps in (Inr (length disps), src', dst'))"

section \<open>Tables as maps\<close>

definition live_count :: "handle_table \<Rightarrow> nat" where
  "live_count t = length (filter (\<lambda>slot. slot \<noteq> None) (ht_slots t))"

definition ht_wf :: "handle_table \<Rightarrow> bool" where
  "ht_wf t \<longleftrightarrow> ht_len t = live_count t \<and> length (ht_slots t) < 2 ^ 64"

lemma live_count_le: "live_count t \<le> ht_capacity t"
  by (simp add: live_count_def ht_capacity_def)

lemma filter_update_some:
  "i < length xs \<Longrightarrow> xs ! i = None \<Longrightarrow>
     length (filter (\<lambda>s. s \<noteq> None) (xs[i := Some r])) = Suc (length (filter (\<lambda>s. s \<noteq> None) xs))"
  by (induction xs arbitrary: i) (auto split: nat.splits)

lemma filter_update_none:
  "i < length xs \<Longrightarrow> xs ! i \<noteq> None \<Longrightarrow>
     Suc (length (filter (\<lambda>s. s \<noteq> None) (xs[i := None]))) = length (filter (\<lambda>s. s \<noteq> None) xs)"
  by (induction xs arbitrary: i) (auto split: nat.splits)

lemma insert_room:
  assumes wf: "ht_wf t" and room: "0 < ht_available t"
  obtains idx where "ht_insert t r = (Some (of_nat idx),
      t\<lparr>ht_slots := (ht_slots t)[idx := Some r], ht_len := ht_len t + 1\<rparr>)"
    "idx < length (ht_slots t)" "ht_slots t ! idx = None"
proof -
  have "length (filter (\<lambda>slot. slot \<noteq> None) (ht_slots t)) < length (ht_slots t)"
    using wf room by (simp add: ht_wf_def live_count_def ht_available_def ht_capacity_def)
  then have "filter (\<lambda>slot. slot \<noteq> None) (ht_slots t) \<noteq> ht_slots t" by (auto dest: arg_cong [of _ _ length])
  then have "position (\<lambda>slot. slot = None) (ht_slots t) \<noteq> None"
    by (simp only: position_None filter_id_conv not_False_eq_True)
  then obtain idx where idx: "position (\<lambda>slot. slot = None) (ht_slots t) = Some idx" by auto
  then show ?thesis using that [of idx] position_SomeD [OF idx] by (simp add: ht_insert_def)
qed

lemma insert_keeps:
  assumes wf: "ht_wf t" and room: "0 < ht_available t"
  shows "ht_wf (snd (ht_insert t r))" "ht_available (snd (ht_insert t r)) = ht_available t - 1"
    "ht_get t h = Some x \<Longrightarrow> ht_get (snd (ht_insert t r)) h = Some x"
    "\<exists>h. fst (ht_insert t r) = Some h \<and> ht_get t h = None \<and> ht_get (snd (ht_insert t r)) h = Some r
       \<and> (\<forall>k. k \<noteq> h \<longrightarrow> ht_get (snd (ht_insert t r)) k = ht_get t k)"
proof -
  obtain idx where i: "ht_insert t r = (Some (of_nat idx),
      t\<lparr>ht_slots := (ht_slots t)[idx := Some r], ht_len := ht_len t + 1\<rparr>)"
    "idx < length (ht_slots t)" "ht_slots t ! idx = None" by (rule insert_room [OF wf room])
  show "ht_wf (snd (ht_insert t r))" using wf filter_update_some [OF i(2,3), of r] i(1)
    by (simp add: ht_wf_def live_count_def)
  show "ht_available (snd (ht_insert t r)) = ht_available t - 1"
    by (simp add: i(1) ht_available_def ht_capacity_def)
  have idx: "unat (of_nat idx :: u64) = idx" using wf i(2) by (simp add: ht_wf_def unat_of_nat)
  have other: "ht_get (snd (ht_insert t r)) k = ht_get t k" if "k \<noteq> of_nat idx" for k
  proof -
    have "unat k \<noteq> idx" using that by (auto simp: word_unat_eq_iff idx)
    then show ?thesis by (simp add: i(1) ht_get_def)
  qed
  show "ht_get (snd (ht_insert t r)) h = Some x" if "ht_get t h = Some x"
  proof -
    have "ht_get t (of_nat idx) = None" using i(2,3) idx by (simp add: ht_get_def)
    then have "h \<noteq> of_nat idx" using that by auto
    then show ?thesis using other that by simp
  qed
  show "\<exists>h. fst (ht_insert t r) = Some h \<and> ht_get t h = None \<and> ht_get (snd (ht_insert t r)) h = Some r
       \<and> (\<forall>k. k \<noteq> h \<longrightarrow> ht_get (snd (ht_insert t r)) k = ht_get t k)"
    using i(2,3) idx other by (intro exI [of _ "of_nat idx"]) (simp add: i(1) ht_get_def)
qed

lemma remove_keeps:
  assumes wf: "ht_wf t"
  shows "ht_wf (snd (ht_remove t h))" "ht_get (snd (ht_remove t h)) k = (if k = h then None else ht_get t k)"
    "fst (ht_remove t h) = ht_get t h"
proof -
  show "ht_wf (snd (ht_remove t h))"
  proof (cases "unat h < length (ht_slots t) \<and> ht_slots t ! unat h \<noteq> None")
    case True
    then show ?thesis using wf filter_update_none [of "unat h" "ht_slots t"]
      by (simp add: ht_wf_def live_count_def ht_remove_def Let_def)
  next
    case False
    then have "(ht_slots t)[unat h := None] = ht_slots t"
      by (metis list_update_beyond list_update_id not_less)
    then show ?thesis using wf False by (simp add: ht_wf_def live_count_def ht_remove_def Let_def)
  qed
  show "ht_get (snd (ht_remove t h)) k = (if k = h then None else ht_get t k)"
    by (auto simp: ht_get_def ht_remove_def nth_list_update unat_inject Let_def)
  show "fst (ht_remove t h) = ht_get t h" by (simp add: ht_get_def ht_remove_def Let_def)
qed

section \<open>All or nothing\<close>

definition effective_rights :: "handle_table \<Rightarrow> disposition \<Rightarrow> rights" where
  "effective_rights src d = transfer_rights (the (ht_get src (dp_handle d))) (dp_rights d)"

definition moved :: "disposition list \<Rightarrow> u64 set" where
  "moved disps = dp_handle ` {d \<in> set disps. dp_op d = MoveOp}"

lemma staged_twice_iff: "staged_twice disps \<longleftrightarrow> \<not> distinct (map dp_handle disps)"
  by (induction disps) (auto simp: list_ex_iff)

lemma validate_None:
  "validate src disps = None \<longleftrightarrow> (\<forall>d\<in>set disps. \<exists>r. ht_get src (dp_handle d) = Some r
     \<and> rights_contains r (required_right (dp_op d)))"
  by (induction disps) (auto split: option.splits)

text \<open>
  The destination received exactly the rights of the list, one fresh handle each, and its other
  handles are untouched.
\<close>

definition received :: "handle_table \<Rightarrow> handle_table \<Rightarrow> u64 list \<Rightarrow> rights list \<Rightarrow> bool" where
  "received dst dst' hs rs \<longleftrightarrow> length hs = length rs \<and> distinct hs
     \<and> (\<forall>h\<in>set hs. ht_get dst h = None)
     \<and> (\<forall>i < length rs. ht_get dst' (hs ! i) = Some (rs ! i))
     \<and> (\<forall>h. h \<notin> set hs \<longrightarrow> ht_get dst' h = ht_get dst h)"

lemma received_Cons:
  assumes "ht_get dst h = None" "ht_get dst1 h = Some r" "\<forall>k. k \<noteq> h \<longrightarrow> ht_get dst1 k = ht_get dst k"
    "received dst1 dst' hs rs"
  shows "received dst dst' (h # hs) (r # rs)"
proof -
  have h: "h \<notin> set hs" using assms(2,4) by (auto simp: received_def)
  then have "ht_get dst' h = Some r" using assms(2,4) by (simp add: received_def)
  moreover have "ht_get dst k = None" if "k \<in> set hs" for k
    using assms(3,4) h that by (metis received_def)
  ultimately show ?thesis using assms h
    by (auto simp: received_def nth_Cons less_Suc_eq_0_disj split: nat.splits)
qed

lemma apply_all:
  assumes "ht_wf src" "ht_wf dst" "distinct (map dp_handle disps)" "length disps \<le> ht_available dst"
    "\<forall>d\<in>set disps. ht_get src (dp_handle d) \<noteq> None"
  shows "case foldl apply_one (src, dst) disps of (src', dst') \<Rightarrow>
      ht_wf src' \<and> ht_wf dst' \<and> ht_available dst' = ht_available dst - length disps
    \<and> (\<forall>h. ht_get src' h = (if h \<in> moved disps then None else ht_get src h))
    \<and> (\<exists>hs. received dst dst' hs (map (effective_rights src) disps))"
  using assms
proof (induction disps arbitrary: src dst)
  case Nil
  then show ?case by (simp add: moved_def received_def)
next
  case (Cons d ds)
  let ?src = "if dp_op d = MoveOp then snd (ht_remove src (dp_handle d)) else src"
  let ?dst = "snd (ht_insert dst (effective_rights src d))"
  have one: "apply_one (src, dst) d = (?src, ?dst)"
    using Cons.prems(5) by (auto simp: apply_one_def effective_rights_def Let_def split: option.splits)
  have room: "0 < ht_available dst" using Cons.prems(4) by simp
  have get: "ht_get ?src h = (if dp_op d = MoveOp \<and> h = dp_handle d then None else ht_get src h)" for h
    using remove_keeps(2) [OF Cons.prems(1)] by simp
  have rest: "ht_get ?src (dp_handle e) = ht_get src (dp_handle e)" if "e \<in> set ds" for e
    using get Cons.prems(3) that by (metis (no_types, lifting) distinct.simps(2) image_eqI list.simps(9) set_map)
  then have eff: "map (effective_rights ?src) ds = map (effective_rights src) ds"
    by (simp add: effective_rights_def)
  obtain src' dst' where f: "foldl apply_one (?src, ?dst) ds = (src', dst')" by fastforce
  have rec: "case foldl apply_one (?src, ?dst) ds of (src', dst') \<Rightarrow>
      ht_wf src' \<and> ht_wf dst' \<and> ht_available dst' = ht_available ?dst - length ds
    \<and> (\<forall>h. ht_get src' h = (if h \<in> moved ds then None else ht_get ?src h))
    \<and> (\<exists>hs. received ?dst dst' hs (map (effective_rights ?src) ds))"
    using Cons.prems rest insert_keeps(1,2) [OF Cons.prems(2) room] remove_keeps(1) [OF Cons.prems(1)]
    by (intro Cons.IH) auto
  have "moved (d # ds) = (if dp_op d = MoveOp then {dp_handle d} else {}) \<union> moved ds"
    by (auto simp: moved_def)
  then have "ht_get src' h = (if h \<in> moved (d # ds) then None else ht_get src h)" for h
    using rec unfolding f prod.case get by simp
  moreover have "foldl apply_one (src, dst) (d # ds) = (src', dst')" using f one by simp
  moreover have "ht_wf src'" "ht_wf dst'" "ht_available dst' = ht_available ?dst - length ds"
    using rec unfolding f prod.case by blast+
  moreover have "\<exists>hs. received dst dst' hs (map (effective_rights src) (d # ds))"
  proof -
    obtain hs where "received ?dst dst' hs (map (effective_rights src) ds)"
      using rec unfolding f prod.case eff by blast
    then show ?thesis
      using insert_keeps(4) [OF Cons.prems(2) room, of "effective_rights src d"] received_Cons by (simp add: exI) blast
  qed
  ultimately show ?case using insert_keeps(2) [OF Cons.prems(2) room] by simp
qed

text \<open>
  C10: a handle transfer is all or nothing, and never amplifies a capability. When it fails, for a
  handle staged twice, absent, lacking the right its operation needs, or for want of room, neither
  table changes. Otherwise exactly the moved handles leave the source and nothing else there
  changes; the destination receives one new handle per disposition, in slots that were free, and keeps
  every handle it had. Looked up there, the new handle has exactly the rights that were both
  requested and held by the source handle.
\<close>

theorem transfer_atomic:
  assumes "ht_wf src" "ht_wf dst"
  shows "case transfer src dst disps of
      (Inl e, src', dst') \<Rightarrow> src' = src \<and> dst' = dst \<and> disps \<noteq> []
        \<and> (\<not> distinct (map dp_handle disps)
           \<or> (\<exists>d\<in>set disps. \<forall>r. ht_get src (dp_handle d) = Some r \<longrightarrow> \<not> rights_contains r (required_right (dp_op d)))
           \<or> ht_available dst < length disps)
    | (Inr n, src', dst') \<Rightarrow> n = length disps \<and> distinct (map dp_handle disps) \<and> ht_wf src' \<and> ht_wf dst'
        \<and> (\<forall>h. ht_get src' h = (if h \<in> moved disps then None else ht_get src h))
        \<and> ht_available dst' + length disps = ht_available dst
        \<and> (\<exists>hs. length hs = length disps \<and> distinct hs \<and> (\<forall>h\<in>set hs. ht_get dst h = None)
             \<and> (\<forall>h. h \<notin> set hs \<longrightarrow> ht_get dst' h = ht_get dst h)
             \<and> (\<forall>i < length disps. \<exists>r g. ht_get src (dp_handle (disps ! i)) = Some r
                  \<and> rights_contains r (required_right (dp_op (disps ! i)))
                  \<and> ht_get dst' (hs ! i) = Some g \<and> rights_bits g = rights_bits r AND rights_bits (dp_rights (disps ! i))))"
proof (cases "disps = []")
  case True
  then show ?thesis using assms by (auto simp: transfer_def moved_def)
next
  case ne: False
  show ?thesis
  proof (cases "staged_twice disps \<or> validate src disps \<noteq> None \<or> ht_available dst < length disps")
    case True
    then have "\<exists>e. transfer src dst disps = (Inl e, src, dst)"
      using ne by (cases "validate src disps") (auto simp: transfer_def)
    then obtain e where e: "transfer src dst disps = (Inl e, src, dst)" by blast
    have "\<exists>d\<in>set disps. \<forall>r. ht_get src (dp_handle d) = Some r \<longrightarrow> \<not> rights_contains r (required_right (dp_op d))"
      if "validate src disps \<noteq> None" using that unfolding validate_None by blast
    then show ?thesis using True ne unfolding e by (auto simp: staged_twice_iff)
  next
    case False
    obtain src' dst' where f: "foldl apply_one (src, dst) disps = (src', dst')" by fastforce
    then have t: "transfer src dst disps = (Inr (length disps), src', dst')"
      using ne False by (simp add: transfer_def)
    have v: "\<forall>d\<in>set disps. \<exists>r. ht_get src (dp_handle d) = Some r \<and> rights_contains r (required_right (dp_op d))"
      using False unfolding validate_None by blast
    have all: "case (src', dst') of (src', dst') \<Rightarrow>
      ht_wf src' \<and> ht_wf dst' \<and> ht_available dst' = ht_available dst - length disps
    \<and> (\<forall>h. ht_get src' h = (if h \<in> moved disps then None else ht_get src h))
    \<and> (\<exists>hs. received dst dst' hs (map (effective_rights src) disps))"
      unfolding f [symmetric] using False v by (intro apply_all [OF assms]) (auto simp: staged_twice_iff)
    then obtain hs where hs: "received dst dst' hs (map (effective_rights src) disps)" by blast
    have "\<exists>r g. ht_get src (dp_handle (disps ! i)) = Some r \<and> rights_contains r (required_right (dp_op (disps ! i)))
        \<and> ht_get dst' (hs ! i) = Some g \<and> rights_bits g = rights_bits r AND rights_bits (dp_rights (disps ! i))"
      if i: "i < length disps" for i
    proof -
      obtain r where r: "ht_get src (dp_handle (disps ! i)) = Some r" "rights_contains r (required_right (dp_op (disps ! i)))"
        using v i by (meson nth_mem)
      then show ?thesis using hs i
        by (simp add: received_def effective_rights_def transfer_rights_def rights_intersection_def)
    qed
    then have "\<exists>hs. length hs = length disps \<and> distinct hs \<and> (\<forall>h\<in>set hs. ht_get dst h = None)
        \<and> (\<forall>h. h \<notin> set hs \<longrightarrow> ht_get dst' h = ht_get dst h)
        \<and> (\<forall>i < length disps. \<exists>r g. ht_get src (dp_handle (disps ! i)) = Some r
             \<and> rights_contains r (required_right (dp_op (disps ! i)))
             \<and> ht_get dst' (hs ! i) = Some g \<and> rights_bits g = rights_bits r AND rights_bits (dp_rights (disps ! i)))"
      using hs by (intro exI [of _ hs]) (simp add: received_def)
    then show ?thesis using False all unfolding t prod.case sum.case
      by (intro conjI; (elim conjE)?; simp add: staged_twice_iff)
  qed
qed

definition sample_source :: handle_table where
  "sample_source = \<lparr>ht_slots = [Some (Rights 3), Some (Rights 7)], ht_len = 2\<rparr>"

definition sample_move :: "disposition list" where
  "sample_move = [\<lparr>dp_handle = 1, dp_op = MoveOp, dp_rights = Rights 5\<rparr>]"

theorem transfer_atomic_witness:
  "\<exists>src' dst' h. transfer sample_source (handle_table_new 1) sample_move = (Inr 1, src', dst')
     \<and> ht_get src' 1 = None \<and> ht_get src' 0 = Some (Rights 3)
     \<and> ht_get dst' h = Some (Rights 5)"
proof -
  have wf: "ht_wf sample_source" "ht_wf (handle_table_new 1)"
    by (simp_all add: ht_wf_def live_count_def sample_source_def handle_table_new_def)
  have r: "rights_contains (Rights 7) TRANSFER" by (simp add: rights_contains_def TRANSFER_def)
  have ok: "fst (transfer sample_source (handle_table_new 1) sample_move) = Inr 1"
    by (simp add: transfer_def sample_move_def sample_source_def ht_get_def required_right_def r
        ht_available_def ht_capacity_def handle_table_new_def split: prod.splits)
  obtain src' dst' where t: "transfer sample_source (handle_table_new 1) sample_move = (Inr 1, src', dst')"
    using ok by (cases "transfer sample_source (handle_table_new 1) sample_move") auto
  note all = transfer_atomic [OF wf, of sample_move, unfolded t prod.case sum.case]
  have src: "\<forall>h. ht_get src' h = (if h \<in> moved sample_move then None else ht_get sample_source h)" using all by blast
  have "0 < length sample_move" by (simp add: sample_move_def)
  then obtain h r g where g: "ht_get sample_source (dp_handle (sample_move ! 0)) = Some r" "ht_get dst' h = Some g"
    "rights_bits g = rights_bits r AND rights_bits (dp_rights (sample_move ! 0))"
    using all by blast
  have look: "ht_get sample_source 1 = Some (Rights 7)" "ht_get sample_source 0 = Some (Rights 3)"
    by (simp_all add: sample_source_def ht_get_def)
  then have "r = Rights 7" using g(1) by (simp add: sample_move_def)
  then have "g = Rights 5" using g(3) by (cases g) (simp add: sample_move_def)
  moreover have "moved sample_move = {1}" by (auto simp: moved_def sample_move_def)
  ultimately show ?thesis using t src g(2) look by auto
qed

end
