(* ===== verification/Zombie_Store.thy ===== *)
theory Zombie_Store
  imports Rust_Prelude
begin

text \<open>
  Registry-level lifecycle policy (\<open>huesos-lifecycle/src/lib.rs\<close>): the bounded store of finished
  tasks, a ring buffer that evicts its oldest record when full, the graveyard over it, and the
  two-counter account that decides when an object may be collected. The closures given to \<open>retain\<close>
  and \<open>reap_waited\<close> are functions of the record. The lemmas show that the ring is a first-in
  first-out list of bounded length whose counters always balance.
\<close>

section \<open>The ring\<close>

record finished_task =
  ft_koid :: u64
  ft_generation :: u64
  ft_exit_code :: i64
  ft_exit_tick :: u64

datatype 'm insert_outcome = Retained | Evicted 'm

record 'm zombie_store =
  zs_slots :: "'m option list"
  zs_head :: nat
  zs_len :: nat
  zs_next_generation :: u64
  zs_inserted :: u64
  zs_evicted :: u64
  zs_reaped :: u64

definition zombie_store_new :: "nat \<Rightarrow> 'm zombie_store" where
  "zombie_store_new n = \<lparr>zs_slots = replicate n None, zs_head = 0, zs_len = 0, zs_next_generation = 1,
     zs_inserted = 0, zs_evicted = 0, zs_reaped = 0\<rparr>"

definition zs_capacity :: "'m zombie_store \<Rightarrow> nat" where
  "zs_capacity z = length (zs_slots z)"

definition zs_is_full :: "'m zombie_store \<Rightarrow> bool" where
  "zs_is_full z \<longleftrightarrow> zs_len z = zs_capacity z"

definition zs_live :: "'m zombie_store \<Rightarrow> u64" where
  "zs_live z = zs_inserted z - zs_evicted z - zs_reaped z"

definition alloc_generation :: "'m zombie_store \<Rightarrow> u64 \<times> 'm zombie_store" where
  "alloc_generation z =
     (zs_next_generation z, z\<lparr>zs_next_generation := saturating_add (zs_next_generation z) 1\<rparr>)"

definition zs_insert :: "'m zombie_store \<Rightarrow> 'm \<Rightarrow> 'm insert_outcome \<times> 'm zombie_store" where
  "zs_insert z meta =
     (let n = zs_capacity z; z = z\<lparr>zs_inserted := saturating_add (zs_inserted z) 1\<rparr> in
      if n = 0 then (Evicted meta, z\<lparr>zs_evicted := saturating_add (zs_evicted z) 1\<rparr>)
      else if zs_len z = n then
        let old = zs_slots z ! zs_head z;
            z = z\<lparr>zs_slots := (zs_slots z)[zs_head z := Some meta], zs_head := (zs_head z + 1) mod n\<rparr> in
        (case old of
           Some entry \<Rightarrow> (Evicted entry, z\<lparr>zs_evicted := saturating_add (zs_evicted z) 1\<rparr>)
         | None \<Rightarrow> (Retained, z))
      else
        let tail = (zs_head z + zs_len z) mod n in
        (Retained, z\<lparr>zs_slots := (zs_slots z)[tail := Some meta], zs_len := zs_len z + 1\<rparr>))"

definition reap_oldest :: "'m zombie_store \<Rightarrow> 'm option \<times> 'm zombie_store" where
  "reap_oldest z =
     (let n = zs_capacity z in
      if zs_len z = 0 \<or> n = 0 then (None, z)
      else
        let old = zs_slots z ! zs_head z;
            z = z\<lparr>zs_slots := (zs_slots z)[zs_head z := None], zs_head := (zs_head z + 1) mod n,
                  zs_len := zs_len z - 1\<rparr> in
        (old, if old \<noteq> None then z\<lparr>zs_reaped := saturating_add (zs_reaped z) 1\<rparr> else z))"

definition retain_step ::
  "('m \<Rightarrow> bool) \<Rightarrow> nat \<Rightarrow> 'm option list \<times> nat \<Rightarrow> nat \<Rightarrow> 'm option list \<times> nat" where
  "retain_step keep head acc read =
     (case acc of (slots, write) \<Rightarrow>
        let n = length slots; rphys = (head + read) mod n;
            keep_it = (case slots ! rphys of Some m \<Rightarrow> keep m | None \<Rightarrow> False) in
        if keep_it then
          let wphys = (head + write) mod n in
          (if wphys \<noteq> rphys then slots[rphys := None, wphys := slots ! rphys] else slots, write + 1)
        else (slots[rphys := None], write))"

definition zs_retain :: "'m zombie_store \<Rightarrow> ('m \<Rightarrow> bool) \<Rightarrow> nat \<times> 'm zombie_store" where
  "zs_retain z keep =
     (if zs_capacity z = 0 then (0, z)
      else
        let start_len = zs_len z;
            (slots, write) = foldl (retain_step keep (zs_head z)) (zs_slots z, 0) [0..<start_len];
            removed = start_len - write in
        (removed, z\<lparr>zs_slots := slots, zs_len := write,
           zs_reaped := saturating_add (zs_reaped z) (of_nat removed)\<rparr>))"

definition zs_iter :: "'m zombie_store \<Rightarrow> 'm list" where
  "zs_iter z = flatten (map (\<lambda>i. zs_slots z ! ((zs_head z + i) mod zs_capacity z)) [0..<zs_len z])"

section \<open>The graveyard\<close>

type_synonym task_graveyard = "finished_task zombie_store"

definition record_exit_with_generation ::
  "task_graveyard \<Rightarrow> u64 \<Rightarrow> u64 \<Rightarrow> i64 \<Rightarrow> u64 \<Rightarrow>
     (finished_task \<times> finished_task insert_outcome) \<times> task_graveyard" where
  "record_exit_with_generation g koid generation exit_code exit_tick =
     (let r = \<lparr>ft_koid = koid, ft_generation = generation, ft_exit_code = exit_code, ft_exit_tick = exit_tick\<rparr>;
          (outcome, g) = zs_insert g r in
      ((r, outcome), g))"

definition record_exit ::
  "task_graveyard \<Rightarrow> u64 \<Rightarrow> i64 \<Rightarrow> u64 \<Rightarrow> (finished_task \<times> finished_task insert_outcome) \<times> task_graveyard" where
  "record_exit g koid exit_code exit_tick =
     (let (generation, g) = alloc_generation g in record_exit_with_generation g koid generation exit_code exit_tick)"

definition graveyard_find :: "task_graveyard \<Rightarrow> u64 \<Rightarrow> u64 \<Rightarrow> finished_task option" where
  "graveyard_find g koid generation = find (\<lambda>t. ft_koid t = koid \<and> ft_generation t = generation) (zs_iter g)"

definition find_latest :: "task_graveyard \<Rightarrow> u64 \<Rightarrow> finished_task option" where
  "find_latest g koid = foldl (\<lambda>latest t. if ft_koid t = koid then Some t else latest) None (zs_iter g)"

definition reap_waited :: "task_graveyard \<Rightarrow> (u64 \<Rightarrow> u64 \<Rightarrow> bool) \<Rightarrow> nat \<times> task_graveyard" where
  "reap_waited g waited = zs_retain g (\<lambda>t. \<not> waited (ft_koid t) (ft_generation t))"

section \<open>The ring is a bounded queue\<close>

definition zs_repr :: "'m zombie_store \<Rightarrow> 'm list \<Rightarrow> bool" where
  "zs_repr z xs \<longleftrightarrow> zs_len z = length xs \<and> length xs \<le> zs_capacity z \<and> (0 < zs_capacity z \<longrightarrow> zs_head z < zs_capacity z)
     \<and> rotate (zs_head z) (zs_slots z) = map Some xs @ replicate (zs_capacity z - length xs) None"

lemma mod_add_inject:
  assumes "i < n" "j < n" "(h + i) mod n = (h + j) mod (n :: nat)"
  shows "i = j"
proof -
  have aux: "i = j" if "i \<le> j" "j < n" "(h + j) mod n = (h + i) mod n" for i j
    using that mod_eq_dvd_iff_nat [of "h + i" "h + j" n] by (auto dest: dvd_imp_le)
  show ?thesis using aux [of i j] aux [of j i] assms by (cases "i \<le> j") auto
qed

lemma rotate_update:
  assumes "i < length xs"
  shows "rotate h (xs[(h + i) mod length xs := v]) = (rotate h xs)[i := v]"
proof (rule nth_equalityI)
  fix j assume "j < length (rotate h (xs[(h + i) mod length xs := v]))"
  then have j: "j < length xs" by simp
  then have "(h + j) mod length xs < length xs" by (intro mod_less_divisor) linarith
  then show "rotate h (xs[(h + i) mod length xs := v]) ! j = (rotate h xs)[i := v] ! j"
  proof (cases "j = i")
    case False
    then have "(h + i) mod length xs \<noteq> (h + j) mod length xs" using mod_add_inject [OF assms j] by blast
    then show ?thesis using False j by (simp add: nth_rotate)
  qed (use j in \<open>simp add: nth_rotate\<close>)
qed simp

lemma rotate_next: "rotate ((h + 1) mod length xs) xs = rotate1 (rotate h xs)"
  by (metis Suc_eq_plus1 rotate_Suc rotate_conv_mod)

lemma zs_repr_slot:
  assumes "zs_repr z xs" "i < length xs"
  shows "zs_slots z ! ((zs_head z + i) mod zs_capacity z) = Some (xs ! i)"
proof -
  have "zs_slots z ! ((zs_head z + i) mod zs_capacity z) = rotate (zs_head z) (zs_slots z) ! i"
  proof -
    have "i < length (zs_slots z)" using assms by (auto simp: zs_repr_def zs_capacity_def)
    then show ?thesis by (simp only: zs_capacity_def nth_rotate)
  qed
  then show ?thesis using assms by (simp add: zs_repr_def nth_append)
qed

lemma zs_iter_repr: "zs_repr z xs \<Longrightarrow> zs_iter z = xs"
proof -
  assume r: "zs_repr z xs"
  then have "map (\<lambda>i. zs_slots z ! ((zs_head z + i) mod zs_capacity z)) [0..<zs_len z] = map Some xs"
    by (intro nth_equalityI) (auto simp: zs_repr_def [of z xs] intro: zs_repr_slot [OF r])
  then show ?thesis by (simp add: zs_iter_def)
qed

lemma new_repr: "zs_repr (zombie_store_new n) []"
  by (simp add: zs_repr_def zombie_store_new_def zs_capacity_def)

lemma insert_repr:
  assumes r: "zs_repr z xs"
  shows "let (out, z') = zs_insert z m in zs_capacity z' = zs_capacity z \<and>
    (if zs_capacity z = 0 then out = Evicted m \<and> zs_repr z' []
     else if length xs = zs_capacity z then out = Evicted (hd xs) \<and> zs_repr z' (tl xs @ [m])
     else out = Retained \<and> zs_repr z' (xs @ [m]))"
proof -
  let ?n = "zs_capacity z"
  have f: "zs_len z = length xs" "length xs \<le> ?n" "0 < ?n \<Longrightarrow> zs_head z < ?n"
    "rotate (zs_head z) (zs_slots z) = map Some xs @ replicate (?n - length xs) None"
    "length (zs_slots z) = ?n"
    using r by (auto simp: zs_repr_def zs_capacity_def)
  consider (zero) "?n = 0" | (full) "0 < ?n" "length xs = ?n" | (room) "length xs < ?n" using f(2) by linarith
  then show ?thesis
  proof cases
    case zero
    then show ?thesis using f(1-4) by (simp add: zs_insert_def zs_repr_def zs_capacity_def)
  next
    case full
    then obtain x ys where xs: "xs = x # ys" by (cases xs) auto
    have h: "zs_head z mod ?n = zs_head z" using f(3) full(1) by simp
    have old: "zs_slots z ! zs_head z = Some x"
      using zs_repr_slot [OF r, of 0] h by (simp add: xs)
    have "rotate ((zs_head z + 1) mod ?n) ((zs_slots z)[zs_head z := Some m])
        = rotate1 ((rotate (zs_head z) (zs_slots z))[0 := Some m])"
      using rotate_next [of "zs_head z" "(zs_slots z)[zs_head z := Some m]"] full(1) h
        rotate_update [of 0 "zs_slots z" "zs_head z" "Some m"] by (simp add: f(5))
    also have "\<dots> = map Some (ys @ [m])" using full(2) by (simp add: f(4) xs)
    finally show ?thesis using full f(1-3) old xs
      by (simp add: zs_insert_def zs_repr_def zs_capacity_def Let_def)
  next
    case room
    obtain k where k: "?n - length xs = Suc k" using room by (metis Suc_diff_Suc)
    have "rotate (zs_head z) ((zs_slots z)[(zs_head z + length xs) mod ?n := Some m])
        = (map Some xs @ None # replicate k None)[length xs := Some m]"
      using rotate_update [of "length xs" "zs_slots z" "zs_head z" "Some m"] room by (simp add: f(4,5) k)
    then have "rotate (zs_head z) ((zs_slots z)[(zs_head z + length xs) mod ?n := Some m])
        = map Some (xs @ [m]) @ replicate k None" by (simp add: list_update_append)
    moreover have "k = ?n - Suc (length xs)" using k by simp
    ultimately show ?thesis using room f(1-3)
      by (auto simp: zs_insert_def zs_repr_def zs_capacity_def Let_def)
  qed
qed

lemma reap_repr:
  assumes r: "zs_repr z xs"
  shows "let (out, z') = reap_oldest z in zs_capacity z' = zs_capacity z
    \<and> (case xs of [] \<Rightarrow> out = None \<and> z' = z | x # ys \<Rightarrow> out = Some x \<and> zs_repr z' ys)"
proof (cases xs)
  case Nil
  then show ?thesis using r by (simp add: reap_oldest_def zs_repr_def)
next
  case (Cons x ys)
  let ?n = "zs_capacity z"
  have f: "zs_len z = length xs" "length xs \<le> ?n" "zs_head z < ?n"
    "rotate (zs_head z) (zs_slots z) = map Some xs @ replicate (?n - length xs) None"
    "length (zs_slots z) = ?n"
    using r Cons by (auto simp: zs_repr_def zs_capacity_def)
  have h: "zs_head z mod ?n = zs_head z" using f(3) by simp
  have old: "zs_slots z ! zs_head z = Some x" using zs_repr_slot [OF r, of 0] h by (simp add: Cons)
  have "rotate ((zs_head z + 1) mod ?n) ((zs_slots z)[zs_head z := None])
      = rotate1 ((rotate (zs_head z) (zs_slots z))[0 := None])"
    using rotate_next [of "zs_head z" "(zs_slots z)[zs_head z := None]"] f(3) h
      rotate_update [of 0 "zs_slots z" "zs_head z" None] by (simp add: f(5))
  also have "\<dots> = map Some ys @ replicate (?n - length xs) None @ [None]" by (simp add: f(4) Cons)
  also have "replicate (?n - length xs) None @ [None] = replicate (?n - length ys) (None :: 'a option)"
  proof -
    have "?n - length ys = Suc (?n - length xs)" using f(2) Cons by simp
    then show ?thesis by (simp add: replicate_append_same)
  qed
  finally show ?thesis using f(1-3) old Cons
    by (auto simp: reap_oldest_def zs_repr_def zs_capacity_def Let_def)
qed

definition compacting :: "('m \<Rightarrow> bool) \<Rightarrow> 'm list \<Rightarrow> nat \<Rightarrow> nat \<Rightarrow> 'm option list" where
  "compacting keep xs r k = map Some (filter keep (take r xs))
     @ replicate (r - length (filter keep (take r xs))) None @ map Some (drop r xs) @ replicate k None"

lemma retain_loop:
  assumes rot: "rotate h slots = map Some xs @ replicate k None" and r: "r \<le> length xs"
  shows "\<exists>slots'. foldl (retain_step keep h) (slots, 0) [0..<r] = (slots', length (filter keep (take r xs)))
    \<and> length slots' = length slots \<and> rotate h slots' = compacting keep xs r k"
  using r
proof (induction r)
  case 0
  then show ?case using rot by (simp add: compacting_def)
next
  case (Suc r)
  let ?f = "filter keep (take r xs)" and ?x = "xs ! r" and ?n = "length slots"
  obtain s where s: "foldl (retain_step keep h) (slots, 0) [0..<r] = (s, length ?f)" "length s = ?n"
    "rotate h s = compacting keep xs r k" using Suc by auto
  have len: "length xs + k = ?n" using arg_cong [OF rot, of length] by simp
  have w: "length ?f \<le> r" using length_filter_le [of keep "take r xs"] Suc by simp
  obtain d where d: "r = length ?f + d" using w by (auto simp: le_iff_add)
  have lt: "r < ?n" "length ?f < ?n" using Suc.prems w len by auto
  have drop: "drop r xs = ?x # drop (Suc r) xs" using Suc.prems by (simp add: Cons_nth_drop_Suc)
  have take: "take (Suc r) xs = take r xs @ [?x]" using Suc.prems by (simp add: take_Suc_conv_app_nth)
  have view: "rotate h s = map Some ?f @ replicate d None @ Some ?x # map Some (drop (Suc r) xs) @ replicate k None"
    using s(3) d by (simp add: compacting_def drop)
  have at: "s ! ((h + r) mod ?n) = Some ?x"
  proof -
    have "s ! ((h + r) mod ?n) = rotate h s ! r" using lt s(2) by (simp add: nth_rotate)
    also have "\<dots> = Some ?x" unfolding view using d by (simp add: nth_append)
    finally show ?thesis .
  qed
  have upd: "rotate h (s[(h + i) mod ?n := v]) = (rotate h s)[i := v]" if "i < ?n" for i v
    using rotate_update [of i s h v] that s(2) by simp
  have eq: "(h + length ?f) mod ?n = (h + r) mod ?n \<longleftrightarrow> d = 0"
    using mod_add_inject [OF lt(2,1), of h] d by auto
  have clear: "(rotate h s)[r := None] = map Some ?f @ replicate d None @ None # map Some (drop (Suc r) xs) @ replicate k None"
    unfolding view using d by (simp add: list_update_append)
  show ?case
  proof (cases "keep ?x")
    case False
    then have "retain_step keep h (s, length ?f) r = (s[(h + r) mod ?n := None], length ?f)"
      using at s(2) by (simp add: retain_step_def Let_def)
    moreover have "compacting keep xs (Suc r) k = (rotate h s)[r := None]"
      using False d w by (simp add: compacting_def take clear Suc_diff_le replicate_app_Cons_same flip: replicate_Suc)
    ultimately show ?thesis using s upd [OF lt(1)] False by (simp add: take)
  next
    case True
    show ?thesis
    proof (cases "d = 0")
      case d0: True
      then have "retain_step keep h (s, length ?f) r = (s, Suc (length ?f))"
        using at s(2) True eq by (simp add: retain_step_def Let_def)
      moreover have "compacting keep xs (Suc r) k = rotate h s"
        using True d0 d by (simp add: compacting_def take view)
      ultimately show ?thesis using s True by (simp add: take)
    next
      case False
      let ?s = "s[(h + r) mod ?n := None, (h + length ?f) mod ?n := Some ?x]"
      obtain e where e: "d = Suc e" using False by (cases d) auto
      have "retain_step keep h (s, length ?f) r = (?s, Suc (length ?f))"
        using at s(2) True eq False by (simp add: retain_step_def Let_def)
      moreover have "rotate h ?s = ((rotate h s)[r := None])[length ?f := Some ?x]"
        using rotate_update [of "length ?f" "s[(h + r) mod ?n := None]" h "Some ?x"] upd [OF lt(1), of None] lt s(2)
        by simp
      moreover have "\<dots> = compacting keep xs (Suc r) k"
      proof -
        have "r - length ?f = Suc e" using d e by linarith
        then show ?thesis
          unfolding clear using True e by (simp add: compacting_def take list_update_append replicate_app_Cons_same)
      qed
      ultimately show ?thesis using s True by (simp add: take)
    qed
  qed
qed

lemma retain_repr:
  assumes r: "zs_repr z xs"
  shows "let (removed, z') = zs_retain z keep in zs_capacity z' = zs_capacity z
    \<and> removed = length xs - length (filter keep xs) \<and> zs_repr z' (filter keep xs)"
proof (cases "zs_capacity z = 0")
  case True
  then show ?thesis using r by (simp add: zs_retain_def zs_repr_def)
next
  case False
  let ?n = "zs_capacity z" and ?ys = "filter keep xs"
  have f: "zs_len z = length xs" "length xs \<le> ?n" "zs_head z < ?n"
    "rotate (zs_head z) (zs_slots z) = map Some xs @ replicate (?n - length xs) None"
    using r False by (auto simp: zs_repr_def)
  obtain slots where s: "foldl (retain_step keep (zs_head z)) (zs_slots z, 0) [0..<length xs] = (slots, length ?ys)"
    "length slots = ?n" "rotate (zs_head z) slots = compacting keep xs (length xs) (?n - length xs)"
    using retain_loop [OF f(4), of "length xs" keep] by (auto simp: zs_capacity_def)
  have "length xs - length ?ys + (?n - length xs) = ?n - length ?ys"
    using f(2) length_filter_le [of keep xs] by linarith
  then have "compacting keep xs (length xs) (?n - length xs) = map Some ?ys @ replicate (?n - length ?ys) None"
    by (simp add: compacting_def flip: replicate_add)
  moreover have "length ?ys \<le> ?n" using f(2) length_filter_le [of keep xs] by linarith
  ultimately show ?thesis using False f(1,3) s
    by (simp add: zs_retain_def zs_repr_def Let_def) (simp add: zs_capacity_def)
qed

text \<open>The counters balance as long as none has saturated.\<close>

definition zs_balanced :: "'m zombie_store \<Rightarrow> bool" where
  "zs_balanced z \<longleftrightarrow> unat (zs_inserted z) = unat (zs_evicted z) + unat (zs_reaped z) + zs_len z"

lemma retain_balanced:
  assumes "zs_repr z xs" "zs_balanced z" "unat (zs_inserted z) < 2 ^ 64 - 1"
  shows "zs_balanced (snd (zs_retain z keep))"
proof (cases "zs_capacity z = 0")
  case True
  then show ?thesis using assms(2) by (simp add: zs_retain_def)
next
  case False
  obtain removed z' where rz: "zs_retain z keep = (removed, z')" by fastforce
  have rem: "removed = length xs - length (filter keep xs)" and len: "zs_len z' = length (filter keep xs)"
    using retain_repr [OF assms(1), of keep] rz by (simp_all add: zs_repr_def)
  have fields: "zs_inserted z' = zs_inserted z" "zs_evicted z' = zs_evicted z"
    "zs_reaped z' = saturating_add (zs_reaped z) (of_nat removed)"
    using rz False by (auto simp: zs_retain_def Let_def split: prod.splits)
  have sum: "unat (zs_inserted z) = unat (zs_evicted z) + unat (zs_reaped z) + length xs"
    using assms(1,2) by (simp add: zs_balanced_def zs_repr_def)
  have small: "removed \<le> length xs" "length (filter keep xs) \<le> length xs" using rem by simp_all
  then have u: "unat (of_nat removed :: u64) = removed" using sum assms(3) by (simp add: unat_of_nat)
  have parts: "removed + length (filter keep xs) = length xs" using rem small by linarith
  then have "unat (saturating_add (zs_reaped z) (of_nat removed)) = unat (zs_reaped z) + removed"
    using sum assms(3) by (simp add: unat_saturating_add u)
  then show ?thesis using sum parts len by (simp add: rz zs_balanced_def fields)
qed

lemma live_length:
  assumes "zs_repr z xs" "zs_balanced z"
  shows "unat (zs_live z) = length xs"
proof -
  have sum: "unat (zs_inserted z) = unat (zs_evicted z) + unat (zs_reaped z) + length xs"
    using assms by (simp add: zs_balanced_def zs_repr_def)
  then have "zs_evicted z \<le> zs_inserted z" by (simp add: word_le_nat_alt)
  then have d: "unat (zs_inserted z - zs_evicted z) = unat (zs_reaped z) + length xs"
    using sum by (simp add: unat_sub_nowrap)
  then have "zs_reaped z \<le> zs_inserted z - zs_evicted z" by (simp add: word_le_nat_alt)
  then show ?thesis using d by (simp add: zs_live_def unat_sub_nowrap)
qed

text \<open>
  C20: the zombie store is a bounded first-in first-out queue. Inserting appends, and when the store is
  full evicts exactly the oldest record and returns it; reaping takes the oldest; retaining, which
  compacts the ring in place, keeps exactly the records selected, in order, and reports how many
  went. While the insertion counter has not saturated, the records inserted are those evicted, those
  reaped and those stored, so \<open>live\<close> is the length.
\<close>

theorem zombie_store_is_fifo:
  fixes z :: "'m zombie_store"
  assumes "zs_repr z xs" "zs_balanced z" "unat (zs_inserted z) < 2 ^ 64 - 1"
  shows "(let (out, z') = zs_insert z m in zs_balanced z' \<and>
      (if zs_capacity z = 0 then out = Evicted m \<and> zs_repr z' []
       else if length xs = zs_capacity z then out = Evicted (hd xs) \<and> zs_repr z' (tl xs @ [m])
       else out = Retained \<and> zs_repr z' (xs @ [m])))
    \<and> (let (out, z') = reap_oldest z in zs_balanced z' \<and>
      (case xs of [] \<Rightarrow> out = None \<and> z' = z | x # ys \<Rightarrow> out = Some x \<and> zs_repr z' ys))
    \<and> (let (removed, z') = zs_retain z keep in zs_balanced z' \<and>
      removed = length xs - length (filter keep xs) \<and> zs_repr z' (filter keep xs))
    \<and> zs_iter z = xs \<and> length xs \<le> zs_capacity z \<and> unat (zs_live z) = length xs
    \<and> zs_repr (zombie_store_new n :: 'm zombie_store) [] \<and> zs_balanced (zombie_store_new n :: 'm zombie_store)"
proof -
  have lens: "zs_len z = length xs" "length xs \<le> zs_capacity z" using assms(1) by (simp_all add: zs_repr_def)
  have sum: "unat (zs_inserted z) = unat (zs_evicted z) + unat (zs_reaped z) + length xs"
    using assms(2) lens by (simp add: zs_balanced_def)
  have old: "xs \<noteq> [] \<Longrightarrow> zs_slots z ! zs_head z = Some (hd xs)"
    using zs_repr_slot [OF assms(1), of 0] assms(1) lens by (cases xs) (auto simp: zs_repr_def)
  have ins: "zs_balanced (snd (zs_insert z m))"
  proof (cases "xs = []")
    case True
    then show ?thesis using sum assms(3) lens
      by (auto simp: zs_balanced_def zs_insert_def unat_saturating_add Let_def)
  next
    case False
    then show ?thesis using sum assms(3) lens old [OF False]
      by (auto simp: zs_balanced_def zs_insert_def unat_saturating_add Let_def)
  qed
  have reap: "zs_balanced (snd (reap_oldest z))"
    using sum assms(3) lens old assms(2) by (auto simp: zs_balanced_def reap_oldest_def unat_saturating_add Let_def)
  have ret: "zs_balanced (snd (zs_retain z keep))"
    using retain_balanced [OF assms] .
  have new: "zs_balanced (zombie_store_new n :: 'm zombie_store)"
    by (simp add: zs_balanced_def zombie_store_new_def)
  note all = insert_repr [OF assms(1), of m] reap_repr [OF assms(1)] retain_repr [OF assms(1), of keep]
  show ?thesis
    using all [unfolded Let_def case_prod_unfold] unfolding Let_def case_prod_unfold
    by (intro conjI ins reap ret new new_repr zs_iter_repr [OF assms(1)] lens live_length [OF assms(1,2)]) simp_all
qed

definition sample_store :: "nat zombie_store" where
  "sample_store = \<lparr>zs_slots = [Some 10, Some 20], zs_head = 0, zs_len = 2, zs_next_generation = 1,
     zs_inserted = 2, zs_evicted = 0, zs_reaped = 0\<rparr>"

theorem zombie_store_is_fifo_witness:
  "zs_repr sample_store [10, 20] \<and> fst (zs_insert sample_store 30) = Evicted 10
   \<and> zs_repr (snd (zs_insert sample_store 30)) [20, 30]"
proof -
  have r: "zs_repr sample_store [10, 20]" "zs_balanced sample_store" "unat (zs_inserted sample_store) < 2 ^ 64 - 1"
    by (simp_all add: sample_store_def zs_repr_def zs_capacity_def zs_balanced_def)
  have "zs_capacity sample_store = 2" by (simp add: sample_store_def zs_capacity_def)
  with zombie_store_is_fifo [OF r, of 30] r(1) show ?thesis by (simp add: Let_def case_prod_unfold)
qed

section \<open>Reference accounts\<close>

record ref_account =
  ra_handle_refs :: u64
  ra_kernel_refs :: u64
  ra_registered :: bool
  ra_collected :: bool

definition account_registered :: ref_account where
  "account_registered = \<lparr>ra_handle_refs = 0, ra_kernel_refs = 0, ra_registered = True, ra_collected = False\<rparr>"

definition account_unregistered :: ref_account where
  "account_unregistered = \<lparr>ra_handle_refs = 0, ra_kernel_refs = 0, ra_registered = False, ra_collected = False\<rparr>"

definition ra_is_registered :: "ref_account \<Rightarrow> bool" where
  "ra_is_registered a \<longleftrightarrow> ra_registered a \<and> \<not> ra_collected a"

definition may_collect :: "ref_account \<Rightarrow> bool" where
  "may_collect a \<longleftrightarrow> ra_registered a \<and> \<not> ra_collected a \<and> ra_handle_refs a = 0 \<and> ra_kernel_refs a = 0"

definition open_handles :: "ref_account \<Rightarrow> u64 \<Rightarrow> bool \<times> ref_account" where
  "open_handles a n =
     (if ra_collected a then (False, a) else (True, a\<lparr>ra_handle_refs := saturating_add (ra_handle_refs a) n\<rparr>))"

definition close_handles :: "ref_account \<Rightarrow> u64 \<Rightarrow> ref_account" where
  "close_handles a n = a\<lparr>ra_handle_refs := saturating_sub (ra_handle_refs a) n\<rparr>"

definition open_kernel_refs :: "ref_account \<Rightarrow> u64 \<Rightarrow> bool \<times> ref_account" where
  "open_kernel_refs a n =
     (if ra_collected a then (False, a) else (True, a\<lparr>ra_kernel_refs := saturating_add (ra_kernel_refs a) n\<rparr>))"

definition close_kernel_refs :: "ref_account \<Rightarrow> u64 \<Rightarrow> ref_account" where
  "close_kernel_refs a n = a\<lparr>ra_kernel_refs := saturating_sub (ra_kernel_refs a) n\<rparr>"

definition try_collect :: "ref_account \<Rightarrow> bool \<times> ref_account" where
  "try_collect a = (if may_collect a then (True, a\<lparr>ra_collected := True\<rparr>) else (False, a))"

inductive account_step :: "ref_account \<Rightarrow> ref_account \<Rightarrow> bool" where
  "account_step a (snd (open_handles a n))"
| "account_step a (close_handles a n)"
| "account_step a (snd (open_kernel_refs a n))"
| "account_step a (close_kernel_refs a n)"
| "account_step a (snd (try_collect a))"

definition account_start :: "ref_account \<Rightarrow> bool" where
  "account_start a \<longleftrightarrow> a = account_registered \<or> a = account_unregistered"

definition account_inv :: "ref_account \<Rightarrow> bool" where
  "account_inv a \<longleftrightarrow> (ra_collected a \<longrightarrow> ra_registered a \<and> ra_handle_refs a = 0 \<and> ra_kernel_refs a = 0)"

lemma account_step_inv: "account_step a b \<Longrightarrow> account_inv a \<Longrightarrow> account_inv b"
  by (induction rule: account_step.induct)
    (auto simp: account_inv_def open_handles_def close_handles_def open_kernel_refs_def close_kernel_refs_def
      try_collect_def may_collect_def saturating_sub_def)

interpretation accounts: invariant_machine account_start account_step account_inv
proof
  show "account_inv a" if "account_start a" for a
    using that by (auto simp: account_start_def account_inv_def account_registered_def account_unregistered_def)
  show "account_inv b" if "account_inv a" "account_step a b" for a b
    by (rule account_step_inv [OF that(2,1)])
qed

text \<open>A collected object has no references and takes no new ones: collection is final.\<close>

lemma collected_is_final:
  assumes "account_start a0" "account_step\<^sup>*\<^sup>* a0 a" "ra_collected a"
  shows "ra_handle_refs a = 0 \<and> ra_kernel_refs a = 0 \<and> \<not> fst (open_handles a n) \<and> \<not> fst (open_kernel_refs a n)
    \<and> \<not> fst (try_collect a)"
  using accounts.reachable_inv [OF assms(1,2)] assms(3)
  by (simp add: account_inv_def open_handles_def open_kernel_refs_def try_collect_def may_collect_def)

end
