(* ===== verification/Quota_Tree.thy ===== *)
theory Quota_Tree
  imports Rust_Prelude
begin

text \<open>
  Resource quotas (\<open>huesos-quota/src/lib.rs\<close>): the quota of one owner and the tree of quotas of the
  job hierarchy, in which an acquisition is checked against every ancestor. The recursion over a
  subtree and the walk to the root take fuel; in a tree built by the operations, children have
  larger indices than their parents, so the number of nodes is enough and neither runs out. The
  main lemmas are that an acquisition succeeds exactly when no ancestor would exceed its limit, and
  that limits hold unless one was set below the use it covers.
\<close>

section \<open>Limits and usage\<close>

definition UNLIMITED :: u64 where
  "UNLIMITED = - 1"

datatype resource = Memory | Handles | CpuTicks

record limits =
  lm_max_memory :: u64
  lm_max_handles :: u64
  lm_max_cpu_ticks :: u64

definition limits_unlimited :: limits where
  "limits_unlimited = \<lparr>lm_max_memory = UNLIMITED, lm_max_handles = UNLIMITED, lm_max_cpu_ticks = UNLIMITED\<rparr>"

definition limit_for :: "limits \<Rightarrow> resource \<Rightarrow> u64" where
  "limit_for l res = (case res of Memory \<Rightarrow> lm_max_memory l | Handles \<Rightarrow> lm_max_handles l | CpuTicks \<Rightarrow> lm_max_cpu_ticks l)"

record usage =
  us_memory :: u64
  us_handles :: u64
  us_cpu_ticks :: u64

definition usage_default :: usage where
  "usage_default = \<lparr>us_memory = 0, us_handles = 0, us_cpu_ticks = 0\<rparr>"

definition usage_for :: "usage \<Rightarrow> resource \<Rightarrow> u64" where
  "usage_for u res = (case res of Memory \<Rightarrow> us_memory u | Handles \<Rightarrow> us_handles u | CpuTicks \<Rightarrow> us_cpu_ticks u)"

definition slot_mut :: "usage \<Rightarrow> resource \<Rightarrow> (u64 \<Rightarrow> u64) \<Rightarrow> usage" where
  "slot_mut u res f =
     (case res of
        Memory \<Rightarrow> u\<lparr>us_memory := f (us_memory u)\<rparr>
      | Handles \<Rightarrow> u\<lparr>us_handles := f (us_handles u)\<rparr>
      | CpuTicks \<Rightarrow> u\<lparr>us_cpu_ticks := f (us_cpu_ticks u)\<rparr>)"

definition usage_add :: "usage \<Rightarrow> resource \<Rightarrow> u64 \<Rightarrow> usage" where
  "usage_add u res amount = slot_mut u res (\<lambda>slot. saturating_add slot amount)"

definition usage_sub :: "usage \<Rightarrow> resource \<Rightarrow> u64 \<Rightarrow> usage" where
  "usage_sub u res amount = slot_mut u res (\<lambda>slot. saturating_sub slot amount)"

definition add_usage :: "usage \<Rightarrow> usage \<Rightarrow> usage" where
  "add_usage u other = \<lparr>us_memory = saturating_add (us_memory u) (us_memory other),
     us_handles = saturating_add (us_handles u) (us_handles other),
     us_cpu_ticks = saturating_add (us_cpu_ticks u) (us_cpu_ticks other)\<rparr>"

section \<open>A single quota\<close>

record quota =
  qu_limits :: limits
  qu_used :: usage

definition quota_new :: "limits \<Rightarrow> quota" where
  "quota_new l = \<lparr>qu_limits = l, qu_used = usage_default\<rparr>"

definition quota_remaining :: "quota \<Rightarrow> resource \<Rightarrow> u64" where
  "quota_remaining q res =
     (let limit = limit_for (qu_limits q) res in
      if limit = UNLIMITED then UNLIMITED else saturating_sub limit (usage_for (qu_used q) res))"

definition quota_fits :: "quota \<Rightarrow> resource \<Rightarrow> u64 \<Rightarrow> bool" where
  "quota_fits q res amount \<longleftrightarrow>
     (let limit = limit_for (qu_limits q) res in
      limit = UNLIMITED \<or> saturating_add (usage_for (qu_used q) res) amount \<le> limit)"

definition quota_try_acquire :: "quota \<Rightarrow> resource \<Rightarrow> u64 \<Rightarrow> bool \<times> quota" where
  "quota_try_acquire q res amount =
     (if quota_fits q res amount then (True, q\<lparr>qu_used := usage_add (qu_used q) res amount\<rparr>) else (False, q))"

definition quota_release :: "quota \<Rightarrow> resource \<Rightarrow> u64 \<Rightarrow> quota" where
  "quota_release q res amount = q\<lparr>qu_used := usage_sub (qu_used q) res amount\<rparr>"

definition within_limits :: "quota \<Rightarrow> bool" where
  "within_limits q \<longleftrightarrow> quota_fits q Memory 0 \<and> quota_fits q Handles 0 \<and> quota_fits q CpuTicks 0"

section \<open>The tree\<close>

record node_id =
  ni_index :: nat
  ni_tree_id :: u64

datatype quota_tree_error = InvalidNode

record node =
  nd_parent :: "nat option"
  nd_children :: "nat list"
  nd_limits :: limits
  nd_used :: usage
  nd_active :: bool

record quota_tree =
  qt_nodes :: "node list"
  qt_tree_id :: u64

definition quota_tree_new :: "u64 \<Rightarrow> quota_tree" where
  "quota_tree_new next_tree_id = \<lparr>qt_nodes = [], qt_tree_id = max next_tree_id 1\<rparr>"

definition fresh_node :: "nat option \<Rightarrow> limits \<Rightarrow> node" where
  "fresh_node parent l =
     \<lparr>nd_parent = parent, nd_children = [], nd_limits = l, nd_used = usage_default, nd_active = True\<rparr>"

definition add_root :: "quota_tree \<Rightarrow> limits \<Rightarrow> node_id \<times> quota_tree" where
  "add_root t l =
     (\<lparr>ni_index = length (qt_nodes t), ni_tree_id = qt_tree_id t\<rparr>,
      t\<lparr>qt_nodes := qt_nodes t @ [fresh_node None l]\<rparr>)"

definition index_of :: "quota_tree \<Rightarrow> node_id \<Rightarrow> quota_tree_error + nat" where
  "index_of t nid =
     (if ni_tree_id nid \<noteq> qt_tree_id t \<or> length (qt_nodes t) \<le> ni_index nid then Inl InvalidNode
      else if \<not> nd_active (qt_nodes t ! ni_index nid) then Inl InvalidNode
      else Inr (ni_index nid))"

definition update_node :: "quota_tree \<Rightarrow> nat \<Rightarrow> (node \<Rightarrow> node) \<Rightarrow> quota_tree" where
  "update_node t i f = t\<lparr>qt_nodes := (qt_nodes t)[i := f (qt_nodes t ! i)]\<rparr>"

definition add_child :: "quota_tree \<Rightarrow> node_id \<Rightarrow> limits \<Rightarrow> (quota_tree_error + node_id) \<times> quota_tree" where
  "add_child t parent l =
     (case index_of t parent of
        Inl e \<Rightarrow> (Inl e, t)
      | Inr parent_index \<Rightarrow>
          let i = length (qt_nodes t);
              t' = t\<lparr>qt_nodes := qt_nodes t @ [fresh_node (Some parent_index) l]\<rparr> in
          (Inr \<lparr>ni_index = i, ni_tree_id = qt_tree_id t\<rparr>,
           update_node t' parent_index (\<lambda>n. n\<lparr>nd_children := nd_children n @ [i]\<rparr>)))"

definition remove_leaf :: "quota_tree \<Rightarrow> node_id \<Rightarrow> (quota_tree_error + unit) \<times> quota_tree" where
  "remove_leaf t nid =
     (case index_of t nid of
        Inl e \<Rightarrow> (Inl e, t)
      | Inr index \<Rightarrow>
          let n = qt_nodes t ! index in
          if nd_parent n = None \<or> nd_children n \<noteq> [] \<or> nd_used n \<noteq> usage_default then (Inl InvalidNode, t)
          else
            let t' = (case nd_parent n of
                Some parent \<Rightarrow> update_node t parent (\<lambda>p. p\<lparr>nd_children := filter (\<lambda>child. child \<noteq> index) (nd_children p)\<rparr>)
              | None \<Rightarrow> t) in
            (Inr (), update_node t' index (\<lambda>n. n\<lparr>nd_active := False, nd_parent := None, nd_limits := limits_unlimited\<rparr>)))"

fun subtree_usage_index :: "nat \<Rightarrow> node list \<Rightarrow> nat \<Rightarrow> usage option" where
  "subtree_usage_index 0 nodes index = None"
| "subtree_usage_index (Suc fuel) nodes index =
     foldl (\<lambda>acc child. case acc of
          None \<Rightarrow> None
        | Some subtotal \<Rightarrow> map_option (add_usage subtotal) (subtree_usage_index fuel nodes child))
       (Some (nd_used (nodes ! index))) (nd_children (nodes ! index))"

definition subtree_usage :: "quota_tree \<Rightarrow> node_id \<Rightarrow> quota_tree_error + usage option" where
  "subtree_usage t nid =
     (case index_of t nid of
        Inl e \<Rightarrow> Inl e
      | Inr index \<Rightarrow> Inr (subtree_usage_index (length (qt_nodes t)) (qt_nodes t) index))"

text \<open>The walk from a node to its root: \<open>None\<close> when the fuel runs out.\<close>

fun ancestors_allow :: "nat \<Rightarrow> node list \<Rightarrow> resource \<Rightarrow> u64 \<Rightarrow> nat option \<Rightarrow> bool option" where
  "ancestors_allow fuel nodes res amount None = Some True"
| "ancestors_allow 0 nodes res amount (Some idx) = None"
| "ancestors_allow (Suc fuel) nodes res amount (Some idx) =
     (case subtree_usage_index (length nodes) nodes idx of
        None \<Rightarrow> None
      | Some sub \<Rightarrow>
          let limit = limit_for (nd_limits (nodes ! idx)) res; subtree = usage_for sub res in
          if limit \<noteq> UNLIMITED \<and> limit < saturating_add subtree amount then Some False
          else ancestors_allow fuel nodes res amount (nd_parent (nodes ! idx)))"

definition tree_try_acquire :: "quota_tree \<Rightarrow> node_id \<Rightarrow> resource \<Rightarrow> u64 \<Rightarrow> bool option \<times> quota_tree" where
  "tree_try_acquire t nid res amount =
     (case index_of t nid of
        Inl _ \<Rightarrow> (Some False, t)
      | Inr index \<Rightarrow>
          (case ancestors_allow (length (qt_nodes t)) (qt_nodes t) res amount (Some index) of
             Some True \<Rightarrow> (Some True, update_node t index (\<lambda>n. n\<lparr>nd_used := usage_add (nd_used n) res amount\<rparr>))
           | r \<Rightarrow> (r, t)))"

definition tree_release :: "quota_tree \<Rightarrow> node_id \<Rightarrow> resource \<Rightarrow> u64 \<Rightarrow> bool \<times> quota_tree" where
  "tree_release t nid res amount =
     (case index_of t nid of
        Inl _ \<Rightarrow> (False, t)
      | Inr index \<Rightarrow> (True, update_node t index (\<lambda>n. n\<lparr>nd_used := usage_sub (nd_used n) res amount\<rparr>)))"

definition tree_set_limits :: "quota_tree \<Rightarrow> node_id \<Rightarrow> limits \<Rightarrow> bool \<times> quota_tree" where
  "tree_set_limits t nid l =
     (case index_of t nid of
        Inl _ \<Rightarrow> (False, t)
      | Inr index \<Rightarrow> (True, update_node t index (\<lambda>n. n\<lparr>nd_limits := l\<rparr>)))"

section \<open>Well-formed trees\<close>

definition tree_wf :: "node list \<Rightarrow> bool" where
  "tree_wf ns \<longleftrightarrow> (\<forall>i < length ns. distinct (nd_children (ns ! i))
     \<and> (\<forall>c\<in>set (nd_children (ns ! i)). i < c \<and> c < length ns \<and> nd_parent (ns ! c) = Some i)
     \<and> (\<forall>p. nd_parent (ns ! i) = Some p \<longrightarrow> p < i \<and> i \<in> set (nd_children (ns ! p))))"

lemma tree_wfD:
  assumes "tree_wf ns" "i < length ns"
  shows "distinct (nd_children (ns ! i))"
    "c \<in> set (nd_children (ns ! i)) \<Longrightarrow> i < c \<and> c < length ns \<and> nd_parent (ns ! c) = Some i"
    "nd_parent (ns ! i) = Some p \<Longrightarrow> p < i \<and> i \<in> set (nd_children (ns ! p))"
  using assms unfolding tree_wf_def by blast+

text \<open>The exact usage of a subtree, as a natural number.\<close>

function subtree_sum :: "node list \<Rightarrow> resource \<Rightarrow> nat \<Rightarrow> nat" where
  "subtree_sum ns res i =
     (if i < length ns \<and> tree_wf ns
      then unat (usage_for (nd_used (ns ! i)) res) + (\<Sum>c\<leftarrow>nd_children (ns ! i). subtree_sum ns res c)
      else 0)"
  by pat_completeness auto
termination
  by (relation "measure (\<lambda>(ns, res, i). length ns - i)") (auto dest: tree_wfD(2) intro: diff_less_mono2)

declare subtree_sum.simps [simp del]

lemma subtree_sum_node:
  "tree_wf ns \<Longrightarrow> i < length ns \<Longrightarrow> subtree_sum ns res i =
     unat (usage_for (nd_used (ns ! i)) res) + (\<Sum>c\<leftarrow>nd_children (ns ! i). subtree_sum ns res c)"
  by (subst subtree_sum.simps) simp

lemma usage_for_add_usage: "usage_for (add_usage u v) res = saturating_add (usage_for u res) (usage_for v res)"
  by (cases res) (simp_all add: usage_for_def add_usage_def)

lemma usage_for_slot: "usage_for (slot_mut u res f) r = (if r = res then f (usage_for u r) else usage_for u r)"
  by (cases res; cases r) (simp_all add: usage_for_def slot_mut_def)

abbreviation (input) MAXU :: nat where
  "MAXU \<equiv> 2 ^ 64 - 1"

lemma fold_children:
  assumes "\<forall>c\<in>set cs. \<exists>v. g c = Some v \<and> (\<forall>res. unat (usage_for v res) = min MAXU (S res c))"
    "\<forall>res. unat (usage_for u res) = min MAXU (A res)"
  shows "\<exists>w. foldl (\<lambda>acc c. case acc of None \<Rightarrow> None | Some t \<Rightarrow> map_option (add_usage t) (g c)) (Some u) cs = Some w
    \<and> (\<forall>res. unat (usage_for w res) = min MAXU (A res + (\<Sum>c\<leftarrow>cs. S res c)))"
  using assms
proof (induction cs arbitrary: u A)
  case (Cons c cs)
  then obtain v where v: "g c = Some v" "\<forall>res. unat (usage_for v res) = min MAXU (S res c)" by auto
  have "\<forall>res. unat (usage_for (add_usage u v) res) = min MAXU (A res + S res c)"
    using v(2) Cons.prems(2) by (simp add: usage_for_add_usage unat_saturating_add min_def)
  then show ?case using Cons.IH [of "add_usage u v" "\<lambda>res. A res + S res c"] Cons.prems(1) v(1)
    by (simp add: add.assoc)
qed simp

lemma subtree_usage_ok:
  assumes "tree_wf ns" "i < length ns" "length ns - i \<le> fuel"
  shows "\<exists>u. subtree_usage_index fuel ns i = Some u \<and> (\<forall>res. unat (usage_for u res) = min MAXU (subtree_sum ns res i))"
  using assms(2,3)
proof (induction fuel arbitrary: i)
  case (Suc fuel)
  have base: "\<forall>res. unat (usage_for (nd_used (ns ! i)) res) = min MAXU (unat (usage_for (nd_used (ns ! i)) res))"
  proof
    fix res show "unat (usage_for (nd_used (ns ! i)) res) = min MAXU (unat (usage_for (nd_used (ns ! i)) res))"
      using unat_lt_pow [of "usage_for (nd_used (ns ! i)) res"] by simp
  qed
  have "\<exists>u. subtree_usage_index fuel ns c = Some u \<and> (\<forall>res. unat (usage_for u res) = min MAXU (subtree_sum ns res c))"
    if c: "c \<in> set (nd_children (ns ! i))" for c
    using tree_wfD(2) [OF assms(1) Suc.prems(1) c] Suc.prems by (intro Suc.IH) auto
  then show ?case
    using fold_children [OF _ base, where cs = "nd_children (ns ! i)" and g = "subtree_usage_index fuel ns"
        and S = "\<lambda>res. subtree_sum ns res"]
    by (simp add: subtree_sum_node [OF assms(1) Suc.prems(1)])
qed simp

section \<open>Ancestors\<close>

inductive is_anc :: "node list \<Rightarrow> nat \<Rightarrow> nat \<Rightarrow> bool" for ns :: "node list" where
  here: "is_anc ns k k"
| up: "nd_parent (ns ! k) = Some p \<Longrightarrow> is_anc ns i p \<Longrightarrow> is_anc ns i k"

lemma is_anc_le: "is_anc ns i k \<Longrightarrow> tree_wf ns \<Longrightarrow> k < length ns \<Longrightarrow> i \<le> k"
proof (induction rule: is_anc.induct)
  case (up k p i)
  then have "p < k" using tree_wfD(3) by blast
  then show ?case using up by simp
qed simp

lemma is_anc_child: "is_anc ns c k \<Longrightarrow> nd_parent (ns ! c) = Some i \<Longrightarrow> is_anc ns i k"
  by (induction rule: is_anc.induct) (auto intro: is_anc.intros)

lemma is_anc_path:
  "is_anc ns i k \<Longrightarrow> tree_wf ns \<Longrightarrow> k < length ns \<Longrightarrow> i \<noteq> k \<Longrightarrow>
     \<exists>c\<in>set (nd_children (ns ! i)). is_anc ns c k"
proof (induction rule: is_anc.induct)
  case (up k p i)
  have p: "p < k" "k \<in> set (nd_children (ns ! p))" using tree_wfD(3) [OF up.prems(1,2) up.hyps(1)] by simp_all
  show ?case
  proof (cases "i = p")
    case True
    then show ?thesis using p(2) is_anc.here by blast
  next
    case False
    then show ?thesis using up.IH [OF up.prems(1)] p(1) up.prems(2) up.hyps(1) is_anc.up by (meson less_trans)
  qed
qed simp

lemma is_anc_linear: "is_anc ns a k \<Longrightarrow> is_anc ns b k \<Longrightarrow> is_anc ns a b \<or> is_anc ns b a"
proof (induction arbitrary: b rule: is_anc.induct)
  case (up k p i)
  from up.prems show ?case
  proof cases
    case here
    then show ?thesis using up.hyps is_anc.up by blast
  next
    case (up p')
    then show ?thesis using up.IH \<open>nd_parent (ns ! k) = Some p\<close> by (simp add: up.IH)
  qed
qed simp

lemma is_anc_unique_child:
  assumes wf: "tree_wf ns" and i: "i < length ns" and c: "c \<in> set (nd_children (ns ! i))" "is_anc ns c k"
    and d: "d \<in> set (nd_children (ns ! i))" "is_anc ns d k"
  shows "c = d"
proof (rule ccontr)
  assume ne: "c \<noteq> d"
  have cd: "i < c" "nd_parent (ns ! c) = Some i" "i < d" "nd_parent (ns ! d) = Some i"
    using tree_wfD(2) [OF wf i c(1)] tree_wfD(2) [OF wf i d(1)] by simp_all
  have above: False if "is_anc ns x y" "x \<noteq> y" "nd_parent (ns ! y) = Some i" "i < x" for x y
  proof -
    from that(1,2) have "is_anc ns x i" by cases (use that(3) in simp_all)
    then show False using is_anc_le [OF _ wf i] that(4) by fastforce
  qed
  from is_anc_linear [OF c(2) d(2)] show False using above ne cd by metis
qed

section \<open>Changing one node's usage\<close>

definition same_shape :: "node list \<Rightarrow> node list \<Rightarrow> bool" where
  "same_shape ns ns' \<longleftrightarrow> length ns' = length ns
     \<and> (\<forall>i < length ns. nd_children (ns' ! i) = nd_children (ns ! i) \<and> nd_parent (ns' ! i) = nd_parent (ns ! i))"

lemma same_shape_wf: "same_shape ns ns' \<Longrightarrow> tree_wf ns \<Longrightarrow> tree_wf ns'"
  unfolding same_shape_def tree_wf_def by (metis less_trans)

lemma sum_list_one_changes:
  assumes "distinct cs" "c0 \<in> set cs" "f' c0 + x = f c0 + (y :: nat)" "\<And>c. c \<in> set cs \<Longrightarrow> c \<noteq> c0 \<Longrightarrow> f' c = f c"
  shows "(\<Sum>c\<leftarrow>cs. f' c) + x = (\<Sum>c\<leftarrow>cs. f c) + y"
  using assms
proof (induction cs)
  case (Cons c cs)
  show ?case
  proof (cases "c = c0")
    case True
    then have "map f' cs = map f cs" using Cons.prems(1,4) by auto
    then have "(\<Sum>c\<leftarrow>cs. f' c) = (\<Sum>c\<leftarrow>cs. f c)" by (simp only:)
    then show ?thesis using True Cons.prems(3) by simp
  next
    case False
    then have "(\<Sum>c\<leftarrow>cs. f' c) + x = (\<Sum>c\<leftarrow>cs. f c) + y" using Cons.prems by (intro Cons.IH) auto
    then show ?thesis using Cons.prems(4) [of c] False by simp
  qed
qed simp

lemma subtree_sum_update:
  assumes wf: "tree_wf ns" and shape: "same_shape ns ns'" and k: "k < length ns"
    and others: "\<And>i. i < length ns \<Longrightarrow> i \<noteq> k \<Longrightarrow> usage_for (nd_used (ns' ! i)) res = usage_for (nd_used (ns ! i)) res"
    and i: "i < length ns"
  shows "subtree_sum ns' res i + (if is_anc ns i k then unat (usage_for (nd_used (ns ! k)) res) else 0)
    = subtree_sum ns res i + (if is_anc ns i k then unat (usage_for (nd_used (ns' ! k)) res) else 0)"
  using i
proof (induction "length ns - i" arbitrary: i rule: less_induct)
  case less
  let ?x = "unat (usage_for (nd_used (ns ! k)) res)" and ?y = "unat (usage_for (nd_used (ns' ! k)) res)"
  let ?cs = "nd_children (ns ! i)"
  have wf': "tree_wf ns'" by (rule same_shape_wf [OF shape wf])
  have s: "subtree_sum ns res i = unat (usage_for (nd_used (ns ! i)) res) + (\<Sum>c\<leftarrow>?cs. subtree_sum ns res c)"
    "subtree_sum ns' res i = unat (usage_for (nd_used (ns' ! i)) res) + (\<Sum>c\<leftarrow>?cs. subtree_sum ns' res c)"
    using subtree_sum_node [OF wf less.prems] subtree_sum_node [OF wf', of i res] shape less.prems
    by (simp_all add: same_shape_def)
  have child: "i < c \<and> c < length ns \<and> nd_parent (ns ! c) = Some i" if "c \<in> set ?cs" for c
    by (rule tree_wfD(2) [OF wf less.prems that])
  have IH: "subtree_sum ns' res c + (if is_anc ns c k then ?x else 0)
      = subtree_sum ns res c + (if is_anc ns c k then ?y else 0)" if "c \<in> set ?cs" for c
    using child [OF that] less.prems by (intro less.hyps) auto
  have calm: "(\<Sum>c\<leftarrow>?cs. subtree_sum ns' res c) = (\<Sum>c\<leftarrow>?cs. subtree_sum ns res c)"
    if none: "\<And>c. c \<in> set ?cs \<Longrightarrow> \<not> is_anc ns c k"
  proof -
    have "map (subtree_sum ns' res) ?cs = map (subtree_sum ns res) ?cs" using IH none by simp
    then show ?thesis by (simp only:)
  qed
  consider (self) "i = k" | (above) "i \<noteq> k" "is_anc ns i k" | (apart) "\<not> is_anc ns i k" by blast
  then show ?case
  proof cases
    case self
    have "\<not> is_anc ns c k" if "c \<in> set ?cs" for c
      using is_anc_le [OF _ wf k] child [OF that] self by fastforce
    then show ?thesis using s calm self is_anc.here by simp
  next
    case above
    obtain c0 where c0: "c0 \<in> set ?cs" "is_anc ns c0 k" using is_anc_path [OF above(2) wf k above(1)] by blast
    have "subtree_sum ns' res c = subtree_sum ns res c" if c: "c \<in> set ?cs" "c \<noteq> c0" for c
    proof -
      have "\<not> is_anc ns c k" using is_anc_unique_child [OF wf less.prems c(1) _ c0] c(2) by blast
      then show ?thesis using IH [OF c(1)] by simp
    qed
    then have "(\<Sum>c\<leftarrow>?cs. subtree_sum ns' res c) + ?x = (\<Sum>c\<leftarrow>?cs. subtree_sum ns res c) + ?y"
      using IH [OF c0(1)] c0 tree_wfD(1) [OF wf less.prems] by (intro sum_list_one_changes [of _ c0]) auto
    then show ?thesis using s others [OF less.prems above(1)] above by simp
  next
    case apart
    have "\<not> is_anc ns c k" if "c \<in> set ?cs" for c using apart is_anc_child child [OF that] by blast
    moreover have "i \<noteq> k" using apart is_anc.here by blast
    ultimately show ?thesis using s calm others [OF less.prems] apart by simp
  qed
qed

section \<open>The limits hold\<close>

definition limits_hold :: "node list \<Rightarrow> bool" where
  "limits_hold ns \<longleftrightarrow> (\<forall>i < length ns. \<forall>res. limit_for (nd_limits (ns ! i)) res \<noteq> UNLIMITED \<longrightarrow>
     subtree_sum ns res i \<le> unat (limit_for (nd_limits (ns ! i)) res))"

definition room_above :: "node list \<Rightarrow> resource \<Rightarrow> nat \<Rightarrow> nat \<Rightarrow> bool" where
  "room_above ns res amount k \<longleftrightarrow> (\<forall>i. is_anc ns i k \<longrightarrow> limit_for (nd_limits (ns ! i)) res \<noteq> UNLIMITED \<longrightarrow>
     subtree_sum ns res i + amount \<le> unat (limit_for (nd_limits (ns ! i)) res))"

lemma limit_lt_max: "limit \<noteq> UNLIMITED \<Longrightarrow> unat limit < MAXU"
proof -
  assume "limit \<noteq> UNLIMITED"
  then have "unat limit \<noteq> unat (- 1 :: u64)" by (simp add: UNLIMITED_def word_unat_eq_iff)
  moreover have "unat (- 1 :: u64) = MAXU" by (simp add: unat_minus_one_word_nat)
  ultimately show ?thesis using unat_lt_pow [of limit] by simp
qed

lemma ancestors_allow_ok:
  assumes wf: "tree_wf ns"
  shows "k < length ns \<Longrightarrow> k < fuel \<Longrightarrow>
    ancestors_allow fuel ns res amount (Some k) = Some (room_above ns res (unat amount) k)"
proof (induction fuel arbitrary: k)
  case (Suc fuel)
  obtain u where u: "subtree_usage_index (length ns) ns k = Some u"
    "unat (usage_for u res) = min MAXU (subtree_sum ns res k)"
    using subtree_usage_ok [OF wf Suc.prems(1), of "length ns"] by auto
  let ?lim = "limit_for (nd_limits (ns ! k)) res"
  have here: "(?lim \<noteq> UNLIMITED \<and> ?lim < saturating_add (usage_for u res) amount) \<longleftrightarrow>
      \<not> (?lim \<noteq> UNLIMITED \<longrightarrow> subtree_sum ns res k + unat amount \<le> unat ?lim)"
  proof (cases "?lim = UNLIMITED")
    case False
    then have "unat ?lim < MAXU" by (rule limit_lt_max)
    then show ?thesis using False u(2) by (auto simp: word_less_nat_alt unat_saturating_add)
  qed simp
  have rest: "ancestors_allow fuel ns res amount (nd_parent (ns ! k)) =
      Some (\<forall>p. nd_parent (ns ! k) = Some p \<longrightarrow> room_above ns res (unat amount) p)"
  proof (cases "nd_parent (ns ! k)")
    case (Some p)
    then have "p < k" using tree_wfD(3) [OF wf Suc.prems(1)] by blast
    then show ?thesis using Suc.IH [of p] Suc.prems Some by simp
  qed (simp add: ancestors_allow.simps(1))
  have split: "room_above ns res (unat amount) k \<longleftrightarrow>
      (?lim \<noteq> UNLIMITED \<longrightarrow> subtree_sum ns res k + unat amount \<le> unat ?lim)
      \<and> (\<forall>p. nd_parent (ns ! k) = Some p \<longrightarrow> room_above ns res (unat amount) p)"
    unfolding room_above_def by (auto intro: is_anc.intros elim: is_anc.cases)
  show ?case using u(1) here rest by (auto simp: split Let_def)
qed simp

lemma used_update_shape:
  "k < length ns \<Longrightarrow> same_shape ns (ns[k := (ns ! k)\<lparr>nd_used := u\<rparr>])"
  by (simp add: same_shape_def nth_list_update)

lemma used_update_sum:
  assumes wf: "tree_wf ns" and k: "k < length ns" and i: "i < length ns"
  shows "subtree_sum (ns[k := (ns ! k)\<lparr>nd_used := u\<rparr>]) res i
      + (if is_anc ns i k then unat (usage_for (nd_used (ns ! k)) res) else 0)
    = subtree_sum ns res i + (if is_anc ns i k then unat (usage_for u res) else 0)"
  using subtree_sum_update [OF wf used_update_shape [OF k] k _ i, of u res] k by (simp add: nth_list_update)

text \<open>The nodes form a tree; and, as long as no limit was set below the use it covers, the limits hold.\<close>

definition quota_inv :: "bool \<Rightarrow> quota_tree \<Rightarrow> bool" where
  "quota_inv kept t \<longleftrightarrow> tree_wf (qt_nodes t) \<and> (kept \<longrightarrow> limits_hold (qt_nodes t))"

lemma used_change_keeps:
  assumes inv: "quota_inv kept t" and k: "k < length (qt_nodes t)"
    and ok: "\<And>i res. kept \<Longrightarrow> i < length (qt_nodes t) \<Longrightarrow> is_anc (qt_nodes t) i k \<Longrightarrow>
      limit_for (nd_limits (qt_nodes t ! i)) res \<noteq> UNLIMITED \<Longrightarrow>
      subtree_sum (qt_nodes t) res i + unat (usage_for (f (nd_used (qt_nodes t ! k))) res)
        \<le> unat (limit_for (nd_limits (qt_nodes t ! i)) res) + unat (usage_for (nd_used (qt_nodes t ! k)) res)"
  shows "quota_inv kept (update_node t k (\<lambda>n. n\<lparr>nd_used := f (nd_used n)\<rparr>))"
proof -
  let ?ns = "qt_nodes t"
  let ?ns' = "?ns[k := (?ns ! k)\<lparr>nd_used := f (nd_used (?ns ! k))\<rparr>]"
  have wf: "tree_wf ?ns" using inv by (simp add: quota_inv_def)
  have "subtree_sum ?ns' res i \<le> unat (limit_for (nd_limits (?ns' ! i)) res)"
    if kept: kept and i: "i < length ?ns" and lim: "limit_for (nd_limits (?ns' ! i)) res \<noteq> UNLIMITED" for i res
  proof -
    have l: "nd_limits (?ns' ! i) = nd_limits (?ns ! i)" using i k by (simp add: nth_list_update)
    have "subtree_sum ?ns res i \<le> unat (limit_for (nd_limits (?ns ! i)) res)"
      using inv i lim kept by (simp add: quota_inv_def limits_hold_def l)
    moreover have lim': "limit_for (nd_limits (?ns ! i)) res \<noteq> UNLIMITED" using lim by (simp add: l)
    ultimately show ?thesis
      using used_update_sum [OF wf k i, of "f (nd_used (?ns ! k))" res] ok [OF kept i _ lim']
      by (cases "is_anc ?ns i k") (simp_all add: l)
  qed
  then show ?thesis
    using same_shape_wf [OF used_update_shape [OF k] wf]
    by (simp add: quota_inv_def limits_hold_def update_node_def)
qed

lemma index_of_ok: "index_of t nid = Inr k \<Longrightarrow> k < length (qt_nodes t) \<and> nd_active (qt_nodes t ! k)"
  by (auto simp: index_of_def split: if_splits)

lemma tree_acquire_inv:
  assumes inv: "quota_inv kept t"
  shows "\<exists>b t'. tree_try_acquire t nid res amount = (Some b, t') \<and> quota_inv kept t'
    \<and> (b \<longleftrightarrow> (\<exists>k. index_of t nid = Inr k \<and> room_above (qt_nodes t) res (unat amount) k))
    \<and> (\<not> b \<longrightarrow> t' = t)"
proof (cases "index_of t nid")
  case (Inl e)
  then show ?thesis using inv by (intro exI [of _ False] exI [of _ t]) (simp add: tree_try_acquire_def)
next
  case (Inr k)
  let ?ns = "qt_nodes t"
  have k: "k < length ?ns" using index_of_ok [OF Inr] by simp
  have wf: "tree_wf ?ns" using inv by (simp add: quota_inv_def)
  note allow = ancestors_allow_ok [OF wf k k, of res amount]
  have "quota_inv kept (update_node t k (\<lambda>n. n\<lparr>nd_used := usage_add (nd_used n) res amount\<rparr>))"
    if room: "room_above ?ns res (unat amount) k"
  proof (rule used_change_keeps [OF inv k])
    fix i r assume kept: kept and i: "i < length ?ns" "is_anc ?ns i k" "limit_for (nd_limits (?ns ! i)) r \<noteq> UNLIMITED"
    have old: "subtree_sum ?ns r i \<le> unat (limit_for (nd_limits (?ns ! i)) r)"
      using inv i kept by (simp add: quota_inv_def limits_hold_def)
    show "subtree_sum ?ns r i + unat (usage_for (usage_add (nd_used (?ns ! k)) res amount) r)
        \<le> unat (limit_for (nd_limits (?ns ! i)) r) + unat (usage_for (nd_used (?ns ! k)) r)"
    proof (cases "r = res")
      case True
      then have "subtree_sum ?ns r i + unat amount \<le> unat (limit_for (nd_limits (?ns ! i)) r)"
        using room i by (simp add: room_above_def)
      then show ?thesis using True by (simp add: usage_add_def usage_for_slot unat_saturating_add)
    next
      case False
      then show ?thesis using old by (simp add: usage_add_def usage_for_slot)
    qed
  qed
  then show ?thesis using inv allow Inr by (auto simp: tree_try_acquire_def split: bool.splits)
qed

lemma tree_release_inv:
  assumes inv: "quota_inv kept t"
  shows "quota_inv kept (snd (tree_release t nid res amount))"
proof (cases "index_of t nid")
  case (Inr k)
  let ?ns = "qt_nodes t"
  have k: "k < length ?ns" using index_of_ok [OF Inr] by simp
  have "quota_inv kept (update_node t k (\<lambda>n. n\<lparr>nd_used := usage_sub (nd_used n) res amount\<rparr>))"
  proof (rule used_change_keeps [OF inv k])
    fix i r assume kept: kept and i: "i < length ?ns" "limit_for (nd_limits (?ns ! i)) r \<noteq> UNLIMITED"
    have "subtree_sum ?ns r i \<le> unat (limit_for (nd_limits (?ns ! i)) r)"
      using inv i kept by (simp add: quota_inv_def limits_hold_def)
    then show "subtree_sum ?ns r i + unat (usage_for (usage_sub (nd_used (?ns ! k)) res amount) r)
        \<le> unat (limit_for (nd_limits (?ns ! i)) r) + unat (usage_for (nd_used (?ns ! k)) r)"
      by (auto simp: usage_sub_def usage_for_slot unat_saturating_sub)
  qed
  then show ?thesis using Inr by (simp add: tree_release_def)
qed (use inv in \<open>simp add: tree_release_def\<close>)

section \<open>Changing the shape\<close>

lemma sum_list_zeros:
  "\<forall>c\<in>set cs. c \<in> Z \<longrightarrow> f c = (0 :: nat) \<Longrightarrow> (\<Sum>c\<leftarrow>cs. f c) = (\<Sum>c\<leftarrow>filter (\<lambda>c. c \<notin> Z) cs. f c)"
  by (induction cs) auto

lemma subtree_sum_shape:
  assumes wf: "tree_wf ns" and wf': "tree_wf ns'" and len: "length ns \<le> length ns'"
    and same: "\<And>i. i < length ns \<Longrightarrow> i \<notin> Z \<Longrightarrow> nd_used (ns' ! i) = nd_used (ns ! i)
      \<and> filter (\<lambda>c. c \<notin> Z) (nd_children (ns' ! i)) = filter (\<lambda>c. c \<notin> Z) (nd_children (ns ! i))"
    and zero: "\<And>c. c \<in> Z \<Longrightarrow> subtree_sum ns res c = 0 \<and> subtree_sum ns' res c = 0"
    and i: "i < length ns" "i \<notin> Z"
  shows "subtree_sum ns' res i = subtree_sum ns res i"
  using i
proof (induction "length ns - i" arbitrary: i rule: less_induct)
  case less
  let ?cs = "filter (\<lambda>c. c \<notin> Z) (nd_children (ns ! i))"
  have sums: "subtree_sum ns res i = unat (usage_for (nd_used (ns ! i)) res) + (\<Sum>c\<leftarrow>?cs. subtree_sum ns res c)"
    "subtree_sum ns' res i = unat (usage_for (nd_used (ns ! i)) res) + (\<Sum>c\<leftarrow>?cs. subtree_sum ns' res c)"
    using subtree_sum_node [OF wf less.prems(1), of res] subtree_sum_node [OF wf', of i res] len less.prems
      sum_list_zeros [of "nd_children (ns ! i)" Z "subtree_sum ns res"]
      sum_list_zeros [of "nd_children (ns' ! i)" Z "subtree_sum ns' res"] same [OF less.prems] zero by auto
  have "subtree_sum ns' res c = subtree_sum ns res c" if "c \<in> set ?cs" for c
    using that tree_wfD(2) [OF wf less.prems(1), of c] less.prems(1) by (intro less.hyps) auto
  then have "map (subtree_sum ns' res) ?cs = map (subtree_sum ns res) ?cs" by (intro map_cong) auto
  then show ?case unfolding sums by (simp only:)
qed

lemma subtree_sum_outside [simp]: "length ns \<le> i \<Longrightarrow> subtree_sum ns res i = 0"
  by (subst subtree_sum.simps) simp

lemma usage_for_default [simp]: "usage_for usage_default res = 0"
  by (cases res) (simp_all add: usage_for_def usage_default_def)

lemma unused_leaf_sum:
  "tree_wf ns \<Longrightarrow> i < length ns \<Longrightarrow> nd_children (ns ! i) = [] \<Longrightarrow> nd_used (ns ! i) = usage_default \<Longrightarrow>
     subtree_sum ns res i = 0"
  by (simp add: subtree_sum_node)

lemma limits_hold_shape:
  assumes "limits_hold ns" "length ns \<le> length ns'"
    and "\<And>i res. i < length ns \<Longrightarrow> i \<notin> Z \<Longrightarrow> subtree_sum ns' res i = subtree_sum ns res i \<and> nd_limits (ns' ! i) = nd_limits (ns ! i)"
    and "\<And>c res. c < length ns' \<Longrightarrow> c \<in> Z \<or> length ns \<le> c \<Longrightarrow> subtree_sum ns' res c = 0"
  shows "limits_hold ns'"
  unfolding limits_hold_def
proof (intro allI impI)
  fix i res assume i: "i < length ns'" "limit_for (nd_limits (ns' ! i)) res \<noteq> UNLIMITED"
  show "subtree_sum ns' res i \<le> unat (limit_for (nd_limits (ns' ! i)) res)"
  proof (cases "i < length ns \<and> i \<notin> Z")
    case True
    then show ?thesis using assms(1,3) i(2) by (simp add: limits_hold_def)
  next
    case False
    then have "i \<in> Z \<or> length ns \<le> i" by linarith
    then show ?thesis by (simp add: assms(4) [OF i(1)])
  qed
qed

lemma fresh_node_simps [simp]:
  "nd_parent (fresh_node p l) = p" "nd_children (fresh_node p l) = []" "nd_limits (fresh_node p l) = l"
  "nd_used (fresh_node p l) = usage_default" "nd_active (fresh_node p l)"
  by (simp_all add: fresh_node_def)

lemma tree_wf_root:
  assumes wf: "tree_wf ns"
  shows "tree_wf (ns @ [fresh_node None l])" (is "tree_wf ?ns")
  unfolding tree_wf_def
proof (intro allI impI conjI ballI)
  have kids: "nd_children (?ns ! i) = (if i = length ns then [] else nd_children (ns ! i))"
    and par: "nd_parent (?ns ! i) = (if i = length ns then None else nd_parent (ns ! i))" if "i < Suc (length ns)" for i
    using that by (auto simp: nth_append fresh_node_def)
  fix i assume "i < length ?ns" then have i: "i < Suc (length ns)" by simp
  show "distinct (nd_children (?ns ! i))"
    using kids [OF i] tree_wfD(1) [OF wf] i by (auto simp: less_Suc_eq)
  show "i < c" "c < length ?ns" "nd_parent (?ns ! c) = Some i" if "c \<in> set (nd_children (?ns ! i))" for c
    using that kids [OF i] par [of c] tree_wfD(2) [OF wf, of i c] i by (auto split: if_splits)
  show "q < i" "i \<in> set (nd_children (?ns ! q))" if "nd_parent (?ns ! i) = Some q" for q
    using that par [OF i] kids [of q] tree_wfD(3) [OF wf, of i q] i by (auto split: if_splits)
qed

lemma tree_wf_child:
  assumes wf: "tree_wf ns" and p: "p < length ns"
  shows "tree_wf ((ns @ [fresh_node (Some p) l])[p := (ns ! p)\<lparr>nd_children := nd_children (ns ! p) @ [length ns]\<rparr>])"
    (is "tree_wf ?ns")
proof -
  have nth: "?ns ! i = (if i = length ns then fresh_node (Some p) l
      else if i = p then (ns ! p)\<lparr>nd_children := nd_children (ns ! p) @ [length ns]\<rparr> else ns ! i)" if "i < Suc (length ns)" for i
    using that p by (auto simp: nth_list_update nth_append)
  have fresh: "length ns \<notin> set (nd_children (ns ! i))" if "i < length ns" for i
    using tree_wfD(2) [OF wf that] by blast
  have kids: "nd_children (?ns ! i) = (if i = length ns then [] else if i = p then nd_children (ns ! p) @ [length ns]
      else nd_children (ns ! i))" if "i < Suc (length ns)" for i
    using nth [OF that] by (simp add: fresh_node_def)
  have par: "nd_parent (?ns ! i) = (if i = length ns then Some p else nd_parent (ns ! i))" if "i < Suc (length ns)" for i
    using nth [OF that] by (simp add: fresh_node_def)
  show ?thesis
    unfolding tree_wf_def
  proof (intro allI impI conjI ballI)
    fix i assume "i < length ?ns" then have i: "i < Suc (length ns)" by simp
    show "distinct (nd_children (?ns ! i))"
      using kids [OF i] fresh [OF p] tree_wfD(1) [OF wf] i by (auto simp: less_Suc_eq)
    show "i < c" "c < length ?ns" "nd_parent (?ns ! c) = Some i" if "c \<in> set (nd_children (?ns ! i))" for c
      using that kids [OF i] par [of c] tree_wfD(2) [OF wf, of i c] i p by (auto split: if_splits)
    show "q < i" "i \<in> set (nd_children (?ns ! q))" if "nd_parent (?ns ! i) = Some q" for q
      using that par [OF i] kids [of q] tree_wfD(3) [OF wf, of i q] i p by (auto split: if_splits)
  qed
qed

lemma tree_wf_removed:
  assumes wf: "tree_wf ns" and k: "k < length ns" "nd_parent (ns ! k) = Some p" "nd_children (ns ! k) = []"
    and len: "length ns' = length ns"
    and kids: "\<And>i. i < length ns \<Longrightarrow> nd_children (ns' ! i) = (if i = p then filter (\<lambda>c. c \<noteq> k) (nd_children (ns ! p)) else nd_children (ns ! i))"
    and par: "\<And>i. i < length ns \<Longrightarrow> nd_parent (ns' ! i) = (if i = k then None else nd_parent (ns ! i))"
  shows "tree_wf ns'"
  unfolding tree_wf_def
proof (intro allI impI conjI ballI)
  fix i assume "i < length ns'" then have i: "i < length ns" using len by simp
  show "distinct (nd_children (ns' ! i))"
    using kids [OF i] tree_wfD(1) [OF wf i] by (auto split: if_splits)
  have old: "c \<in> set (nd_children (ns ! i)) \<and> c \<noteq> k" if "c \<in> set (nd_children (ns' ! i))" for c
    using that kids [OF i] tree_wfD(2) [OF wf i, of c] k(2) by (auto split: if_splits)
  show "i < c" "c < length ns'" "nd_parent (ns' ! c) = Some i" if "c \<in> set (nd_children (ns' ! i))" for c
    using old [OF that] tree_wfD(2) [OF wf i, of c] par [of c] len by auto
  show "q < i" "i \<in> set (nd_children (ns' ! q))" if "nd_parent (ns' ! i) = Some q" for q
    using that par [OF i] tree_wfD(3) [OF wf i, of q] kids [of q] i by (auto split: if_splits)
qed

lemma add_root_inv:
  assumes inv: "quota_inv kept t"
  shows "quota_inv kept (snd (add_root t l))"
proof -
  let ?ns = "qt_nodes t" let ?ns' = "?ns @ [fresh_node None l]"
  have wf: "tree_wf ?ns" using inv by (simp add: quota_inv_def)
  note wf' = tree_wf_root [OF wf, of l]
  have new: "subtree_sum ?ns' res c = 0" if "length ?ns \<le> c" for c res
  proof (cases "c = length ?ns")
    case True
    then show ?thesis by (simp add: unused_leaf_sum [OF wf'])
  qed (use that in simp)
  have "limits_hold ?ns'" if kept
  proof (rule limits_hold_shape [where Z = "{length ?ns}"])
    show "limits_hold ?ns" using inv that by (simp add: quota_inv_def)
    show "subtree_sum ?ns' res i = subtree_sum ?ns res i \<and> nd_limits (?ns' ! i) = nd_limits (?ns ! i)"
      if "i < length ?ns" "i \<notin> {length ?ns}" for i res
      using subtree_sum_shape [OF wf wf', of "{length ?ns}" res i] that new by (simp add: nth_append)
  qed (use new in auto)
  then show ?thesis using wf' by (simp add: add_root_def quota_inv_def)
qed

lemma add_child_inv:
  assumes inv: "quota_inv kept t"
  shows "quota_inv kept (snd (add_child t parent l))"
proof (cases "index_of t parent")
  case (Inr p)
  let ?ns = "qt_nodes t"
  let ?ns' = "(?ns @ [fresh_node (Some p) l])[p := (?ns ! p)\<lparr>nd_children := nd_children (?ns ! p) @ [length ?ns]\<rparr>]"
  have p: "p < length ?ns" using index_of_ok [OF Inr] by simp
  have wf: "tree_wf ?ns" using inv by (simp add: quota_inv_def)
  note wf' = tree_wf_child [OF wf p, of l]
  have new: "subtree_sum ?ns' res c = 0" if "length ?ns \<le> c" for c res
  proof (cases "c = length ?ns")
    case True
    then show ?thesis using p by (simp add: unused_leaf_sum [OF wf'])
  qed (use that in simp)
  have "limits_hold ?ns'" if kept
  proof (rule limits_hold_shape [where Z = "{length ?ns}"])
    show "limits_hold ?ns" using inv that by (simp add: quota_inv_def)
    show "subtree_sum ?ns' res i = subtree_sum ?ns res i \<and> nd_limits (?ns' ! i) = nd_limits (?ns ! i)"
      if "i < length ?ns" "i \<notin> {length ?ns}" for i res
      using subtree_sum_shape [OF wf wf', of "{length ?ns}" res i] that new p
      by (auto simp: nth_append nth_list_update)
  qed (use new in auto)
  then show ?thesis using wf' p Inr by (simp add: add_child_def quota_inv_def update_node_def Let_def nth_append)
qed (use inv in \<open>simp add: add_child_def\<close>)

lemma remove_leaf_inv:
  assumes inv: "quota_inv kept t"
  shows "quota_inv kept (snd (remove_leaf t nid))"
proof (cases "\<exists>k p. index_of t nid = Inr k \<and> nd_parent (qt_nodes t ! k) = Some p
    \<and> nd_children (qt_nodes t ! k) = [] \<and> nd_used (qt_nodes t ! k) = usage_default")
  case True
  then obtain k p where nid: "index_of t nid = Inr k" and kp: "nd_parent (qt_nodes t ! k) = Some p"
    "nd_children (qt_nodes t ! k) = []" "nd_used (qt_nodes t ! k) = usage_default" by blast
  let ?ns = "qt_nodes t" let ?ns' = "qt_nodes (snd (remove_leaf t nid))"
  have wf: "tree_wf ?ns" using inv by (simp add: quota_inv_def)
  have k: "k < length ?ns" using index_of_ok [OF nid] by simp
  have p: "p < k" using tree_wfD(3) [OF wf k kp(1)] by simp
  have ns': "?ns' = ?ns[p := (?ns ! p)\<lparr>nd_children := filter (\<lambda>c. c \<noteq> k) (nd_children (?ns ! p))\<rparr>,
      k := (?ns ! k)\<lparr>nd_active := False, nd_parent := None, nd_limits := limits_unlimited\<rparr>]"
    using nid kp p by (simp add: remove_leaf_def update_node_def Let_def)
  have len: "length ?ns' = length ?ns" by (simp add: ns')
  have kids: "nd_children (?ns' ! i) = (if i = p then filter (\<lambda>c. c \<noteq> k) (nd_children (?ns ! p)) else nd_children (?ns ! i))"
    and par: "nd_parent (?ns' ! i) = (if i = k then None else nd_parent (?ns ! i))"
    and used: "nd_used (?ns' ! i) = nd_used (?ns ! i)"
    and lims: "i \<noteq> k \<Longrightarrow> nd_limits (?ns' ! i) = nd_limits (?ns ! i)" if "i < length ?ns" for i
    using that p k unfolding ns' by (auto simp: nth_list_update)
  have wf': "tree_wf ?ns'" by (rule tree_wf_removed [OF wf k kp(1,2) len kids par])
  have zero: "subtree_sum ?ns res k = 0 \<and> subtree_sum ?ns' res k = 0" for res
    using unused_leaf_sum [OF wf k kp(2,3)] unused_leaf_sum [OF wf', of k] k p kids used kp len by simp
  have "limits_hold ?ns'" if kept
  proof (rule limits_hold_shape [where Z = "{k}"])
    show "limits_hold ?ns" using inv that by (simp add: quota_inv_def)
    show "subtree_sum ?ns' res i = subtree_sum ?ns res i \<and> nd_limits (?ns' ! i) = nd_limits (?ns ! i)"
      if "i < length ?ns" "i \<notin> {k}" for i res
      using subtree_sum_shape [OF wf wf', of "{k}" res i] that zero kids used lims len by simp
  qed (use zero len in auto)
  then show ?thesis using wf' by (simp add: quota_inv_def)
next
  case False
  then have "snd (remove_leaf t nid) = t"
    by (cases "index_of t nid") (auto simp: remove_leaf_def Let_def)
  then show ?thesis using inv by simp
qed

lemma set_limits_inv:
  assumes inv: "quota_inv kept t"
    and ok: "\<And>k res. kept \<Longrightarrow> index_of t nid = Inr k \<Longrightarrow> limit_for l res \<noteq> UNLIMITED \<Longrightarrow>
      subtree_sum (qt_nodes t) res k \<le> unat (limit_for l res)"
  shows "quota_inv kept (snd (tree_set_limits t nid l))"
proof (cases "index_of t nid")
  case (Inr k)
  let ?ns = "qt_nodes t" let ?ns' = "?ns[k := (?ns ! k)\<lparr>nd_limits := l\<rparr>]"
  have k: "k < length ?ns" using index_of_ok [OF Inr] by simp
  have wf: "tree_wf ?ns" using inv by (simp add: quota_inv_def)
  have wf': "tree_wf ?ns'"
    by (rule same_shape_wf [OF _ wf]) (use k in \<open>auto simp: same_shape_def nth_list_update\<close>)
  have sums: "subtree_sum ?ns' res i = subtree_sum ?ns res i" if "i < length ?ns" for i res
    using subtree_sum_shape [OF wf wf', of "{}" res i] that k by (auto simp: nth_list_update)
  have "limits_hold ?ns'" if kept
    using inv sums ok [OF that Inr] k that by (auto simp: quota_inv_def limits_hold_def nth_list_update)
  then show ?thesis using wf' Inr by (simp add: tree_set_limits_def quota_inv_def update_node_def)
qed (use inv in \<open>simp add: tree_set_limits_def\<close>)

section \<open>What an acquisition and a release change\<close>

text \<open>
  The tree keeps its nodes, links and limits, and the sum of every subtree on the path from the
  node up changes by the given amount of the resource; nothing else changes.
\<close>

definition sums_change :: "quota_tree \<Rightarrow> quota_tree \<Rightarrow> nat \<Rightarrow> (nat \<Rightarrow> nat) \<Rightarrow> resource \<Rightarrow> bool" where
  "sums_change t t' k f res \<longleftrightarrow> qt_tree_id t' = qt_tree_id t \<and> length (qt_nodes t') = length (qt_nodes t)
     \<and> (\<forall>i < length (qt_nodes t). nd_parent (qt_nodes t' ! i) = nd_parent (qt_nodes t ! i)
          \<and> nd_children (qt_nodes t' ! i) = nd_children (qt_nodes t ! i)
          \<and> nd_limits (qt_nodes t' ! i) = nd_limits (qt_nodes t ! i)
          \<and> nd_active (qt_nodes t' ! i) = nd_active (qt_nodes t ! i)
          \<and> (\<forall>r. subtree_sum (qt_nodes t') r i =
               (if r = res \<and> is_anc (qt_nodes t) i k then f (subtree_sum (qt_nodes t) r i) else subtree_sum (qt_nodes t) r i)))"

lemma update_sums_change:
  assumes "tree_wf (qt_nodes t)" "k < length (qt_nodes t)"
    and "\<And>r. r \<noteq> res \<Longrightarrow> usage_for (g (nd_used (qt_nodes t ! k))) r = usage_for (nd_used (qt_nodes t ! k)) r"
    and "\<And>x y. y + unat (usage_for (nd_used (qt_nodes t ! k)) res) = x + unat (usage_for (g (nd_used (qt_nodes t ! k))) res) \<Longrightarrow> y = f x"
  shows "sums_change t (update_node t k (\<lambda>n. n\<lparr>nd_used := g (nd_used n)\<rparr>)) k f res"
proof -
  let ?ns = "qt_nodes t" let ?ns' = "?ns[k := (?ns ! k)\<lparr>nd_used := g (nd_used (?ns ! k))\<rparr>]"
  have "subtree_sum ?ns' r i = (if r = res \<and> is_anc ?ns i k then f (subtree_sum ?ns r i) else subtree_sum ?ns r i)"
    if "i < length ?ns" for i r
    using used_update_sum [OF assms(1,2) that, of "g (nd_used (?ns ! k))" r] assms(3) [of r] assms(4) by (auto split: if_splits)
  moreover have "nd_parent (?ns' ! i) = nd_parent (?ns ! i) \<and> nd_children (?ns' ! i) = nd_children (?ns ! i)
      \<and> nd_limits (?ns' ! i) = nd_limits (?ns ! i) \<and> nd_active (?ns' ! i) = nd_active (?ns ! i)" for i
    using assms(2) by (cases "i = k") simp_all
  ultimately show ?thesis by (simp add: sums_change_def update_node_def)
qed

lemma acquire_charges:
  assumes "tree_wf (qt_nodes t)" "index_of t nid = Inr k" "room_above (qt_nodes t) res (unat amount) k"
  shows "\<exists>t'. tree_try_acquire t nid res amount = (Some True, t')
    \<and> (unat (usage_for (nd_used (qt_nodes t ! k)) res) + unat amount < 2 ^ 64 \<longrightarrow> sums_change t t' k (\<lambda>x. x + unat amount) res)
    \<and> (\<forall>i. is_anc (qt_nodes t) i k \<longrightarrow> limit_for (nd_limits (qt_nodes t ! i)) res \<noteq> UNLIMITED \<longrightarrow>
         subtree_sum (qt_nodes t') res i \<le> unat (limit_for (nd_limits (qt_nodes t ! i)) res))"
proof -
  let ?ns = "qt_nodes t" let ?t = "update_node t k (\<lambda>n. n\<lparr>nd_used := usage_add (nd_used n) res amount\<rparr>)"
  have k: "k < length ?ns" using index_of_ok [OF assms(2)] by simp
  have "tree_try_acquire t nid res amount = (Some True, ?t)"
    using ancestors_allow_ok [OF assms(1) k k, of res amount] assms(2,3) by (simp add: tree_try_acquire_def)
  moreover have "sums_change t ?t k (\<lambda>x. x + unat amount) res"
    if "unat (usage_for (nd_used (?ns ! k)) res) + unat amount < 2 ^ 64"
    using that by (intro update_sums_change [OF assms(1) k])
      (auto simp: usage_add_def usage_for_slot unat_saturating_add)
  moreover have "subtree_sum (qt_nodes ?t) res i \<le> unat (limit_for (nd_limits (?ns ! i)) res)"
    if "is_anc ?ns i k" "limit_for (nd_limits (?ns ! i)) res \<noteq> UNLIMITED" for i
  proof -
    have i: "i < length ?ns" using is_anc_le [OF that(1) assms(1) k] k by simp
    have "subtree_sum (qt_nodes ?t) res i \<le> subtree_sum ?ns res i + unat amount"
      using used_update_sum [OF assms(1) k i, of "usage_add (nd_used (?ns ! k)) res amount" res] that(1)
      by (simp add: update_node_def usage_add_def usage_for_slot unat_saturating_add)
    also have "\<dots> \<le> unat (limit_for (nd_limits (?ns ! i)) res)" using assms(3) that by (simp add: room_above_def)
    finally show ?thesis .
  qed
  ultimately show ?thesis by blast
qed

lemma release_refunds:
  assumes "tree_wf (qt_nodes t)" "index_of t nid = Inr k"
  shows "\<exists>t'. tree_release t nid res amount = (True, t')
    \<and> sums_change t t' k (\<lambda>x. x - min (unat amount) (unat (usage_for (nd_used (qt_nodes t ! k)) res))) res"
proof -
  have k: "k < length (qt_nodes t)" using index_of_ok [OF assms(2)] by simp
  show ?thesis unfolding tree_release_def assms(2)
    by (auto intro!: update_sums_change [OF assms(1) k] simp: usage_sub_def usage_for_slot unat_saturating_sub)
qed

section \<open>Every history respects every limit\<close>

text \<open>
  One call of a caller, with a flag that says whether every limit set so far by \<^verbatim>\<open>set_limits\<close>
  covered what the subtree used at that moment: \<^verbatim>\<open>set_limits\<close> itself does not look
  (\<^verbatim>\<open>Job::set_limits\<close>, its caller in the kernel, does).
\<close>

definition covers_use :: "quota_tree \<Rightarrow> node_id \<Rightarrow> limits \<Rightarrow> bool" where
  "covers_use t nid l \<longleftrightarrow> (\<forall>k res. index_of t nid = Inr k \<longrightarrow> limit_for l res \<noteq> UNLIMITED \<longrightarrow>
     subtree_sum (qt_nodes t) res k \<le> unat (limit_for l res))"

inductive quota_call :: "quota_tree \<times> bool \<Rightarrow> quota_tree \<times> bool \<Rightarrow> bool" where
  call_root: "quota_call (t, kept) (snd (add_root t l), kept)"
| call_child: "quota_call (t, kept) (snd (add_child t parent l), kept)"
| call_remove: "quota_call (t, kept) (snd (remove_leaf t nid), kept)"
| call_acquire: "quota_call (t, kept) (snd (tree_try_acquire t nid res amount), kept)"
| call_release: "quota_call (t, kept) (snd (tree_release t nid res amount), kept)"
| call_limits: "quota_call (t, kept) (snd (tree_set_limits t nid l), kept \<and> covers_use t nid l)"

lemma tree_acquire_keeps: "quota_inv kept t \<Longrightarrow> quota_inv kept (snd (tree_try_acquire t nid res amount))"
proof -
  assume "quota_inv kept t"
  from tree_acquire_inv [OF this, of nid res amount] show ?thesis by (elim exE conjE) simp
qed

lemma quota_call_inv:
  assumes "quota_inv (snd w) (fst w)" "quota_call w w'"
  shows "quota_inv (snd w') (fst w')"
  using assms(2,1)
proof cases
  case (call_limits t kept nid l)
  have "quota_inv (kept \<and> covers_use t nid l) t" using assms(1) call_limits(1) by (auto simp: quota_inv_def)
  then have "quota_inv (kept \<and> covers_use t nid l) (snd (tree_set_limits t nid l))"
    by (rule set_limits_inv) (simp add: covers_use_def)
  then show ?thesis using call_limits(2) by (simp only: fst_conv snd_conv)
qed (simp_all add: add_root_inv add_child_inv remove_leaf_inv tree_acquire_keeps tree_release_inv)

interpretation quotas: invariant_machine "\<lambda>w. \<exists>n. w = (quota_tree_new n, True)" quota_call "\<lambda>w. quota_inv (snd w) (fst w)"
proof
  show "quota_inv (snd w) (fst w)" if "\<exists>n. w = (quota_tree_new n, True)" for w
    using that by (auto simp: quota_tree_new_def quota_inv_def tree_wf_def limits_hold_def)
qed (rule quota_call_inv)

text \<open>
  C6: Over every history of calls on a fresh \<^verbatim>\<open>QuotaTree\<close> (adding and removing nodes, acquiring,
  releasing and changing limits in any way), for every live node the recursion of
  \<^verbatim>\<open>subtree_usage\<close> terminates with the exact sum over the subtree, saturated at the largest word. An
  acquisition always answers and succeeds exactly when the node and all its ancestors have room
  for the amount. When refused it changes nothing. When it succeeds every limit on the path up
  holds afterwards, and unless the node's own counter saturates, the exact sums of the node and its
  ancestors have grown by the amount and nothing else has changed. A release lowers the same sums by
  the amount, at most by what the node itself uses. As long as no limit was set below the use
  it covers, every limit of the tree holds.
\<close>

theorem quota_hierarchy_enforced:
  assumes "quota_call\<^sup>*\<^sup>* (quota_tree_new n, True) (t, kept)" "index_of t nid = Inr k"
  shows "(\<exists>u. subtree_usage t nid = Inr (Some u)
        \<and> (\<forall>res. unat (usage_for u res) = min (2 ^ 64 - 1) (subtree_sum (qt_nodes t) res k)))
    \<and> (\<exists>b t'. tree_try_acquire t nid res amount = (Some b, t')
         \<and> (b \<longleftrightarrow> room_above (qt_nodes t) res (unat amount) k)
         \<and> (\<not> b \<longrightarrow> t' = t)
         \<and> (b \<and> unat (usage_for (nd_used (qt_nodes t ! k)) res) + unat amount < 2 ^ 64 \<longrightarrow>
              sums_change t t' k (\<lambda>x. x + unat amount) res)
         \<and> (b \<longrightarrow> (\<forall>i. is_anc (qt_nodes t) i k \<longrightarrow> limit_for (nd_limits (qt_nodes t ! i)) res \<noteq> UNLIMITED \<longrightarrow>
              subtree_sum (qt_nodes t') res i \<le> unat (limit_for (nd_limits (qt_nodes t ! i)) res))))
    \<and> (\<exists>t'. tree_release t nid res amount = (True, t')
         \<and> sums_change t t' k (\<lambda>x. x - min (unat amount) (unat (usage_for (nd_used (qt_nodes t ! k)) res))) res)
    \<and> (kept \<longrightarrow> limits_hold (qt_nodes t))"
proof -
  have inv: "quota_inv kept t" using quotas.reachable_inv [OF _ assms(1)] by auto
  then have wf: "tree_wf (qt_nodes t)" by (simp add: quota_inv_def)
  have k: "k < length (qt_nodes t)" using index_of_ok [OF assms(2)] by simp
  obtain u where u: "subtree_usage_index (length (qt_nodes t)) (qt_nodes t) k = Some u"
      "\<forall>res. unat (usage_for u res) = min MAXU (subtree_sum (qt_nodes t) res k)"
    using subtree_usage_ok [OF wf k, of "length (qt_nodes t)"] by auto
  have "\<exists>b t'. tree_try_acquire t nid res amount = (Some b, t')
         \<and> (b \<longleftrightarrow> room_above (qt_nodes t) res (unat amount) k)
         \<and> (\<not> b \<longrightarrow> t' = t)
         \<and> (b \<and> unat (usage_for (nd_used (qt_nodes t ! k)) res) + unat amount < 2 ^ 64 \<longrightarrow>
              sums_change t t' k (\<lambda>x. x + unat amount) res)
         \<and> (b \<longrightarrow> (\<forall>i. is_anc (qt_nodes t) i k \<longrightarrow> limit_for (nd_limits (qt_nodes t ! i)) res \<noteq> UNLIMITED \<longrightarrow>
              subtree_sum (qt_nodes t') res i \<le> unat (limit_for (nd_limits (qt_nodes t ! i)) res)))"
  proof (cases "room_above (qt_nodes t) res (unat amount) k")
    case True
    then show ?thesis using acquire_charges [OF wf assms(2)] by blast
  next
    case False
    then show ?thesis using tree_acquire_inv [OF inv, of nid res amount] assms(2) by auto
  qed
  then show ?thesis
    using u assms(2) inv release_refunds [OF wf assms(2), of res amount] by (simp add: subtree_usage_def quota_inv_def)
qed

definition sample_root :: quota_tree where
  "sample_root = snd (add_root (quota_tree_new 1) (limits_unlimited\<lparr>lm_max_memory := 10\<rparr>))"

definition sample_child :: quota_tree where
  "sample_child = snd (add_child sample_root \<lparr>ni_index = 0, ni_tree_id = 1\<rparr> limits_unlimited)"

definition sample_charged :: quota_tree where
  "sample_charged = snd (tree_try_acquire sample_child \<lparr>ni_index = 1, ni_tree_id = 1\<rparr> Memory 4)"

lemma sample_child_reached: "quota_call\<^sup>*\<^sup>* (quota_tree_new 1, True) (sample_child, True)"
proof -
  have "quota_call (quota_tree_new 1, True) (sample_root, True)" unfolding sample_root_def by (rule call_root)
  moreover have "quota_call (sample_root, True) (sample_child, True)" unfolding sample_child_def by (rule call_child)
  ultimately show ?thesis by (meson rtranclp.rtrancl_refl rtranclp.rtrancl_into_rtrancl)
qed

lemma sample_charged_reached: "quota_call\<^sup>*\<^sup>* (quota_tree_new 1, True) (sample_charged, True)"
proof -
  have "quota_call (sample_child, True) (sample_charged, True)" unfolding sample_charged_def by (rule call_acquire)
  then show ?thesis using sample_child_reached by simp
qed

lemma sample_child_nodes:
  "qt_nodes sample_child = [(fresh_node None (limits_unlimited\<lparr>lm_max_memory := 10\<rparr>))\<lparr>nd_children := [1]\<rparr>, fresh_node (Some 0) limits_unlimited]"
  "qt_tree_id sample_child = 1"
  by (simp_all add: sample_child_def sample_root_def add_child_def add_root_def index_of_def quota_tree_new_def update_node_def Let_def)

lemma sample_child_room: "room_above (qt_nodes sample_child) Memory (unat (4 :: u64)) 1"
proof -
  have wf: "tree_wf (qt_nodes sample_child)" using quotas.reachable_inv [OF _ sample_child_reached] by (auto simp: quota_inv_def)
  have len: "length (qt_nodes sample_child) = 2" by (simp add: sample_child_nodes)
  have one: "subtree_sum (qt_nodes sample_child) Memory 1 = 0"
    using subtree_sum_node [OF wf, of 1 Memory] len by (simp add: sample_child_nodes)
  have zero: "subtree_sum (qt_nodes sample_child) Memory 0 = 0"
    using subtree_sum_node [OF wf, of 0 Memory] len one by (simp add: sample_child_nodes)
  have "i = 0 \<or> i = 1" if "is_anc (qt_nodes sample_child) i 1" for i
    using is_anc_le [OF that wf] len by auto
  moreover have "limit_for (nd_limits (qt_nodes sample_child ! 0)) Memory = 10"
    "limit_for (nd_limits (qt_nodes sample_child ! 1)) Memory = UNLIMITED"
    by (simp_all add: sample_child_nodes limit_for_def limits_unlimited_def)
  ultimately show ?thesis unfolding room_above_def using one zero by fastforce
qed

lemma update_used_index: "index_of (update_node t k (\<lambda>n. n\<lparr>nd_used := f n\<rparr>)) nid = index_of t nid"
  by (cases "k < length (qt_nodes t)") (simp_all add: index_of_def update_node_def nth_list_update)

lemma acquire_keeps_index: "index_of (snd (tree_try_acquire t nid res amount)) nid' = index_of t nid'"
  by (cases "index_of t nid")
    (auto simp: tree_try_acquire_def update_used_index split: option.splits bool.splits)

lemma sample_charged_index: "index_of sample_charged \<lparr>ni_index = 0, ni_tree_id = 1\<rparr> = Inr 0"
  by (simp add: sample_charged_def acquire_keeps_index) (simp add: index_of_def sample_child_nodes)

theorem quota_hierarchy_enforced_witness:
  "limits_hold (qt_nodes sample_charged)
   \<and> (\<exists>u. subtree_usage sample_charged \<lparr>ni_index = 0, ni_tree_id = 1\<rparr> = Inr (Some u)
        \<and> unat (usage_for u Memory) = min (2 ^ 64 - 1) (subtree_sum (qt_nodes sample_charged) Memory 0))
   \<and> (\<exists>b t'. tree_try_acquire sample_charged \<lparr>ni_index = 0, ni_tree_id = 1\<rparr> Memory 7 = (Some b, t')
        \<and> (b \<longleftrightarrow> room_above (qt_nodes sample_charged) Memory (unat (7 :: u64)) 0) \<and> (b \<or> t' = sample_charged))
   \<and> (\<exists>t'. tree_try_acquire sample_child \<lparr>ni_index = 1, ni_tree_id = 1\<rparr> Memory 4 = (Some True, t')
        \<and> sums_change sample_child t' 1 (\<lambda>x. x + unat (4 :: u64)) Memory)"
proof -
  note root = quota_hierarchy_enforced [OF sample_charged_reached sample_charged_index, where res = Memory and amount = 7]
  have i: "index_of sample_child \<lparr>ni_index = 1, ni_tree_id = 1\<rparr> = Inr 1"
    by (simp add: index_of_def sample_child_nodes)
  note child = quota_hierarchy_enforced [OF sample_child_reached i, where res = Memory and amount = 4]
  have "unat (usage_for (nd_used (qt_nodes sample_child ! 1)) Memory) + unat (4 :: u64) < 2 ^ 64"
    by (simp add: sample_child_nodes)
  then have "\<exists>t'. tree_try_acquire sample_child \<lparr>ni_index = 1, ni_tree_id = 1\<rparr> Memory 4 = (Some True, t')
      \<and> sums_change sample_child t' 1 (\<lambda>x. x + unat (4 :: u64)) Memory"
    using child sample_child_room by (simp add: case_prod_beta) blast
  then show ?thesis using root by blast
qed

end
