(* ===== verification/Elf_Loader.thy ===== *)
theory Elf_Loader
  imports Rust_Prelude
begin

text \<open>
  The ELF loader (\<^verbatim>\<open>src/crates/huesos-elf/src/lib.rs\<close>): it decodes the header and the program
  headers of a static executable byte by byte and copies the loadable segments into pages that the
  target address space maps. The target is a trait, so its decision to map or to refuse a page is a
  parameter \<open>refuse\<close> here. What the trait documents is the state: a list of the pages mapped so
  far, each fresh, zeroed and reached through the pointer that mapping it returned, which is its
  position in the list. A result is None where the code would panic or copy outside a page or a
  slice.
\<close>

section \<open>Bytes and results\<close>

definition ELF64_HEADER_BYTES :: nat where "ELF64_HEADER_BYTES = 64"
definition ELF64_PROGRAM_HEADER_BYTES :: nat where "ELF64_PROGRAM_HEADER_BYTES = 56"
definition ET_EXEC :: u16 where "ET_EXEC = 2"
definition PT_LOAD :: u32 where "PT_LOAD = 1"
definition PF_X :: u32 where "PF_X = 1"
definition PF_W :: u32 where "PF_W = 2"
definition PF_R :: u32 where "PF_R = 4"
definition PAGE_SIZE :: u64 where "PAGE_SIZE = 4096"

record segment_flags =
  sf_read :: bool
  sf_write :: bool
  sf_execute :: bool

datatype 'e elf_load_error = ParseError string | Unsupported string | SegmentOutOfBounds | Mapping 'e

record loaded_elf =
  le_entry_point :: u64
  le_highest_addr :: u64

type_synonym ('e, 'a) elf_result = "('e elf_load_error + 'a) option"

definition elf_ok :: "'a \<Rightarrow> ('e, 'a) elf_result" where
  "elf_ok x = Some (Inr x)"

definition elf_err :: "'e elf_load_error \<Rightarrow> ('e, 'a) elf_result" where
  "elf_err e = Some (Inl e)"

definition elf_then :: "('e, 'a) elf_result \<Rightarrow> ('a \<Rightarrow> ('e, 'b) elf_result) \<Rightarrow> ('e, 'b) elf_result" where
  "elf_then m f = (case m of None \<Rightarrow> None | Some (Inl e) \<Rightarrow> Some (Inl e) | Some (Inr x) \<Rightarrow> f x)"

definition or_err :: "'a option \<Rightarrow> 'e elf_load_error \<Rightarrow> ('e, 'a) elf_result" where
  "or_err x e = (case x of None \<Rightarrow> elf_err e | Some v \<Rightarrow> elf_ok v)"

text \<open>Checked and panicking addition of \<^verbatim>\<open>usize\<close>, indexing and slicing.\<close>

definition usize_checked_add :: "nat \<Rightarrow> nat \<Rightarrow> nat option" where
  "usize_checked_add a b = (if a + b < 2 ^ 64 then Some (a + b) else None)"

definition usize_add :: "nat \<Rightarrow> nat \<Rightarrow> ('e, nat) elf_result" where
  "usize_add a b = map_option Inr (usize_checked_add a b)"

definition byte_at :: "u8 list \<Rightarrow> nat \<Rightarrow> ('e, u8) elf_result" where
  "byte_at data i = (if i < length data then elf_ok (data ! i) else None)"

definition slice_get :: "u8 list \<Rightarrow> nat \<Rightarrow> nat \<Rightarrow> u8 list option" where
  "slice_get data a b = (if a \<le> b \<and> b \<le> length data then Some (take (b - a) (drop a data)) else None)"

definition from_le_bytes :: "u8 list \<Rightarrow> 'a::len word" where
  "from_le_bytes bs = foldr (\<lambda>b w. ucast b OR push_bit 8 w) bs 0"

definition read_le :: "nat \<Rightarrow> u8 list \<Rightarrow> nat \<Rightarrow> 'a::len word option" where
  "read_le n data offset =
     Option.bind (usize_checked_add offset n) (\<lambda>e. map_option from_le_bytes (slice_get data offset e))"

definition read_u16 :: "u8 list \<Rightarrow> nat \<Rightarrow> u16 option" where
  "read_u16 = read_le 2"

definition read_u32 :: "u8 list \<Rightarrow> nat \<Rightarrow> u32 option" where
  "read_u32 = read_le 4"

definition read_u64 :: "u8 list \<Rightarrow> nat \<Rightarrow> u64 option" where
  "read_u64 = read_le 8"

section \<open>Headers\<close>

definition validate_elf64_header :: "u8 list \<Rightarrow> ('e, unit) elf_result" where
  "validate_elf64_header data =
     (if length data < ELF64_HEADER_BYTES \<or> slice_get data 0 4 \<noteq> Some [0x7f, 0x45, 0x4c, 0x46]
      then elf_err (ParseError ''truncated or invalid ELF magic'')
      else
        let unsupported = elf_err (Unsupported ''only little-endian ELF64 version 1 is supported'') in
        elf_then (byte_at data 4) (\<lambda>c. if c \<noteq> 2 then unsupported else
        elf_then (byte_at data 5) (\<lambda>d. if d \<noteq> 1 then unsupported else
        elf_then (byte_at data 6) (\<lambda>v. if v \<noteq> 1 then unsupported else
        elf_then (or_err (read_u16 data 52) (ParseError ''missing e_ehsize'')) (\<lambda>ehsize.
        elf_then (or_err (read_u16 data 54) (ParseError ''missing e_phentsize'')) (\<lambda>phentsize.
        elf_then (or_err (read_u16 data 56) (ParseError ''missing e_phnum'')) (\<lambda>phnum.
        elf_then (or_err (read_u64 data 32) (ParseError ''missing e_phoff'')) (\<lambda>phoff.
        if unat ehsize \<noteq> ELF64_HEADER_BYTES \<or> phnum \<noteq> 0 \<and> unat phentsize \<noteq> ELF64_PROGRAM_HEADER_BYTES
        then elf_err (ParseError ''invalid ELF64 header geometry'')
        else
          elf_then (or_err (checked_mul (ucast phnum) (ucast phentsize :: u64)) SegmentOutOfBounds) (\<lambda>table_bytes.
          elf_then (or_err (checked_add phoff table_bytes) SegmentOutOfBounds) (\<lambda>table_end.
          if of_nat (length data) < table_end then elf_err SegmentOutOfBounds else elf_ok ()))))))))))"

record program_header =
  p_type :: u32
  p_flags :: u32
  p_offset :: u64
  p_vaddr :: u64
  p_filesz :: u64
  p_memsz :: u64

definition read_program_header :: "u8 list \<Rightarrow> u64 \<Rightarrow> nat \<Rightarrow> ('e, program_header) elf_result" where
  "read_program_header data phoff index =
     (let truncated = ParseError ''truncated program header'' in
      elf_then (or_err (Option.bind (checked_mul (of_nat index) (of_nat ELF64_PROGRAM_HEADER_BYTES)) (checked_add phoff))
                 SegmentOutOfBounds) (\<lambda>entry_offset.
      let base = unat entry_offset in
      elf_then (or_err (read_u32 data base) truncated) (\<lambda>ty.
      elf_then (usize_add base 4) (\<lambda>o4. elf_then (or_err (read_u32 data o4) truncated) (\<lambda>fl.
      elf_then (usize_add base 8) (\<lambda>o8. elf_then (or_err (read_u64 data o8) truncated) (\<lambda>off.
      elf_then (usize_add base 16) (\<lambda>o16. elf_then (or_err (read_u64 data o16) truncated) (\<lambda>va.
      elf_then (usize_add base 32) (\<lambda>o32. elf_then (or_err (read_u64 data o32) truncated) (\<lambda>fs.
      elf_then (usize_add base 40) (\<lambda>o40. elf_then (or_err (read_u64 data o40) truncated) (\<lambda>ms.
      elf_ok \<lparr>p_type = ty, p_flags = fl, p_offset = off, p_vaddr = va, p_filesz = fs, p_memsz = ms\<rparr>)))))))))))))"

section \<open>Pages\<close>

record mapped_page =
  mp_vaddr :: u64
  mp_flags :: segment_flags
  mp_bytes :: "u8 list"

type_synonym 'e loader = "mapped_page list \<Rightarrow> u64 \<Rightarrow> segment_flags \<Rightarrow> 'e option"

definition map_zeroed_page ::
  "'e loader \<Rightarrow> u64 \<Rightarrow> segment_flags \<Rightarrow> mapped_page list \<Rightarrow> ('e + nat) \<times> mapped_page list" where
  "map_zeroed_page refuse vaddr flags pages =
     (case refuse pages vaddr flags of
        Some e \<Rightarrow> (Inl e, pages)
      | None \<Rightarrow> (Inr (length pages),
          pages @ [\<lparr>mp_vaddr = vaddr, mp_flags = flags, mp_bytes = replicate (unat PAGE_SIZE) 0\<rparr>]))"

definition copy_nonoverlapping ::
  "u8 list \<Rightarrow> nat \<Rightarrow> nat \<Rightarrow> nat \<Rightarrow> nat \<Rightarrow> mapped_page list \<Rightarrow> mapped_page list option" where
  "copy_nonoverlapping src src_off dst page_off len pages =
     (if src_off + len \<le> length src \<and> dst < length pages \<and> page_off + len \<le> length (mp_bytes (pages ! dst))
      then Some (pages[dst := (pages ! dst)\<lparr>mp_bytes :=
             take page_off (mp_bytes (pages ! dst)) @ take len (drop src_off src)
               @ drop (page_off + len) (mp_bytes (pages ! dst))\<rparr>])
      else None)"

definition align_down :: "u64 \<Rightarrow> u64 \<Rightarrow> u64" where
  "align_down addr align = addr AND NOT (align - 1)"

definition align_up :: "u64 \<Rightarrow> u64 \<Rightarrow> u64 option" where
  "align_up addr align = map_option (\<lambda>v. v AND NOT (align - 1)) (checked_add addr (align - 1))"

section \<open>Loading\<close>

text \<open>The loop of \<^verbatim>\<open>load_segment\<close>. Both uses of \<^verbatim>\<open>page + PAGE_SIZE\<close> panic on overflow.\<close>

function load_pages ::
  "'e loader \<Rightarrow> segment_flags \<Rightarrow> u8 list \<Rightarrow> u64 \<Rightarrow> u64 \<Rightarrow> u64 \<Rightarrow> u64 \<Rightarrow> mapped_page list
     \<Rightarrow> ('e, unit) elf_result \<times> mapped_page list" where
  "load_pages refuse flags segment_bytes seg_file_start seg_file_end page_end page pages =
     (if page < page_end then
        (case map_zeroed_page refuse page flags pages of
           (Inl e, pages1) \<Rightarrow> (elf_err (Mapping e), pages1)
         | (Inr dst, pages1) \<Rightarrow>
             if 2 ^ 64 \<le> unat page + unat PAGE_SIZE then (None, pages1)
             else
               let copy_start = max page seg_file_start;
                   copy_end = min (page + PAGE_SIZE) seg_file_end in
               if copy_start < copy_end then
                 (case copy_nonoverlapping segment_bytes (unat (copy_start - seg_file_start)) dst
                         (unat (copy_start - page)) (unat (copy_end - copy_start)) pages1 of
                    None \<Rightarrow> (None, pages1)
                  | Some pages2 \<Rightarrow>
                      load_pages refuse flags segment_bytes seg_file_start seg_file_end page_end (page + PAGE_SIZE) pages2)
               else load_pages refuse flags segment_bytes seg_file_start seg_file_end page_end (page + PAGE_SIZE) pages1)
      else (elf_ok (), pages))"
  by pat_completeness auto
termination
proof (relation "measure (\<lambda>(_, _, _, _, _, page_end, page, _). unat page_end - unat page)")
  have less: "unat page_end - unat (page + PAGE_SIZE) < unat page_end - unat page"
    if "page < page_end" "\<not> 2 ^ 64 \<le> unat page + unat PAGE_SIZE" for page page_end :: u64
    using that unat_add_nowrap [of page PAGE_SIZE] by (simp add: word_less_nat_alt PAGE_SIZE_def)
qed (auto simp: less_diff_conv word_less_nat_alt unat_add_nowrap PAGE_SIZE_def)

declare load_pages.simps [simp del]

definition segment_flags_of :: "program_header \<Rightarrow> segment_flags" where
  "segment_flags_of ph =
     \<lparr>sf_read = (p_flags ph AND PF_R \<noteq> 0), sf_write = (p_flags ph AND PF_W \<noteq> 0),
      sf_execute = (p_flags ph AND PF_X \<noteq> 0)\<rparr>"

definition load_segment ::
  "'e loader \<Rightarrow> program_header \<Rightarrow> u8 list \<Rightarrow> mapped_page list \<Rightarrow> ('e, unit) elf_result \<times> mapped_page list" where
  "load_segment refuse ph file_data pages =
     (let vaddr_start = p_vaddr ph; file_off = unat (p_offset ph); file_size = unat (p_filesz ph);
          mem_size = p_memsz ph; out_of_bounds = (elf_err SegmentOutOfBounds, pages) in
      if mem_size < p_filesz ph then out_of_bounds
      else case usize_checked_add file_off file_size of
        None \<Rightarrow> out_of_bounds
      | Some file_end \<Rightarrow>
          if length file_data < file_end then out_of_bounds
          else case checked_add vaddr_start mem_size of
            None \<Rightarrow> out_of_bounds
          | Some mem_end \<Rightarrow>
              (case align_up mem_end PAGE_SIZE of
                 None \<Rightarrow> out_of_bounds
               | Some page_end \<Rightarrow>
                   (case slice_get file_data file_off file_end of
                      None \<Rightarrow> (None, pages)
                    | Some segment_bytes \<Rightarrow>
                        (case checked_add vaddr_start (p_filesz ph) of
                           None \<Rightarrow> out_of_bounds
                         | Some seg_file_end \<Rightarrow>
                             load_pages refuse (segment_flags_of ph) segment_bytes vaddr_start seg_file_end page_end
                               (align_down vaddr_start PAGE_SIZE) pages))))"

fun load_headers ::
  "'e loader \<Rightarrow> u8 list \<Rightarrow> u64 \<Rightarrow> nat list \<Rightarrow> u64 \<Rightarrow> nat \<Rightarrow> mapped_page list
     \<Rightarrow> ('e, u64 \<times> nat) elf_result \<times> mapped_page list" where
  "load_headers refuse data phoff [] highest_addr loadable_segments pages = (elf_ok (highest_addr, loadable_segments), pages)"
| "load_headers refuse data phoff (index # rest) highest_addr loadable_segments pages =
     (case read_program_header data phoff index of
        None \<Rightarrow> (None, pages)
      | Some (Inl e) \<Rightarrow> (Some (Inl e), pages)
      | Some (Inr ph) \<Rightarrow>
          if p_type ph \<noteq> PT_LOAD then load_headers refuse data phoff rest highest_addr loadable_segments pages
          else (case load_segment refuse ph data pages of
            (None, pages1) \<Rightarrow> (None, pages1)
          | (Some (Inl e), pages1) \<Rightarrow> (Some (Inl e), pages1)
          | (Some (Inr _), pages1) \<Rightarrow>
              (case checked_add (p_vaddr ph) (p_memsz ph) of
                 None \<Rightarrow> (elf_err SegmentOutOfBounds, pages1)
               | Some seg_end \<Rightarrow>
                   load_headers refuse data phoff rest (if highest_addr < seg_end then seg_end else highest_addr)
                     (loadable_segments + 1) pages1)))"

definition elf_load :: "'e loader \<Rightarrow> u8 list \<Rightarrow> mapped_page list \<Rightarrow> ('e, loaded_elf) elf_result \<times> mapped_page list" where
  "elf_load refuse data pages =
     (case elf_then (validate_elf64_header data) (\<lambda>_.
           elf_then (or_err (read_u16 data 16) (ParseError ''missing e_type'')) (\<lambda>e_type.
           if e_type \<noteq> ET_EXEC then elf_err (Unsupported ''only ET_EXEC binaries are supported'')
           else
             elf_then (or_err (read_u64 data 24) (ParseError ''missing e_entry'')) (\<lambda>entry_point.
             elf_then (or_err (read_u64 data 32) (ParseError ''missing e_phoff'')) (\<lambda>phoff.
             elf_then (or_err (read_u16 data 56) (ParseError ''missing e_phnum'')) (\<lambda>phnum.
             elf_ok (entry_point, phoff, phnum)))))) of
        None \<Rightarrow> (None, pages)
      | Some (Inl e) \<Rightarrow> (Some (Inl e), pages)
      | Some (Inr (entry_point, phoff, phnum)) \<Rightarrow>
          (case load_headers refuse data phoff [0..<unat phnum] 0 0 pages of
             (None, pages1) \<Rightarrow> (None, pages1)
           | (Some (Inl e), pages1) \<Rightarrow> (Some (Inl e), pages1)
           | (Some (Inr (highest_addr, loadable_segments)), pages1) \<Rightarrow>
               if loadable_segments = 0 then (elf_err (ParseError ''no PT_LOAD segments''), pages1)
               else (elf_ok \<lparr>le_entry_point = entry_point, le_highest_addr = highest_addr\<rparr>, pages1)))"

section \<open>Pages of a segment\<close>

lemma unat_PAGE_SIZE [simp]: "unat PAGE_SIZE = 4096"
  by (simp add: PAGE_SIZE_def)

lemma unat_mask_off: "unat (x AND NOT (PAGE_SIZE - 1)) = unat x - unat x mod 4096"
proof -
  have m: "PAGE_SIZE - 1 = (mask 12 :: u64)" by (simp add: PAGE_SIZE_def mask_eq_exp_minus_1)
  have "x AND NOT (mask 12) = push_bit 12 (drop_bit 12 x)" by (auto simp: bit_eq_iff bit_simps)
  also have "\<dots> = x - take_bit 12 x" using bits_ident [of 12 x] by (metis add_diff_cancel_right')
  finally have "x AND NOT (PAGE_SIZE - 1) = x - take_bit 12 x" unfolding m .
  moreover have t: "unat (take_bit 12 x) = unat x mod 4096" by (simp add: take_bit_eq_mod unat_mod_word)
  moreover have "take_bit 12 x \<le> x" using t by (simp add: word_le_nat_alt)
  ultimately show ?thesis using unat_sub_nowrap [of "take_bit 12 x" x] by simp
qed

lemma align_down_unat: "unat (align_down x PAGE_SIZE) = unat x - unat x mod 4096"
  by (simp add: align_down_def unat_mask_off)

lemma align_up_unat:
  assumes "align_up x PAGE_SIZE = Some y"
  shows "unat y = (unat x + 4095) - (unat x + 4095) mod 4096" "4096 dvd unat y" "unat x \<le> unat y"
proof -
  have "unat (PAGE_SIZE - 1) = 4095" by (simp add: PAGE_SIZE_def)
  then show "unat y = (unat x + 4095) - (unat x + 4095) mod 4096"
    using assms by (auto simp: align_up_def unat_mask_off checked_add_Some)
  moreover have "(unat x + 4095) mod 4096 < 4096" by simp
  ultimately show "4096 dvd unat y" "unat x \<le> unat y" by (simp add: minus_mod_eq_mult_div, linarith)
qed

text \<open>The byte that the image of a segment has at an address: from the file, or zero.\<close>

definition segment_byte :: "u8 list \<Rightarrow> u64 \<Rightarrow> nat \<Rightarrow> u8" where
  "segment_byte segment_bytes start a =
     (if unat start \<le> a \<and> a < unat start + length segment_bytes then segment_bytes ! (a - unat start) else 0)"

definition page_image :: "segment_flags \<Rightarrow> u8 list \<Rightarrow> u64 \<Rightarrow> u64 \<Rightarrow> mapped_page" where
  "page_image flags segment_bytes start page =
     \<lparr>mp_vaddr = page, mp_flags = flags, mp_bytes = map (\<lambda>k. segment_byte segment_bytes start (unat page + k)) [0..<4096]\<rparr>"

lemma copied_page:
  fixes page start finish :: u64
  assumes "unat page + 4096 < 2 ^ 64" "unat start + length seg = unat finish"
  defines "cs \<equiv> max page start" and "ce \<equiv> min (page + PAGE_SIZE) finish"
  shows "cs < ce \<Longrightarrow> unat (cs - start) + unat (ce - cs) \<le> length seg \<and> unat (cs - page) + unat (ce - cs) \<le> 4096
      \<and> take (unat (cs - page)) (replicate 4096 0) @ take (unat (ce - cs)) (drop (unat (cs - start)) seg)
          @ drop (unat (cs - page) + unat (ce - cs)) (replicate 4096 0)
        = map (\<lambda>k. segment_byte seg start (unat page + k)) [0..<4096]"
    "\<not> cs < ce \<Longrightarrow> replicate 4096 0 = map (\<lambda>k. segment_byte seg start (unat page + k)) [0..<4096]"
proof -
  have nx: "unat (page + PAGE_SIZE) = unat page + 4096" using assms(1) unat_add_nowrap [of page PAGE_SIZE] by simp
  have c: "unat cs = max (unat page) (unat start)" "unat ce = min (unat page + 4096) (unat finish)"
    using nx by (auto simp: cs_def ce_def max_def min_def word_le_nat_alt)
  have d: "unat (cs - start) = unat cs - unat start" "unat (cs - page) = unat cs - unat page"
    by (auto intro!: unat_sub_nowrap simp: cs_def)
  show "\<not> cs < ce \<Longrightarrow> replicate 4096 0 = map (\<lambda>k. segment_byte seg start (unat page + k)) [0..<4096]"
  proof -
    assume "\<not> cs < ce"
    then have "unat ce \<le> unat cs" by (simp add: word_less_nat_alt)
    then have "segment_byte seg start (unat page + k) = 0" if "k < 4096" for k
      using that c assms(2) by (auto simp: segment_byte_def)
    then show ?thesis by (intro nth_equalityI) simp_all
  qed
  assume lt: "cs < ce"
  then have e: "unat (ce - cs) = unat ce - unat cs" by (intro unat_sub_nowrap) simp
  have l: "unat cs < unat ce" using lt by (simp add: word_less_nat_alt)
  show "unat (cs - start) + unat (ce - cs) \<le> length seg \<and> unat (cs - page) + unat (ce - cs) \<le> 4096
      \<and> take (unat (cs - page)) (replicate 4096 0) @ take (unat (ce - cs)) (drop (unat (cs - start)) seg)
          @ drop (unat (cs - page) + unat (ce - cs)) (replicate 4096 0)
        = map (\<lambda>k. segment_byte seg start (unat page + k)) [0..<4096]"
  proof (intro conjI nth_equalityI)
    show b: "unat (cs - start) + unat (ce - cs) \<le> length seg" "unat (cs - page) + unat (ce - cs) \<le> 4096"
      unfolding d e using c assms(2) l by linarith+
    let ?l = "take (unat (cs - page)) (replicate 4096 0) @ take (unat (ce - cs)) (drop (unat (cs - start)) seg)
          @ drop (unat (cs - page) + unat (ce - cs)) (replicate 4096 0)"
    show "length ?l = length (map (\<lambda>k. segment_byte seg start (unat page + k)) [0..<4096])" using b by simp
    fix k assume "k < length ?l"
    then have k: "k < 4096" using b by simp
    consider "unat page + k < unat cs" | "unat cs \<le> unat page + k" "unat page + k < unat ce" | "unat ce \<le> unat page + k" by linarith
    then have "?l ! k = segment_byte seg start (unat page + k)"
    proof cases
      case 1
      then have "k < unat (cs - page)" "\<not> unat start \<le> unat page + k" using c d by auto
      then show ?thesis using k b by (simp add: segment_byte_def nth_append)
    next
      case 2
      then have "\<not> k < unat (cs - page)" "k - unat (cs - page) < unat (ce - cs)"
        "unat (cs - start) + (k - unat (cs - page)) = unat page + k - unat start" "unat start \<le> unat page + k"
        "unat page + k < unat start + length seg"
        using c d e l assms(2) by linarith+
      then show ?thesis using k b by (simp add: segment_byte_def nth_append)
    next
      case 3
      then have "\<not> k < unat (cs - page)" "\<not> k - unat (cs - page) < unat (ce - cs)"
        "\<not> unat page + k < unat start + length seg"
        using c d e l k assms(2) by linarith+
      then show ?thesis using k b by (simp add: segment_byte_def nth_append)
    qed
    then show "?l ! k = map (\<lambda>k. segment_byte seg start (unat page + k)) [0..<4096] ! k" using k by simp
  qed
qed

lemma load_pages_step:
  assumes "unat page + 4096 < 2 ^ 64" "unat start + length seg = unat finish" "page < page_end"
  shows "load_pages refuse flags seg start finish page_end page pages =
    (case refuse pages page flags of
       Some e \<Rightarrow> (elf_err (Mapping e), pages)
     | None \<Rightarrow> load_pages refuse flags seg start finish page_end (page + PAGE_SIZE) (pages @ [page_image flags seg start page]))"
proof (cases "refuse pages page flags")
  case (Some e)
  then show ?thesis using assms(3) by (subst load_pages.simps) (simp add: map_zeroed_page_def)
next
  case None
  note c = copied_page [OF assms(1,2)]
  show ?thesis
  proof (cases "max page start < min (page + PAGE_SIZE) finish")
    case True
    let ?cs = "max page start" and ?ce = "min (page + PAGE_SIZE) finish"
    have "copy_nonoverlapping seg (unat (?cs - start)) (length pages) (unat (?cs - page)) (unat (?ce - ?cs))
        (pages @ [\<lparr>mp_vaddr = page, mp_flags = flags, mp_bytes = replicate 4096 0\<rparr>]) = Some (pages @ [page_image flags seg start page])"
      using c(1) [OF True] by (simp add: copy_nonoverlapping_def page_image_def del: take_replicate drop_replicate)
    then show ?thesis using assms(1,3) None True
      by (subst load_pages.simps) (simp only: map_zeroed_page_def Let_def, simp)
  next
    case False
    then show ?thesis using assms(1,3) None c(2) [OF False]
      by (subst load_pages.simps) (auto simp: map_zeroed_page_def Let_def page_image_def)
  qed
qed

text \<open>The pages from \<open>page\<close> to \<open>page_end\<close>. \<close>

definition page_run :: "segment_flags \<Rightarrow> u8 list \<Rightarrow> u64 \<Rightarrow> u64 \<Rightarrow> nat \<Rightarrow> mapped_page list" where
  "page_run flags seg start page n = map (\<lambda>k. page_image flags seg start (page + of_nat k * PAGE_SIZE)) [0..<n]"

lemma page_run_Suc: "page_run flags seg start page (Suc n) = page_image flags seg start page # page_run flags seg start (page + PAGE_SIZE) n"
  by (simp add: page_run_def map_upt_Suc algebra_simps del: upt_Suc)

text \<open>
  What a loader should do with a list of pages: offer them to the target in order, and stop at the
  first one that is refused, leaving those before it mapped.
\<close>

fun map_all :: "'e loader \<Rightarrow> mapped_page list \<Rightarrow> mapped_page list \<Rightarrow> 'e option \<times> mapped_page list" where
  "map_all refuse pages [] = (None, pages)"
| "map_all refuse pages (p # ps) =
     (case refuse pages (mp_vaddr p) (mp_flags p) of
        Some r \<Rightarrow> (Some r, pages)
      | None \<Rightarrow> map_all refuse (pages @ [p]) ps)"

definition mapped_as :: "'e option \<times> mapped_page list \<Rightarrow> 'a \<Rightarrow> ('e, 'a) elf_result \<times> mapped_page list" where
  "mapped_as out x = (case out of (Some r, ps) \<Rightarrow> (Some (Inl (Mapping r)), ps) | (None, ps) \<Rightarrow> (Some (Inr x), ps))"

lemma mapped_as_simps [simp]:
  "mapped_as (None, ps) x = (Some (Inr x), ps)" "mapped_as (Some r, ps) x = (Some (Inl (Mapping r)), ps)"
  by (simp_all add: mapped_as_def)

lemma map_all_append:
  "map_all refuse pages (xs @ ys) =
     (case map_all refuse pages xs of (Some r, ps) \<Rightarrow> (Some r, ps) | (None, ps) \<Rightarrow> map_all refuse ps ys)"
  by (induction xs arbitrary: pages) (auto split: option.splits)

lemma map_all_None: "map_all refuse pages xs = (None, ps) \<Longrightarrow> ps = pages @ xs"
proof (induction xs arbitrary: pages)
  case (Cons x xs)
  then show ?case using Cons.IH [of "pages @ [x]"] by (simp split: option.splits)
qed simp

lemma map_all_Some: "map_all refuse pages xs = (Some r, ps) \<Longrightarrow> \<exists>vaddr flags. refuse ps vaddr flags = Some r"
  by (induction xs arbitrary: pages) (auto split: option.splits)

lemma load_pages_exact:
  assumes "unat page_end = unat page + 4096 * n" "unat start + length seg = unat finish"
  shows "load_pages refuse flags seg start finish page_end page pages =
    mapped_as (map_all refuse pages (page_run flags seg start page n)) ()"
  using assms(1)
proof (induction n arbitrary: page pages)
  case 0
  then have "page_end = page" by (simp add: word_unat_eq_iff)
  then show ?case by (subst load_pages.simps) (simp add: elf_ok_def page_run_def)
next
  case (Suc n)
  have lt: "page < page_end" "unat page + 4096 < 2 ^ 64" using Suc.prems unat_lt_pow [of page_end] by (simp_all add: word_less_nat_alt)
  note step = load_pages_step [OF lt(2) assms(2) lt(1), of refuse flags pages]
  have "unat (page + PAGE_SIZE) = unat page + 4096" using lt(2) unat_add_nowrap [of page PAGE_SIZE] by simp
  then have "unat page_end = unat (page + PAGE_SIZE) + 4096 * n" using Suc.prems by simp
  note IH = Suc.IH [OF this, of "pages @ [page_image flags seg start page]"]
  have im: "mp_vaddr (page_image flags seg start page) = page" "mp_flags (page_image flags seg start page) = flags"
    by (simp_all add: page_image_def)
  show ?case
    by (cases "refuse pages page flags") (simp_all add: step page_run_Suc im elf_err_def IH)
qed

section \<open>Segments\<close>

definition segment_data :: "u8 list \<Rightarrow> program_header \<Rightarrow> u8 list" where
  "segment_data data ph = take (unat (p_filesz ph)) (drop (unat (p_offset ph)) data)"

definition segment_pages :: "u8 list \<Rightarrow> program_header \<Rightarrow> mapped_page list" where
  "segment_pages data ph =
     page_run (segment_flags_of ph) (segment_data data ph) (p_vaddr ph) (align_down (p_vaddr ph) PAGE_SIZE)
       ((unat (p_vaddr ph) + unat (p_memsz ph) + 4095) div 4096 - unat (p_vaddr ph) div 4096)"

definition segment_ok :: "u8 list \<Rightarrow> program_header \<Rightarrow> bool" where
  "segment_ok data ph \<longleftrightarrow> unat (p_filesz ph) \<le> unat (p_memsz ph)
     \<and> unat (p_offset ph) + unat (p_filesz ph) \<le> length data
     \<and> unat (p_vaddr ph) + unat (p_memsz ph) + 4095 < 2 ^ 64"

text \<open>What may come out of a call that maps pages: a rejection when \<open>ok\<close> fails, a refusal by the target, or all pages.\<close>

definition mapping_outcome :: "'e loader \<Rightarrow> bool \<Rightarrow> (mapped_page list \<Rightarrow> 'a \<Rightarrow> bool) \<Rightarrow> ('e, 'a) elf_result \<times> mapped_page list \<Rightarrow> bool" where
  "mapping_outcome refuse ok good out \<longleftrightarrow>
     (case out of
        (None, _) \<Rightarrow> False
      | (Some (Inr x), pages') \<Rightarrow> ok \<and> good pages' x
      | (Some (Inl e), pages') \<Rightarrow>
          (case e of Mapping r \<Rightarrow> \<exists>vaddr flags. refuse pages' vaddr flags = Some r | _ \<Rightarrow> \<not> ok))"

lemma mapping_outcome_simps [simp]:
  "\<not> mapping_outcome refuse ok good (None, pages)"
  "mapping_outcome refuse ok good (Some (Inr x), pages) \<longleftrightarrow> ok \<and> good pages x"
  "mapping_outcome refuse ok good (Some (Inl (Mapping r)), pages) \<longleftrightarrow> (\<exists>vaddr flags. refuse pages vaddr flags = Some r)"
  "mapping_outcome refuse ok good (Some (Inl (ParseError m)), pages) \<longleftrightarrow> \<not> ok"
  "mapping_outcome refuse ok good (Some (Inl (Unsupported m)), pages) \<longleftrightarrow> \<not> ok"
  "mapping_outcome refuse ok good (Some (Inl SegmentOutOfBounds), pages) \<longleftrightarrow> \<not> ok"
  by (simp_all add: mapping_outcome_def)

lemma segment_span:
  assumes "unat v + unat m + 4095 < 2 ^ 64"
  shows "\<exists>mem_end page_end. checked_add v m = Some mem_end \<and> align_up mem_end PAGE_SIZE = Some page_end
    \<and> unat page_end = unat (align_down v PAGE_SIZE) + 4096 * ((unat v + unat m + 4095) div 4096 - unat v div 4096)"
proof -
  have one: "unat (PAGE_SIZE - 1) = 4095" by (simp add: PAGE_SIZE_def)
  have me: "checked_add v m = Some (v + m)" "unat (v + m) = unat v + unat m"
    using assms unat_add_nowrap [of v m] by (simp_all add: checked_add_def)
  then obtain y where y: "align_up (v + m) PAGE_SIZE = Some y"
    using assms one by (simp add: align_up_def checked_add_def)
  have "unat y = 4096 * ((unat v + unat m + 4095) div 4096)"
    using align_up_unat(1) [OF y] me(2) by (simp add: minus_mod_eq_mult_div)
  moreover have "unat (align_down v PAGE_SIZE) = 4096 * (unat v div 4096)"
    by (simp add: align_down_unat minus_mod_eq_mult_div)
  moreover have "unat v div 4096 \<le> (unat v + unat m + 4095) div 4096" by (intro div_le_mono) simp
  ultimately show ?thesis using me(1) y by (intro exI [of _ "v + m"] exI [of _ y]) (simp add: algebra_simps)
qed

lemma segment_span_fail:
  assumes "\<not> unat v + unat m + 4095 < 2 ^ 64" "checked_add v m = Some mem_end"
  shows "align_up mem_end PAGE_SIZE = None"
  using assms by (auto simp: align_up_def checked_add_Some checked_add_None PAGE_SIZE_def)

lemma load_segment_exact:
  assumes "length data < 2 ^ 64" "segment_ok data ph"
  shows "load_segment refuse ph data pages = mapped_as (map_all refuse pages (segment_pages data ph)) ()"
proof -
  have ok: "unat (p_filesz ph) \<le> unat (p_memsz ph)" "unat (p_offset ph) + unat (p_filesz ph) \<le> length data"
    "unat (p_vaddr ph) + unat (p_memsz ph) + 4095 < 2 ^ 64" using assms(2) by (simp_all add: segment_ok_def)
  obtain mem_end page_end where e: "checked_add (p_vaddr ph) (p_memsz ph) = Some mem_end" "align_up mem_end PAGE_SIZE = Some page_end"
    "unat page_end = unat (align_down (p_vaddr ph) PAGE_SIZE)
       + 4096 * ((unat (p_vaddr ph) + unat (p_memsz ph) + 4095) div 4096 - unat (p_vaddr ph) div 4096)"
    using segment_span [OF ok(3)] by blast
  have fe: "checked_add (p_vaddr ph) (p_filesz ph) = Some (p_vaddr ph + p_filesz ph)"
    "unat (p_vaddr ph) + length (segment_data data ph) = unat (p_vaddr ph + p_filesz ph)"
    using ok unat_add_nowrap [of "p_vaddr ph" "p_filesz ph"] by (simp_all add: checked_add_def segment_data_def)
  have "load_segment refuse ph data pages = load_pages refuse (segment_flags_of ph) (segment_data data ph) (p_vaddr ph)
      (p_vaddr ph + p_filesz ph) page_end (align_down (p_vaddr ph) PAGE_SIZE) pages"
    using ok assms(1) e(1,2) fe(1)
    by (simp add: load_segment_def Let_def usize_checked_add_def slice_get_def segment_data_def word_less_nat_alt)
  then show ?thesis using load_pages_exact [OF e(3) fe(2)] by (simp add: segment_pages_def)
qed

lemma load_segment_outcome:
  assumes "length data < 2 ^ 64"
  shows "mapping_outcome refuse (segment_ok data ph) (\<lambda>pages' _. pages' = pages @ segment_pages data ph)
    (load_segment refuse ph data pages)"
proof (cases "segment_ok data ph")
  case True
  obtain out ps where m: "map_all refuse pages (segment_pages data ph) = (out, ps)" by fastforce
  show ?thesis unfolding load_segment_exact [OF assms True] m
    using map_all_None [of refuse pages "segment_pages data ph" ps] map_all_Some [of refuse pages "segment_pages data ph" _ ps] m True
    by (cases out) auto
next
  case False
  then show ?thesis
    using segment_span_fail [of "p_vaddr ph" "p_memsz ph"]
    by (auto simp: load_segment_def Let_def elf_err_def segment_ok_def word_less_nat_alt usize_checked_add_def slice_get_def
          checked_add_None checked_add_Some split: option.splits)
qed

section \<open>Headers of a valid file\<close>

definition field :: "nat \<Rightarrow> u8 list \<Rightarrow> nat \<Rightarrow> 'a::len word" where
  "field n data offset = from_le_bytes (take n (drop offset data))"

lemma unat_of_nat_u64: "n < 2 ^ 64 \<Longrightarrow> unat (of_nat n :: u64) = n"
  by (simp add: unat_of_nat)

lemma read_le_field:
  "length data < 2 ^ 64 \<Longrightarrow> read_le n data offset = (if offset + n \<le> length data then Some (field n data offset) else None)"
  by (auto simp: read_le_def usize_checked_add_def slice_get_def field_def)

definition header_at :: "u8 list \<Rightarrow> nat \<Rightarrow> program_header" where
  "header_at data base =
     \<lparr>p_type = field 4 data base, p_flags = field 4 data (base + 4), p_offset = field 8 data (base + 8),
      p_vaddr = field 8 data (base + 16), p_filesz = field 8 data (base + 32), p_memsz = field 8 data (base + 40)\<rparr>"

lemma elf_then_simps [simp]:
  "elf_then (elf_ok x) f = f x" "elf_then (elf_err e) f = elf_err e" "elf_then None f = None"
  "or_err (Some x) e' = elf_ok x" "or_err None e' = elf_err e'"
  by (simp_all add: elf_then_def elf_ok_def elf_err_def or_err_def)

lemma elf_case_simps [simp]:
  "(case elf_ok x of None \<Rightarrow> a | Some y \<Rightarrow> f y) = f (Inr x)" "(case elf_err e of None \<Rightarrow> a | Some y \<Rightarrow> f y) = f (Inl e)"
  by (simp_all add: elf_ok_def elf_err_def)

lemma read_program_header_at:
  assumes "length data < 2 ^ 64" "unat phoff + index * 56 + 56 \<le> length data"
  shows "read_program_header data phoff index = elf_ok (header_at data (unat phoff + index * 56))"
proof -
  have i: "unat (of_nat index :: u64) = index" using assms by (intro unat_of_nat_u64) simp
  have m: "checked_mul (of_nat index) (of_nat ELF64_PROGRAM_HEADER_BYTES :: u64) = Some (of_nat (index * 56))"
    using assms i by (simp add: checked_mul_def ELF64_PROGRAM_HEADER_BYTES_def)
  have u: "unat (of_nat (index * 56) :: u64) = index * 56" using assms by (intro unat_of_nat_u64) simp
  have a: "checked_add phoff (of_nat (index * 56)) = Some (phoff + of_nat (index * 56))"
    "unat (phoff + of_nat (index * 56)) = unat phoff + index * 56"
    using assms u unat_add_nowrap [of phoff "of_nat (index * 56)"] by (simp_all add: checked_add_def del: of_nat_mult)
  have ua: "(usize_add b k :: ('e, nat) elf_result) = elf_ok (b + k)" if "b + k < 2 ^ 64" for b k
    using that by (simp add: usize_add_def usize_checked_add_def elf_ok_def)
  obtain e where e: "Option.bind (checked_mul (of_nat index) (of_nat ELF64_PROGRAM_HEADER_BYTES)) (checked_add phoff) = Some e"
    and b: "unat e = unat phoff + index * 56" using m a by (simp del: of_nat_mult)
  show ?thesis
    using assms unfolding read_program_header_def Let_def e
    by (simp add: b ua read_u32_def read_u64_def read_le_field header_at_def)
qed

definition e_phoff :: "u8 list \<Rightarrow> u64" where "e_phoff data = field 8 data 32"
definition e_phnum :: "u8 list \<Rightarrow> u16" where "e_phnum data = field 2 data 56"
definition e_phentsize :: "u8 list \<Rightarrow> u16" where "e_phentsize data = field 2 data 54"

definition elf_header_ok :: "u8 list \<Rightarrow> bool" where
  "elf_header_ok data \<longleftrightarrow> 64 \<le> length data \<and> take 4 data = [0x7f, 0x45, 0x4c, 0x46]
     \<and> data ! 4 = 2 \<and> data ! 5 = 1 \<and> data ! 6 = 1 \<and> (field 2 data 52 :: u16) = 64
     \<and> (e_phnum data \<noteq> 0 \<longrightarrow> e_phentsize data = 56)
     \<and> unat (e_phoff data) + unat (e_phnum data) * unat (e_phentsize data) \<le> length data"

lemma validate_iff:
  assumes "length data < 2 ^ 64"
  shows "if elf_header_ok data then validate_elf64_header data = elf_ok ()
    else \<exists>e. validate_elf64_header data = elf_err e \<and> (\<forall>r. e \<noteq> Mapping r)"
proof -
  have w: "unat (x :: u16) = 64 \<longleftrightarrow> x = 64" "unat x = 56 \<longleftrightarrow> x = 56" for x
    by (simp_all add: word_unat_eq_iff)
  have prod: "unat (e_phnum data) * unat (e_phentsize data) < 2 ^ 64"
  proof -
    have "unat (e_phnum data) * unat (e_phentsize data) \<le> 2 ^ 16 * 2 ^ 16"
      using unat_lt_pow [of "e_phnum data"] unat_lt_pow [of "e_phentsize data"] by (intro mult_le_mono) simp_all
    then show ?thesis by simp
  qed
  let ?tb = "ucast (e_phnum data) * ucast (e_phentsize data) :: u64"
  have u: "unat (ucast (e_phnum data) :: u64) = unat (e_phnum data)" "unat (ucast (e_phentsize data) :: u64) = unat (e_phentsize data)"
    by (simp_all add: unat_ucast_up)
  then have tb: "checked_mul (ucast (e_phnum data)) (ucast (e_phentsize data)) = Some ?tb"
    "unat ?tb = unat (e_phnum data) * unat (e_phentsize data)"
    using prod unat_mult_nowrap [of "ucast (e_phnum data) :: u64" "ucast (e_phentsize data)"] by (simp_all add: checked_mul_def)
  have len: "unat (of_nat (length data) :: u64) = length data" by (rule unat_of_nat_u64 [OF assms])
  have table: "if unat (e_phoff data) + unat ?tb \<le> length data
      then \<exists>te. checked_add (e_phoff data) ?tb = Some te \<and> \<not> of_nat (length data) < te
      else (case checked_add (e_phoff data) ?tb of None \<Rightarrow> True | Some te \<Rightarrow> of_nat (length data) < te)"
    using assms len by (auto simp: checked_add_Some checked_add_None word_less_nat_alt not_less split: option.splits)
  show ?thesis
  proof (cases "64 \<le> length data \<and> take 4 data = [0x7f, 0x45, 0x4c, 0x46]")
    case False
    then have "validate_elf64_header data = elf_err (ParseError ''truncated or invalid ELF magic'')"
      by (auto simp: validate_elf64_header_def ELF64_HEADER_BYTES_def slice_get_def)
    then show ?thesis using False by (auto simp: elf_header_ok_def)
  next
    case True
    have run: "validate_elf64_header data =
       (if data ! 4 \<noteq> 2 \<or> data ! 5 \<noteq> 1 \<or> data ! 6 \<noteq> 1 then elf_err (Unsupported ''only little-endian ELF64 version 1 is supported'')
        else if (field 2 data 52 :: u16) \<noteq> 64 \<or> e_phnum data \<noteq> 0 \<and> e_phentsize data \<noteq> 56
        then elf_err (ParseError ''invalid ELF64 header geometry'')
        else elf_then (or_err (checked_add (e_phoff data) ?tb) SegmentOutOfBounds) (\<lambda>te.
          if of_nat (length data) < te then elf_err SegmentOutOfBounds else elf_ok ()))"
      using True assms tb(1)
      by (simp add: validate_elf64_header_def ELF64_HEADER_BYTES_def ELF64_PROGRAM_HEADER_BYTES_def slice_get_def byte_at_def Let_def
            read_u16_def read_u64_def read_le_field w e_phnum_def e_phentsize_def e_phoff_def)
    show ?thesis
      using table tb(2) True unfolding run elf_header_ok_def
      by (auto split: if_splits option.splits)
  qed
qed

section \<open>Loading a file\<close>

definition loadable :: "u8 list \<Rightarrow> u64 \<Rightarrow> nat list \<Rightarrow> program_header list" where
  "loadable data phoff is = filter (\<lambda>ph. p_type ph = PT_LOAD) (map (\<lambda>i. header_at data (unat phoff + i * 56)) is)"

definition segment_end :: "program_header \<Rightarrow> u64" where
  "segment_end ph = p_vaddr ph + p_memsz ph"

lemma load_headers_outcome:
  fixes refuse :: "'e loader"
  assumes len: "length data < 2 ^ 64" and "\<forall>i \<in> set is. unat phoff + i * 56 + 56 \<le> length data"
  shows "mapping_outcome refuse (\<forall>ph \<in> set (loadable data phoff is). segment_ok data ph)
    (\<lambda>pages' (h', c'). pages' = pages @ concat (map (segment_pages data) (loadable data phoff is))
       \<and> c' = c + length (loadable data phoff is) \<and> h' = foldl (\<lambda>h ph. max h (segment_end ph)) h (loadable data phoff is))
    (load_headers refuse data phoff is h c pages)"
  using assms(2)
proof (induction "is" arbitrary: h c pages)
  case Nil
  then show ?case by (simp add: loadable_def elf_ok_def)
next
  case (Cons i rest)
  let ?ph = "header_at data (unat phoff + i * 56)"
  have rd: "(read_program_header data phoff i :: ('e, program_header) elf_result) = Some (Inr ?ph)"
    using read_program_header_at [OF len, of phoff i] Cons.prems by (simp add: elf_ok_def)
  show ?case
  proof (cases "p_type ?ph = PT_LOAD")
    case False
    then show ?thesis using Cons.IH Cons.prems rd by (simp add: loadable_def)
  next
    case True
    then have seg: "loadable data phoff (i # rest) = ?ph # loadable data phoff rest" by (simp add: loadable_def)
    obtain res pages1 where ls: "load_segment refuse ?ph data pages = (res, pages1)" by fastforce
    note out = load_segment_outcome [OF len, of refuse ?ph pages, unfolded ls]
    consider "res = None" | e where "res = Some (Inl e)" | "res = Some (Inr ())" by (cases res) (auto elim: sumE)
    then show ?thesis
    proof cases
      case (2 e)
      then show ?thesis using out rd True ls unfolding seg by (cases e) auto
    next
      case 3
      then have ok: "segment_ok data ?ph" "pages1 = pages @ segment_pages data ?ph" using out by simp_all
      then have "checked_add (p_vaddr ?ph) (p_memsz ?ph) = Some (segment_end ?ph)"
        by (simp add: segment_ok_def checked_add_def segment_end_def)
      moreover have "(if h < segment_end ?ph then segment_end ?ph else h) = max h (segment_end ?ph)" by (auto simp: max_def)
      ultimately show ?thesis
        using Cons.IH [of pages1 "c + 1" "max h (segment_end ?ph)"] Cons.prems rd True ls 3 ok unfolding seg by simp
    qed (use out in simp)
  qed
qed

lemma load_headers_exact:
  fixes refuse :: "'e loader"
  assumes len: "length data < 2 ^ 64" and "\<forall>i \<in> set is. unat phoff + i * 56 + 56 \<le> length data"
    and "\<forall>ph \<in> set (loadable data phoff is). segment_ok data ph"
  shows "load_headers refuse data phoff is h c pages =
    mapped_as (map_all refuse pages (concat (map (segment_pages data) (loadable data phoff is))))
      (foldl (\<lambda>h ph. max h (segment_end ph)) h (loadable data phoff is), c + length (loadable data phoff is))"
  using assms(2,3)
proof (induction "is" arbitrary: h c pages)
  case Nil
  then show ?case by (simp add: loadable_def elf_ok_def)
next
  case (Cons i rest)
  let ?ph = "header_at data (unat phoff + i * 56)"
  have rd: "(read_program_header data phoff i :: ('e, program_header) elf_result) = Some (Inr ?ph)"
    using read_program_header_at [OF len, of phoff i] Cons.prems by (simp add: elf_ok_def)
  show ?case
  proof (cases "p_type ?ph = PT_LOAD")
    case False
    then show ?thesis using Cons.IH Cons.prems rd by (simp add: loadable_def)
  next
    case True
    then have seg: "loadable data phoff (i # rest) = ?ph # loadable data phoff rest" by (simp add: loadable_def)
    have ok: "segment_ok data ?ph" using Cons.prems(2) unfolding seg by simp
    then have e: "checked_add (p_vaddr ?ph) (p_memsz ?ph) = Some (segment_end ?ph)"
      by (simp add: segment_ok_def checked_add_def segment_end_def)
    have mx: "(if h < segment_end ?ph then segment_end ?ph else h) = max h (segment_end ?ph)" by (auto simp: max_def)
    obtain out ps where m: "map_all refuse pages (segment_pages data ?ph) = (out, ps)" by fastforce
    have IH: "load_headers refuse data phoff rest h' c' ps' =
      mapped_as (map_all refuse ps' (concat (map (segment_pages data) (loadable data phoff rest))))
        (foldl (\<lambda>h ph. max h (segment_end ph)) h' (loadable data phoff rest), c' + length (loadable data phoff rest))" for h' c' ps'
      using Cons.prems unfolding seg by (intro Cons.IH) simp_all
    show ?thesis unfolding seg
      using rd True load_segment_exact [OF len ok, of refuse pages] m e mx IH
      by (cases out) (simp_all add: map_all_append)
  qed
qed

text \<open>The loadable segments of a file, and the files that are acceptable.\<close>

definition segments :: "u8 list \<Rightarrow> program_header list" where
  "segments data = loadable data (e_phoff data) [0..<unat (e_phnum data)]"

definition acceptable :: "u8 list \<Rightarrow> bool" where
  "acceptable data \<longleftrightarrow> elf_header_ok data \<and> (field 2 data 16 :: u16) = ET_EXEC \<and> segments data \<noteq> []
     \<and> (\<forall>ph \<in> set (segments data). segment_ok data ph)"

lemma headers_in_file:
  assumes "elf_header_ok data" "i < unat (e_phnum data)"
  shows "unat (e_phoff data) + i * 56 + 56 \<le> length data"
proof -
  have "e_phnum data \<noteq> 0" using assms(2) by auto
  then have "unat (e_phoff data) + unat (e_phnum data) * 56 \<le> length data" using assms(1) by (auto simp: elf_header_ok_def)
  moreover have "(i + 1) * 56 \<le> unat (e_phnum data) * 56" using assms(2) by (intro mult_le_mono1) simp
  ultimately show ?thesis by simp
qed

lemma elf_load_outcome:
  fixes refuse :: "'e loader"
  assumes len: "length data < 2 ^ 64"
  shows "mapping_outcome refuse (acceptable data)
    (\<lambda>pages' r. pages' = pages @ concat (map (segment_pages data) (segments data))
       \<and> r = \<lparr>le_entry_point = field 8 data 24, le_highest_addr = foldl (\<lambda>h ph. max h (segment_end ph)) 0 (segments data)\<rparr>)
    (elf_load refuse data pages)"
proof (cases "elf_header_ok data")
  case False
  then obtain e where "(validate_elf64_header data :: ('e, unit) elf_result) = elf_err e" "\<forall>r. e \<noteq> Mapping r"
    using validate_iff [OF len] by auto
  moreover from this have "elf_load refuse data pages = (Some (Inl e), pages)"
    by (simp add: elf_load_def)
  ultimately show ?thesis using False by (cases e) (simp_all add: acceptable_def)
next
  case True
  then have v: "(validate_elf64_header data :: ('e, unit) elf_result) = elf_ok ()" and l: "64 \<le> length data"
    using validate_iff [OF len, where 'a = 'e] by (simp_all add: elf_header_ok_def)
  show ?thesis
  proof (cases "(field 2 data 16 :: u16) = ET_EXEC")
    case False
    then have "elf_load refuse data pages = (Some (Inl (Unsupported ''only ET_EXEC binaries are supported'')), pages)"
      using v l len by (simp add: elf_load_def read_u16_def read_le_field)
    then show ?thesis using False by (simp add: acceptable_def)
  next
    case exec: True
    obtain res pages1 where lh: "load_headers refuse data (e_phoff data) [0..<unat (e_phnum data)] 0 0 pages = (res, pages1)" by fastforce
    have load: "elf_load refuse data pages =
      (case res of None \<Rightarrow> (None, pages1) | Some (Inl e) \<Rightarrow> (Some (Inl e), pages1)
       | Some (Inr (h, n)) \<Rightarrow> if n = 0 then (elf_err (ParseError ''no PT_LOAD segments''), pages1)
           else (elf_ok \<lparr>le_entry_point = field 8 data 24, le_highest_addr = h\<rparr>, pages1))"
      using v l len exec lh
      by (simp add: elf_load_def read_u16_def read_u64_def read_le_field e_phoff_def e_phnum_def split: option.splits sum.splits)
    have out: "mapping_outcome refuse (\<forall>ph \<in> set (segments data). segment_ok data ph)
      (\<lambda>pages' (h', c'). pages' = pages @ concat (map (segment_pages data) (segments data))
         \<and> c' = length (segments data) \<and> h' = foldl (\<lambda>h ph. max h (segment_end ph)) 0 (segments data)) (res, pages1)"
      using load_headers_outcome [OF len, of "[0..<unat (e_phnum data)]" "e_phoff data" refuse pages 0 0] headers_in_file [OF True] lh
      by (simp add: segments_def)
    consider "res = None" | e where "res = Some (Inl e)" | h n where "res = Some (Inr (h, n))" by (cases res) (auto elim: sumE)
    then show ?thesis
    proof cases
      case (2 e)
      then show ?thesis using out load True exec by (cases e) (auto simp: acceptable_def)
    next
      case (3 h n)
      then show ?thesis using out load True exec by (auto simp: acceptable_def elf_ok_def elf_err_def)
    qed (use out in simp)
  qed
qed

lemma elf_load_exact:
  fixes refuse :: "'e loader"
  assumes len: "length data < 2 ^ 64" and acc: "acceptable data"
  shows "elf_load refuse data pages =
    mapped_as (map_all refuse pages (concat (map (segment_pages data) (segments data))))
      \<lparr>le_entry_point = field 8 data 24, le_highest_addr = foldl (\<lambda>h ph. max h (segment_end ph)) 0 (segments data)\<rparr>"
proof -
  have hdr: "elf_header_ok data" and exec: "(field 2 data 16 :: u16) = ET_EXEC" and ne: "segments data \<noteq> []"
    and ok: "\<forall>ph \<in> set (segments data). segment_ok data ph" using acc by (auto simp: acceptable_def)
  have v: "(validate_elf64_header data :: ('e, unit) elf_result) = elf_ok ()" and l: "64 \<le> length data"
    using hdr validate_iff [OF len, where 'a = 'e] by (simp_all add: elf_header_ok_def)
  let ?out = "map_all refuse pages (concat (map (segment_pages data) (segments data)))"
  have lh: "load_headers refuse data (e_phoff data) [0..<unat (e_phnum data)] 0 0 pages =
      mapped_as ?out (foldl (\<lambda>h ph. max h (segment_end ph)) 0 (segments data), length (segments data))"
    using load_headers_exact [OF len, of "[0..<unat (e_phnum data)]" "e_phoff data" refuse 0 0 pages] headers_in_file [OF hdr] ok
    by (simp add: segments_def)
  obtain res pages1 where out: "load_headers refuse data (e_phoff data) [0..<unat (e_phnum data)] 0 0 pages = (res, pages1)" by fastforce
  have load: "elf_load refuse data pages =
    (case res of None \<Rightarrow> (None, pages1) | Some (Inl e) \<Rightarrow> (Some (Inl e), pages1)
     | Some (Inr (h, n)) \<Rightarrow> if n = 0 then (elf_err (ParseError ''no PT_LOAD segments''), pages1)
         else (elf_ok \<lparr>le_entry_point = field 8 data 24, le_highest_addr = h\<rparr>, pages1))"
    using v l len exec out
    by (simp add: elf_load_def read_u16_def read_u64_def read_le_field e_phoff_def e_phnum_def split: option.splits sum.splits)
  obtain r ps where o: "?out = (r, ps)" by fastforce
  show ?thesis unfolding o load using out lh [unfolded o] ne by (cases r) (auto simp: elf_ok_def)
qed

section \<open>The image in memory\<close>

lemma foldl_max: "foldl (\<lambda>h x. max h (f x)) h xs = Max (insert h (f ` set xs))"
proof (induction xs arbitrary: h)
  case (Cons x xs)
  have "Max (insert (max h (f x)) (f ` set xs)) = Max (insert h (insert (f x) (f ` set xs)))"
    by (cases "xs = []") (simp_all add: max.assoc)
  then show ?case using Cons by simp
qed simp

lemma highest_is_max:
  assumes "segments data \<noteq> []"
  shows "foldl (\<lambda>h ph. max h (segment_end ph)) 0 (segments data) = Max (segment_end ` set (segments data))"
  unfolding foldl_max using assms by (simp add: max_def)

text \<open>Every address of an accepted segment lies in one of its pages, with the byte and the permissions of the file.\<close>

definition holds_byte :: "mapped_page list \<Rightarrow> segment_flags \<Rightarrow> nat \<Rightarrow> u8 \<Rightarrow> bool" where
  "holds_byte pages flags a b \<longleftrightarrow> (\<exists>p \<in> set pages. unat (mp_vaddr p) \<le> a \<and> a - unat (mp_vaddr p) < length (mp_bytes p)
     \<and> mp_flags p = flags \<and> mp_bytes p ! (a - unat (mp_vaddr p)) = b)"

lemma segment_covered:
  assumes ok: "segment_ok data ph" and a: "unat (p_vaddr ph) \<le> a" "a < unat (p_vaddr ph) + unat (p_memsz ph)"
  shows "holds_byte (segment_pages data ph) (segment_flags_of ph) a
    (if a - unat (p_vaddr ph) < unat (p_filesz ph) then data ! (unat (p_offset ph) + (a - unat (p_vaddr ph))) else 0)"
proof -
  let ?v = "unat (p_vaddr ph)" and ?m = "unat (p_memsz ph)"
  define k where "k = a div 4096 - ?v div 4096"
  let ?page = "align_down (p_vaddr ph) PAGE_SIZE + of_nat k * PAGE_SIZE"
  have vk: "?v div 4096 + k = a div 4096" using div_le_mono [OF a(1), of 4096] by (simp add: k_def)
  have "a div 4096 < (?v + ?m + 4095) div 4096"
  proof -
    have "a div 4096 + 1 = (a + 4096) div 4096" by simp
    also have "\<dots> \<le> (?v + ?m + 4095) div 4096" using a(2) by (intro div_le_mono) simp
    finally show ?thesis by simp
  qed
  then have k: "k < (?v + ?m + 4095) div 4096 - ?v div 4096" using vk by simp
  have a64: "a < 2 ^ 64" using a(2) ok by (simp add: segment_ok_def)
  have base: "unat (align_down (p_vaddr ph) PAGE_SIZE) = 4096 * (?v div 4096)" by (simp add: align_down_unat minus_mod_eq_mult_div)
  have tot: "4096 * (?v div 4096) + k * 4096 = 4096 * (a div 4096)" using vk by (simp add: algebra_simps flip: vk)
  have fit: "4096 * (a div 4096) \<le> a" by simp
  have uk: "unat (of_nat k * PAGE_SIZE) = k * 4096"
  proof -
    have "k * 4096 < 2 ^ 64" using tot fit a64 by linarith
    then show ?thesis using unat_of_nat_u64 [of k] unat_mult_nowrap [of "of_nat k" PAGE_SIZE] by simp
  qed
  have page: "unat ?page = 4096 * (a div 4096)"
    using base uk tot fit a64 unat_add_nowrap [of "align_down (p_vaddr ph) PAGE_SIZE" "of_nat k * PAGE_SIZE"] by simp
  have rest: "a - unat ?page = a mod 4096" "unat ?page + a mod 4096 = a" using page by (simp_all add: minus_mult_div_eq_mod)
  have byte: "segment_byte (segment_data data ph) (p_vaddr ph) a =
      (if a - ?v < unat (p_filesz ph) then data ! (unat (p_offset ph) + (a - ?v)) else 0)"
    using ok a(1) by (auto simp: segment_byte_def segment_data_def segment_ok_def)
  let ?img = "page_image (segment_flags_of ph) (segment_data data ph) (p_vaddr ph) ?page"
  have "?img \<in> set (segment_pages data ph)" using k by (auto simp: segment_pages_def page_run_def)
  moreover have "mp_bytes ?img ! (a - unat ?page) = segment_byte (segment_data data ph) (p_vaddr ph) a"
    using rest by (simp add: page_image_def)
  moreover have "unat (mp_vaddr ?img) \<le> a" "a - unat (mp_vaddr ?img) < length (mp_bytes ?img)" "mp_flags ?img = segment_flags_of ph"
    "mp_vaddr ?img = ?page" using rest page fit by (simp_all add: page_image_def)
  ultimately show ?thesis unfolding holds_byte_def byte [symmetric] by (intro bexI [of _ ?img]) simp_all
qed

lemma holds_byte_mono: "holds_byte pages flags a b \<Longrightarrow> set pages \<subseteq> set pages' \<Longrightarrow> holds_byte pages' flags a b"
  by (auto simp: holds_byte_def)

section \<open>Properties\<close>

text \<open>A file with one segment of four bytes, to be loaded at the address with the given bytes.\<close>

definition sample_elf :: "u8 list \<Rightarrow> u8 list" where
  "sample_elf vaddr = [0x7f, 0x45, 0x4c, 0x46, 2, 1, 1, 0] @ replicate 8 0 @ [2, 0, 0x3e, 0] @ replicate 4 0
     @ vaddr @ [64, 0, 0, 0, 0, 0, 0, 0] @ replicate 12 0 @ [64, 0, 56, 0, 1, 0] @ replicate 6 0
     @ [1, 0, 0, 0, 5, 0, 0, 0] @ [120, 0, 0, 0, 0, 0, 0, 0] @ vaddr @ replicate 8 0
     @ [4, 0, 0, 0, 0, 0, 0, 0] @ [8, 0, 0, 0, 0, 0, 0, 0] @ replicate 8 0 @ [1, 2, 3, 4]"

definition sample_header :: "u64 \<Rightarrow> program_header" where
  "sample_header v = \<lparr>p_type = 1, p_flags = 5, p_offset = 120, p_vaddr = v, p_filesz = 4, p_memsz = 8\<rparr>"

abbreviation low_address :: "u8 list" where
  "low_address \<equiv> [0, 0, 0x40, 0, 0, 0, 0, 0]"

abbreviation kernel_address :: "u8 list" where
  "kernel_address \<equiv> [0, 0, 0, 0, 0, 0x80, 0xff, 0xff]"

lemma sample_low:
  "elf_header_ok (sample_elf low_address)" "segments (sample_elf low_address) = [sample_header 0x400000]"
  "length (sample_elf low_address) = 124" "(field 2 (sample_elf low_address) 16 :: u16) = ET_EXEC"
  "(field 8 (sample_elf low_address) 24 :: u64) = 0x400000"
  by code_simp+

lemma sample_kernel:
  "elf_header_ok (sample_elf kernel_address)" "segments (sample_elf kernel_address) = [sample_header 0xffff800000000000]"
  "(field 2 (sample_elf kernel_address) 16 :: u16) = ET_EXEC"
  by code_simp+

lemma samples_acceptable: "acceptable (sample_elf low_address)" "acceptable (sample_elf kernel_address)"
  by (simp_all add: acceptable_def sample_low sample_kernel sample_header_def segment_ok_def) (simp add: sample_elf_def)

lemma elf_load_accepts:
  fixes refuse :: "'e loader"
  assumes "length data < 2 ^ 64" "acceptable data" "\<And>pages vaddr flags. refuse pages vaddr flags = None"
  shows "\<exists>r pages'. elf_load refuse data pages = (Some (Inr r), pages')"
proof -
  obtain res pages' where l: "elf_load refuse data pages = (res, pages')" by fastforce
  note out = elf_load_outcome [OF assms(1), of refuse pages, unfolded l]
  consider "res = None" | e where "res = Some (Inl e)" | r where "res = Some (Inr r)" by (cases res) (auto elim: sumE)
  then show ?thesis
  proof cases
    case (2 e)
    then show ?thesis using out assms(2,3) by (cases e) auto
  qed (use out l in simp_all)
qed

text \<open>
  C7: A successful load leaves exactly the pages of the loadable segments, in the order of the program
  headers. Every address of such a segment holds the byte of the file that belongs there, or zero
  behind the part that the file provides, in a page with the permissions of the segment. The entry
  point is that of the header and the highest address is the greatest end of a segment.
\<close>

theorem elf_load_image:
  assumes "length data < 2 ^ 63" "elf_load refuse data pages = (Some (Inr r), pages')"
  shows "pages' = pages @ concat (map (segment_pages data) (segments data))
    \<and> le_entry_point r = field 8 data 24 \<and> le_highest_addr r = Max (segment_end ` set (segments data))
    \<and> (ph \<in> set (segments data) \<longrightarrow> segment_ok data ph
        \<and> (unat (p_vaddr ph) \<le> a \<and> a < unat (p_vaddr ph) + unat (p_memsz ph) \<longrightarrow>
             holds_byte pages' (segment_flags_of ph) a
               (if a - unat (p_vaddr ph) < unat (p_filesz ph) then data ! (unat (p_offset ph) + (a - unat (p_vaddr ph))) else 0)))"
proof -
  have acc: "acceptable data" and p: "pages' = pages @ concat (map (segment_pages data) (segments data))"
    and r: "r = \<lparr>le_entry_point = field 8 data 24, le_highest_addr = foldl (\<lambda>h ph. max h (segment_end ph)) 0 (segments data)\<rparr>"
    using elf_load_outcome [of data refuse pages] assms by simp_all
  have "le_highest_addr r = Max (segment_end ` set (segments data))"
    unfolding r using highest_is_max acc by (simp add: acceptable_def)
  moreover have "holds_byte pages' (segment_flags_of ph) a
      (if a - unat (p_vaddr ph) < unat (p_filesz ph) then data ! (unat (p_offset ph) + (a - unat (p_vaddr ph))) else 0)"
    if "ph \<in> set (segments data)" "unat (p_vaddr ph) \<le> a" "a < unat (p_vaddr ph) + unat (p_memsz ph)"
  proof (rule holds_byte_mono [OF segment_covered [OF _ that(2,3)]])
    show "segment_ok data ph" using acc that(1) by (simp add: acceptable_def)
    show "set (segment_pages data ph) \<subseteq> set pages'" using that(1) by (auto simp: p)
  qed
  ultimately show ?thesis using p r acc by (simp add: acceptable_def)
qed

theorem elf_load_image_witness:
  "\<exists>r pages'. elf_load (\<lambda>_ _ _. None :: unit option) (sample_elf low_address) [] = (Some (Inr r), pages')
     \<and> le_entry_point r = 0x400000
     \<and> holds_byte pages' \<lparr>sf_read = True, sf_write = False, sf_execute = True\<rparr> 0x400002 3
     \<and> holds_byte pages' \<lparr>sf_read = True, sf_write = False, sf_execute = True\<rparr> 0x400006 0"
proof -
  have len: "length (sample_elf low_address) < 2 ^ 63" using sample_low(3) by simp
  obtain r pages' where l: "elf_load (\<lambda>_ _ _. None :: unit option) (sample_elf low_address) [] = (Some (Inr r), pages')"
    using elf_load_accepts [of "sample_elf low_address" "\<lambda>_ _ _. None :: unit option" "[]"] samples_acceptable(1) len by auto
  have fl: "segment_flags_of (sample_header 0x400000) = \<lparr>sf_read = True, sf_write = False, sf_execute = True\<rparr>" by code_simp
  have b: "sample_elf low_address ! 122 = 3" by code_simp
  show ?thesis
    using l elf_load_image [OF len l, where ph = "sample_header 0x400000" and a = "0x400002"] elf_load_image [OF len l, where ph = "sample_header 0x400000" and a = "0x400006"]
      fl b by (auto simp: sample_low sample_header_def)
qed

text \<open>
  C8: Loading never panics and never copies outside the file or a page, whatever the file holds and
  whatever the target maps or refuses. An acceptable file has a valid header whose table lies in the
  file, type executable, at least one loadable segment, and each of those inside the file, with
  a memory size no less than its file size and an end that does not wrap. For an acceptable file
  the pages of its segments are offered to the target in order: the load succeeds if none is
  refused, and otherwise stops at the first refused one, with the error of the target and the
  pages before it mapped. A file that is not acceptable is always answered with an error, which is one
  of the target only if the target refused a page at that point.
\<close>

theorem elf_load_total:
  fixes refuse :: "'e loader"
  assumes "length data < 2 ^ 63"
  shows "fst (elf_load refuse data pages) \<noteq> None
    \<and> (acceptable data \<longrightarrow>
        (case map_all refuse pages (concat (map (segment_pages data) (segments data))) of
           (None, ps) \<Rightarrow> \<exists>r. elf_load refuse data pages = (Some (Inr r), ps)
         | (Some e, ps) \<Rightarrow> elf_load refuse data pages = (Some (Inl (Mapping e)), ps)))
    \<and> (\<not> acceptable data \<longrightarrow>
        (\<exists>e ps. elf_load refuse data pages = (Some (Inl e), ps)
           \<and> (\<forall>r. e = Mapping r \<longrightarrow> (\<exists>vaddr flags. refuse ps vaddr flags = Some r))))"
proof -
  have len: "length data < 2 ^ 64" using assms by simp
  obtain res ps where l: "elf_load refuse data pages = (res, ps)" by fastforce
  note out = elf_load_outcome [OF len, of refuse pages, unfolded l]
  have ne: "res \<noteq> None" using out by (cases res) auto
  have "case map_all refuse pages (concat (map (segment_pages data) (segments data))) of
      (None, ps) \<Rightarrow> \<exists>r. elf_load refuse data pages = (Some (Inr r), ps)
    | (Some e, ps) \<Rightarrow> elf_load refuse data pages = (Some (Inl (Mapping e)), ps)" if "acceptable data"
    unfolding elf_load_exact [OF len that] by (auto split: prod.splits option.splits)
  moreover have "\<exists>e. res = Some (Inl e) \<and> (\<forall>r. e = Mapping r \<longrightarrow> (\<exists>vaddr flags. refuse ps vaddr flags = Some r))"
    if "\<not> acceptable data"
    using out ne that by (auto simp: mapping_outcome_def split: option.splits sum.splits)
  ultimately show ?thesis using l ne by simp
qed

theorem elf_load_total_witness:
  "(\<exists>e ps. elf_load (\<lambda>_ _ _. Some ()) [] [] = (Some (Inl e), ps))
   \<and> elf_load (\<lambda>_ _ _. Some True) (sample_elf low_address) [] = (Some (Inl (Mapping True)), [])
   \<and> (\<exists>r ps. elf_load (\<lambda>_ _ _. None :: unit option) (sample_elf low_address) [] = (Some (Inr r), ps))"
proof -
  have len: "length (sample_elf low_address) < 2 ^ 63" using sample_low(3) by simp
  let ?ps = "concat (map (segment_pages (sample_elf low_address)) (segments (sample_elf low_address)))"
  have "\<not> acceptable []" by (simp add: acceptable_def elf_header_ok_def)
  moreover have "?ps \<noteq> []"
    by (simp add: sample_low sample_header_def segment_pages_def page_run_def)
  then obtain p ps where ps: "?ps = p # ps" by (cases ?ps) auto
  moreover have "map_all (\<lambda>_ _ _. None :: unit option) pages xs = (None, pages @ xs)" for pages xs
    by (induction xs arbitrary: pages) auto
  ultimately show ?thesis
    using elf_load_total [of "[]" "\<lambda>_ _ _. Some ()" "[]"] elf_load_total [OF len, of "\<lambda>_ _ _. Some True" "[]"]
      elf_load_total [OF len, of "\<lambda>_ _ _. None :: unit option" "[]"] samples_acceptable(1)
    by (auto simp: ps split: prod.splits option.splits)
qed

text \<open>Nothing bounds the address of a segment: a file may ask for a page of the kernel half.\<close>

lemma kernel_address_accepted:
  "\<exists>r p. elf_load (\<lambda>_ _ _. None :: unit option) (sample_elf kernel_address) [] = (Some (Inr r), [p]) \<and> mp_vaddr p = 0xffff800000000000"
proof -
  have len: "length (sample_elf kernel_address) < 2 ^ 64" by (simp add: sample_elf_def)
  obtain r pages' where l: "elf_load (\<lambda>_ _ _. None :: unit option) (sample_elf kernel_address) [] = (Some (Inr r), pages')"
    using elf_load_accepts [OF len samples_acceptable(2), of "\<lambda>_ _ _. None :: unit option" "[]"] by auto
  have "pages' = segment_pages (sample_elf kernel_address) (sample_header 0xffff800000000000)"
    using elf_load_outcome [OF len, of "\<lambda>_ _ _. None :: unit option" "[]"] l by (simp add: sample_kernel)
  moreover have "align_down 0xffff800000000000 PAGE_SIZE = 0xffff800000000000" by code_simp
  ultimately show ?thesis using l by (simp add: segment_pages_def page_run_def sample_header_def page_image_def)
qed

end
