(* ===== verification/Device_Lease.thy ===== *)
theory Device_Lease
  imports Rust_Prelude
begin

text \<open>
  The lifecycle policy of a device lease (\<^verbatim>\<open>src/crates/huesos-pci/src/lease.rs\<close>): a state machine
  whose events carry the generation they were issued for. Every event that revokes authority
  advances the generation. The lemmas follow the generation over histories: authority that was
  revoked never comes back, and what a generation authorises stays the same for its lifetime.
\<close>

section \<open>Data\<close>

record pci_address =
  pa_segment :: u16
  pa_bus :: u8
  pa_device :: u8
  pa_function :: u8

datatype lease_error =
    InvalidIdentity
  | InvalidGeneration
  | GenerationExhausted
  | StaleGeneration
  | InvalidTransition
  | RelocationForbidden
  | InvalidDmaDomain

datatype device_id = DeviceId u64

definition device_id_try_new :: "u64 \<Rightarrow> lease_error + device_id" where
  "device_id_try_new raw = (if raw = 0 then Inl InvalidIdentity else Inr (DeviceId raw))"

datatype lease_generation = LeaseGeneration (generation_get: u64)

definition generation_try_new :: "u64 \<Rightarrow> lease_error + lease_generation" where
  "generation_try_new raw = (if raw = 0 then Inl InvalidGeneration else Inr (LeaseGeneration raw))"

definition generation_next :: "lease_generation \<Rightarrow> lease_error + lease_generation" where
  "generation_next g = ok_or (map_option LeaseGeneration (checked_add (generation_get g) 1)) GenerationExhausted"

datatype relocation_class = Fixed | Restart | QuiesceRemap

datatype dma_isolation = Trusted | IommuDomain u64

datatype lease_state =
    Discovered | Configured | DriverStarting | Online | Quiescing | Rebalancing | Removing | Removed | LeaseFailed

datatype lease_intent = Relocate | Remove

datatype lease_event =
    Configure
  | StartDriver u64
  | DriverReady
  | BeginRelocation
  | BeginRemoval
  | DriverQuiesced
  | CommitRelocation pci_address
  | CompleteRemoval
  | SurpriseRemove
  | FailEvent

record lease_transition =
  lt_from :: lease_state
  lt_to :: lease_state
  lt_generation :: lease_generation
  lt_generation_changed :: bool

record device_lease =
  dl_device_id :: device_id
  dl_generation :: lease_generation
  dl_address :: pci_address
  dl_state :: lease_state
  dl_relocation :: relocation_class
  dl_dma_isolation :: dma_isolation
  dl_driver_process :: "u64 option"
  dl_intent :: "lease_intent option"

section \<open>Operations\<close>

definition lease_try_new ::
  "device_id \<Rightarrow> lease_generation \<Rightarrow> pci_address \<Rightarrow> relocation_class \<Rightarrow> dma_isolation \<Rightarrow> lease_error + device_lease" where
  "lease_try_new did generation address relocation dma =
     (if dma = IommuDomain 0 then Inl InvalidDmaDomain
      else Inr \<lparr>dl_device_id = did, dl_generation = generation, dl_address = address, dl_state = Discovered,
                dl_relocation = relocation, dl_dma_isolation = dma, dl_driver_process = None, dl_intent = None\<rparr>)"

definition can_mint_resources :: "device_lease \<Rightarrow> lease_generation \<Rightarrow> bool" where
  "can_mint_resources l g \<longleftrightarrow> generation_get g = generation_get (dl_generation l)
     \<and> dl_state l \<in> {Configured, DriverStarting, Online}"

definition accepts_io :: "device_lease \<Rightarrow> lease_generation \<Rightarrow> bool" where
  "accepts_io l g \<longleftrightarrow> generation_get g = generation_get (dl_generation l) \<and> dl_state l = Online"

definition revoke_generation :: "device_lease \<Rightarrow> (lease_error + unit) \<times> device_lease" where
  "revoke_generation l =
     (case generation_next (dl_generation l) of
        Inl e \<Rightarrow> (Inl e, l)
      | Inr g \<Rightarrow> (Inr (), l\<lparr>dl_generation := g, dl_driver_process := None\<rparr>))"

text \<open>Revoke, then change the state as given: the body of every revoking arm of \<^verbatim>\<open>apply\<close>.\<close>

definition revoke_then :: "(device_lease \<Rightarrow> device_lease) \<Rightarrow> device_lease \<Rightarrow> (lease_error + unit) \<times> device_lease" where
  "revoke_then f l = (case revoke_generation l of (Inl e, l') \<Rightarrow> (Inl e, l') | (Inr _, l') \<Rightarrow> (Inr (), f l'))"

definition lease_event_arm :: "device_lease \<Rightarrow> lease_event \<Rightarrow> (lease_error + unit) \<times> device_lease" where
  "lease_event_arm l event =
     (case event of
        Configure \<Rightarrow>
          if dl_state l = Discovered then (Inr (), l\<lparr>dl_state := Configured\<rparr>) else (Inl InvalidTransition, l)
      | StartDriver process_koid \<Rightarrow>
          if dl_state l = Configured then
            if process_koid = 0 then (Inl InvalidIdentity, l)
            else (Inr (), l\<lparr>dl_driver_process := Some process_koid, dl_state := DriverStarting\<rparr>)
          else (Inl InvalidTransition, l)
      | DriverReady \<Rightarrow>
          if dl_state l = DriverStarting then (Inr (), l\<lparr>dl_state := Online\<rparr>) else (Inl InvalidTransition, l)
      | BeginRelocation \<Rightarrow>
          if dl_state l = Online then
            if dl_relocation l = Fixed then (Inl RelocationForbidden, l)
            else (Inr (), l\<lparr>dl_intent := Some Relocate, dl_state := Quiescing\<rparr>)
          else (Inl InvalidTransition, l)
      | BeginRemoval \<Rightarrow>
          if dl_state l \<in> {DriverStarting, Online} then (Inr (), l\<lparr>dl_intent := Some Remove, dl_state := Quiescing\<rparr>)
          else if dl_state l \<in> {Discovered, Configured} then revoke_then (\<lambda>l'. l'\<lparr>dl_state := Removing\<rparr>) l
          else (Inl InvalidTransition, l)
      | DriverQuiesced \<Rightarrow>
          if dl_state l = Quiescing \<and> dl_intent l = Some Relocate
          then revoke_then (\<lambda>l'. l'\<lparr>dl_state := Rebalancing, dl_intent := None\<rparr>) l
          else if dl_state l = Quiescing \<and> dl_intent l = Some Remove
          then revoke_then (\<lambda>l'. l'\<lparr>dl_state := Removing, dl_intent := None\<rparr>) l
          else (Inl InvalidTransition, l)
      | CommitRelocation new_address \<Rightarrow>
          if dl_state l = Rebalancing then (Inr (), l\<lparr>dl_address := new_address, dl_state := Configured\<rparr>)
          else (Inl InvalidTransition, l)
      | CompleteRemoval \<Rightarrow>
          if dl_state l = Removing then (Inr (), l\<lparr>dl_state := Removed\<rparr>) else (Inl InvalidTransition, l)
      | SurpriseRemove \<Rightarrow>
          if dl_state l \<notin> {Removed, LeaseFailed} then revoke_then (\<lambda>l'. l'\<lparr>dl_state := Removed, dl_intent := None\<rparr>) l
          else (Inl InvalidTransition, l)
      | FailEvent \<Rightarrow>
          if dl_state l \<notin> {Removed, LeaseFailed} then revoke_then (\<lambda>l'. l'\<lparr>dl_state := LeaseFailed, dl_intent := None\<rparr>) l
          else (Inl InvalidTransition, l))"

definition lease_apply ::
  "device_lease \<Rightarrow> lease_generation \<Rightarrow> lease_event \<Rightarrow> (lease_error + lease_transition) \<times> device_lease" where
  "lease_apply l expected event =
     (if expected \<noteq> dl_generation l then (Inl StaleGeneration, l)
      else case lease_event_arm l event of
        (Inl e, l') \<Rightarrow> (Inl e, l')
      | (Inr _, l') \<Rightarrow>
          (Inr \<lparr>lt_from = dl_state l, lt_to = dl_state l', lt_generation = dl_generation l',
                lt_generation_changed = (dl_generation l \<noteq> dl_generation l')\<rparr>, l'))"

section \<open>Single calls\<close>

abbreviation generation_of :: "device_lease \<Rightarrow> nat" where
  "generation_of l \<equiv> unat (generation_get (dl_generation l))"

lemma generation_next_spec:
  "generation_next g = (if generation_get g = - 1 then Inl GenerationExhausted else Inr (LeaseGeneration (generation_get g + 1)))"
proof (cases "generation_get g = - 1")
  case True
  then show ?thesis by (simp add: generation_next_def checked_add_def unat_minus_one_word_nat)
next
  case False
  then have "unat (generation_get g) + 1 < 2 ^ 64" using unat_plus_one [OF False] unat_lt_pow [of "generation_get g + 1"] by simp
  then show ?thesis using False by (simp add: generation_next_def checked_add_def)
qed

lemma revoke_then_eq:
  "revoke_then f l =
     (if generation_get (dl_generation l) = - 1 then (Inl GenerationExhausted, l)
      else (Inr (), f (l\<lparr>dl_generation := LeaseGeneration (generation_get (dl_generation l) + 1), dl_driver_process := None\<rparr>)))"
  by (simp add: revoke_then_def revoke_generation_def generation_next_spec)

text \<open>A failing event changes nothing.\<close>

lemma lease_event_arm_Inl: "lease_event_arm l event = (Inl e, l') \<Longrightarrow> l' = l"
  by (cases event) (simp_all add: lease_event_arm_def revoke_then_eq split: if_splits)

definition attached :: "lease_state set" where
  "attached = {DriverStarting, Online, Quiescing}"

definition lease_inv :: "device_lease \<Rightarrow> bool" where
  "lease_inv l \<longleftrightarrow> (dl_driver_process l \<noteq> None \<longleftrightarrow> dl_state l \<in> attached)
     \<and> (dl_intent l \<noteq> None \<longleftrightarrow> dl_state l = Quiescing) \<and> (dl_intent l = Some Relocate \<longrightarrow> dl_relocation l \<noteq> Fixed)
     \<and> dl_driver_process l \<noteq> Some 0 \<and> dl_dma_isolation l \<noteq> IommuDomain 0"

text \<open>What an accepted event does, by whether it revokes.\<close>

lemma lease_event_arm_inv:
  assumes "lease_event_arm l event = (Inr x, l')" "lease_inv l"
  shows "lease_inv l'"
  using assms by (cases event; cases "dl_state l") (auto simp: lease_event_arm_def revoke_then_eq lease_inv_def attached_def split: if_splits)

lemma lease_event_arm_const:
  assumes "lease_event_arm l event = (Inr x, l')"
  shows "dl_device_id l' = dl_device_id l \<and> dl_relocation l' = dl_relocation l \<and> dl_dma_isolation l' = dl_dma_isolation l
    \<and> dl_state l \<notin> {Removed, LeaseFailed}"
  using assms by (cases event) (auto simp: lease_event_arm_def revoke_then_eq split: if_splits)

lemma lease_event_arm_generation:
  assumes "lease_event_arm l event = (Inr x, l')" "lease_inv l"
  shows "generation_of l' = Suc (generation_of l) \<and> dl_state l' \<in> {Rebalancing, Removing, Removed, LeaseFailed}
     \<or> dl_generation l' = dl_generation l \<and> (dl_driver_process l \<noteq> None \<longrightarrow> dl_driver_process l' = dl_driver_process l)
       \<and> (dl_state l \<in> insert Configured attached \<longrightarrow> dl_address l' = dl_address l \<and> dl_state l' \<in> insert Configured attached)"
  using assms unat_plus_one [of "generation_get (dl_generation l)"]
  by (cases event; cases "dl_state l") (auto simp: lease_event_arm_def revoke_then_eq lease_inv_def attached_def split: if_splits)

section \<open>Histories\<close>

definition lease_start :: "device_lease \<Rightarrow> bool" where
  "lease_start l \<longleftrightarrow> (\<exists>did g a r d. lease_try_new did g a r d = Inr l)"

inductive lease_call :: "device_lease \<Rightarrow> device_lease \<Rightarrow> bool" where
  call_apply: "lease_call l (snd (lease_apply l g event))"

inductive_cases lease_callE: "lease_call l l'"

lemma lease_apply_cases:
  "snd (lease_apply l g event) = l \<or> lease_event_arm l event = (Inr (), snd (lease_apply l g event))"
proof -
  obtain res l' where a: "lease_event_arm l event = (res, l')" by fastforce
  show ?thesis
  proof (cases res)
    case (Inl e)
    then show ?thesis using a lease_event_arm_Inl [of l event e l'] by (simp add: lease_apply_def)
  next
    case (Inr x)
    then show ?thesis using a by (simp add: lease_apply_def)
  qed
qed

lemma lease_apply_error: "fst (lease_apply l g event) = Inl e \<Longrightarrow> snd (lease_apply l g event) = l"
  by (auto simp: lease_apply_def dest: lease_event_arm_Inl split: if_splits prod.splits sum.splits)

lemma lease_fails_closed:
  assumes "dl_state l \<notin> {Removed, LeaseFailed} \<and> generation_of l < 2 ^ 64 - 1 \<and> event \<in> {FailEvent, SurpriseRemove}"
  shows "\<exists>tr l1. lease_apply l (dl_generation l) event = (Inr tr, l1)
    \<and> dl_state l1 = (if event = FailEvent then LeaseFailed else Removed)
    \<and> dl_driver_process l1 = None \<and> generation_of l1 = generation_of l + 1"
proof -
  have g: "generation_get (dl_generation l) \<noteq> - 1" using assms by (auto simp: unat_minus_one_word_nat)
  then have "unat (generation_get (dl_generation l) + 1) = generation_of l + 1" by (simp add: unat_plus_one)
  then show ?thesis using assms g by (auto simp: lease_apply_def lease_event_arm_def revoke_then_eq)
qed

interpretation lease_history: invariant_machine lease_start lease_call lease_inv
proof
  show "lease_start l \<Longrightarrow> lease_inv l" for l
    by (auto simp: lease_start_def lease_try_new_def lease_inv_def attached_def split: if_splits)
  show "lease_inv l \<Longrightarrow> lease_call l l' \<Longrightarrow> lease_inv l'" for l l'
    by (erule lease_callE) (metis lease_apply_cases lease_event_arm_inv)
qed

text \<open>Within one generation the driver, and once configured the address, stay.\<close>

definition follows :: "device_lease \<Rightarrow> device_lease \<Rightarrow> bool" where
  "follows l l' \<longleftrightarrow> generation_of l < generation_of l'
     \<or> dl_generation l' = dl_generation l \<and> (dl_driver_process l \<noteq> None \<longrightarrow> dl_driver_process l' = dl_driver_process l)
       \<and> (dl_state l \<in> insert Configured attached \<longrightarrow> dl_address l' = dl_address l \<and> dl_state l' \<in> insert Configured attached)"

lemma follows_refl: "follows l l"
  by (simp add: follows_def)

lemma follows_trans: "follows a b \<Longrightarrow> follows b c \<Longrightarrow> follows a c"
  unfolding follows_def by (elim disjE conjE) auto

lemma lease_call_follows:
  assumes "lease_inv l" "lease_call l l'"
  shows "follows l l'" "dl_state l \<in> {Removed, LeaseFailed} \<Longrightarrow> l' = l"
proof -
  obtain g event where c: "l' = snd (lease_apply l g event)" using assms(2) by (auto elim: lease_callE)
  have or: "l' = l \<or> lease_event_arm l event = (Inr (), l')" unfolding c by (rule lease_apply_cases)
  then show "follows l l'"
  proof
    assume "lease_event_arm l event = (Inr (), l')"
    from lease_event_arm_generation [OF this assms(1)] show ?thesis unfolding follows_def by (elim disjE conjE) simp_all
  qed (simp add: follows_refl)
  show "dl_state l \<in> {Removed, LeaseFailed} \<Longrightarrow> l' = l"
    using or lease_event_arm_const [of l event "()" l'] by blast
qed

lemma lease_calls_follow:
  assumes "lease_call\<^sup>*\<^sup>* l l'" "lease_inv l"
  shows "follows l l' \<and> (dl_state l \<in> {Removed, LeaseFailed} \<longrightarrow> l' = l)"
  using assms
proof (induction rule: rtranclp_induct)
  case base
  then show ?case by (simp add: follows_refl)
next
  case (step m n)
  have "lease_inv m" by (rule lease_history.steps_inv [OF step.hyps(1) step.prems])
  note c = lease_call_follows [OF this step.hyps(2)]
  show ?case using step.IH [OF step.prems] c follows_trans [of l m n] by auto
qed

text \<open>
  C23: Over every history of a lease the generation never decreases. A generation that is no longer the
  current one never mints resources or completes input and output again; whenever a driver is
  detached the generation has advanced; all resources minted under one generation belong to the
  same address; a lease accepts input and output only with a driver attached; and a removed or
  failed lease never changes again. An event sent under any other generation than the current one
  is refused as stale and changes nothing, and so is one that its state does not allow. Until the
  64-bit generation is exhausted, failing or surprise removing a live lease always succeeds: it
  ends in the terminal state with the driver detached under a new generation.
\<close>

theorem lease_authority:
  assumes "lease_start l0" "lease_call\<^sup>*\<^sup>* l0 l" "lease_call\<^sup>*\<^sup>* l l'"
  shows "generation_of l \<le> generation_of l'
    \<and> (dl_generation l' \<noteq> dl_generation l \<longrightarrow> \<not> can_mint_resources l' (dl_generation l) \<and> \<not> accepts_io l' (dl_generation l))
    \<and> (dl_driver_process l = Some d \<and> dl_driver_process l' \<noteq> Some d \<longrightarrow> generation_of l < generation_of l')
    \<and> (can_mint_resources l g \<and> can_mint_resources l' g \<longrightarrow> dl_address l' = dl_address l)
    \<and> (accepts_io l g \<longrightarrow> dl_driver_process l \<noteq> None)
    \<and> (dl_state l \<in> {Removed, LeaseFailed} \<longrightarrow> l' = l)
    \<and> (g \<noteq> dl_generation l \<longrightarrow> lease_apply l g event = (Inl StaleGeneration, l))
    \<and> (fst (lease_apply l g event) = Inl e \<and> e \<noteq> GenerationExhausted \<longrightarrow> snd (lease_apply l g event) = l)
    \<and> (dl_state l \<notin> {Removed, LeaseFailed} \<and> generation_of l < 2 ^ 64 - 1 \<and> event \<in> {FailEvent, SurpriseRemove} \<longrightarrow>
        (\<exists>tr l1. lease_apply l (dl_generation l) event = (Inr tr, l1)
           \<and> dl_state l1 = (if event = FailEvent then LeaseFailed else Removed)
           \<and> dl_driver_process l1 = None \<and> generation_of l1 = generation_of l + 1))"
proof -
  have inv: "lease_inv l" by (rule lease_history.reachable_inv [OF assms(1,2)])
  have f: "follows l l'" and t: "dl_state l \<in> {Removed, LeaseFailed} \<longrightarrow> l' = l"
    using lease_calls_follow [OF assms(3) inv] by blast+
  have same: "dl_generation l' = dl_generation l" if "generation_get (dl_generation l') = generation_get (dl_generation l)"
    using that by (simp add: lease_generation.expand)
  have "generation_of l \<le> generation_of l'"
    using f by (auto simp: follows_def)
  moreover have "\<not> can_mint_resources l' (dl_generation l) \<and> \<not> accepts_io l' (dl_generation l)" if "dl_generation l' \<noteq> dl_generation l"
    using that same by (auto simp: can_mint_resources_def accepts_io_def)
  moreover have "generation_of l < generation_of l'" if "dl_driver_process l = Some d \<and> dl_driver_process l' \<noteq> Some d"
    using f that by (auto simp: follows_def)
  moreover have "dl_address l' = dl_address l" if "can_mint_resources l g \<and> can_mint_resources l' g"
    using f that by (auto simp: follows_def can_mint_resources_def attached_def)
  moreover have "dl_driver_process l \<noteq> None" if "accepts_io l g"
    using inv that by (auto simp: lease_inv_def accepts_io_def attached_def)
  moreover have "lease_apply l g event = (Inl StaleGeneration, l)" if "g \<noteq> dl_generation l"
    using that by (simp add: lease_apply_def)
  ultimately show ?thesis using t lease_apply_error [of l g event e] lease_fails_closed [of l event] by blast
qed

definition sample_lease :: device_lease where
  "sample_lease = \<lparr>dl_device_id = DeviceId 1, dl_generation = LeaseGeneration 1,
     dl_address = \<lparr>pa_segment = 0, pa_bus = 2, pa_device = 0, pa_function = 0\<rparr>, dl_state = Discovered,
     dl_relocation = Restart, dl_dma_isolation = Trusted, dl_driver_process = None, dl_intent = None\<rparr>"

definition lease_run :: "device_lease \<Rightarrow> lease_event list \<Rightarrow> device_lease" where
  "lease_run l events = foldl (\<lambda>l event. snd (lease_apply l (dl_generation l) event)) l events"

lemma lease_run_calls: "lease_call\<^sup>*\<^sup>* l (lease_run l events)"
proof (induction events arbitrary: l)
  case (Cons event events)
  have "lease_call l (snd (lease_apply l (dl_generation l) event))" by (rule call_apply)
  then show ?case using Cons [of "snd (lease_apply l (dl_generation l) event)"] by (simp add: lease_run_def)
qed (simp add: lease_run_def)

theorem lease_authority_witness:
  "let l = lease_run sample_lease [Configure, StartDriver 7, DriverReady]; l' = lease_run l [FailEvent] in
     accepts_io l (LeaseGeneration 1) \<and> dl_driver_process l = Some 7 \<and> dl_driver_process l' = None
     \<and> generation_of l < generation_of l' \<and> \<not> accepts_io l' (LeaseGeneration 1)
     \<and> lease_apply l' (LeaseGeneration 1) DriverReady = (Inl StaleGeneration, l')"
proof -
  define l l' where "l = lease_run sample_lease [Configure, StartDriver 7, DriverReady]" and "l' = lease_run l [FailEvent]"
  have "lease_try_new (DeviceId 1) (LeaseGeneration 1) (dl_address sample_lease) Restart Trusted = Inr sample_lease"
    by (simp add: lease_try_new_def sample_lease_def)
  then have s: "lease_start sample_lease" unfolding lease_start_def by blast
  have c: "lease_call\<^sup>*\<^sup>* sample_lease l" "lease_call\<^sup>*\<^sup>* l l'" unfolding l_def l'_def by (rule lease_run_calls)+
  have f: "dl_state l = Online" "dl_generation l = LeaseGeneration 1" "dl_driver_process l = Some 7"
    "dl_generation l' = LeaseGeneration 2" "dl_driver_process l' = None"
    by (simp_all add: l'_def l_def lease_run_def lease_apply_def lease_event_arm_def revoke_then_eq sample_lease_def)
  have "accepts_io l (LeaseGeneration 1)" using f(1,2) by (simp add: accepts_io_def)
  moreover have "generation_of l < generation_of l' \<and> \<not> accepts_io l' (LeaseGeneration 1)"
    using lease_authority [OF s c, where d = 7] f(2-5) by auto
  moreover have "lease_apply l' (LeaseGeneration 1) DriverReady = (Inl StaleGeneration, l')"
    using lease_authority [OF s rtranclp_trans [OF c] rtranclp.rtrancl_refl, where g = "LeaseGeneration 1"] f(4) by simp
  ultimately show ?thesis using f(3,5) unfolding Let_def l_def l'_def by blast
qed

end
