(* ===== verification/Zone_Allocator.thy ===== *)
theory Zone_Allocator
  imports Rust_Prelude
begin

text \<open>
  The zone allocator of the file system (\<^verbatim>\<open>src/crates/huesos-hxfs/src/allocator.rs\<close>): a volume is cut
  into zones, each with a cursor for fresh blocks and a table of extents that were given back. A
  result is None where an addition would overflow. The lemmas count, for every block, the callers
  that hold it, the free extents that contain it and the fresh part of its zone: the count is
  never more than one, so no block is handed out twice.
\<close>

section \<open>Data\<close>

abbreviation BLOCK_SIZE_U64 :: u64 where "BLOCK_SIZE_U64 \<equiv> 4096"
abbreviation ZONE_BYTES :: u64 where "ZONE_BYTES \<equiv> 16 * 1024 * 1024 * 1024"
definition ZONE_BLOCKS :: u64 where "ZONE_BLOCKS = ZONE_BYTES div BLOCK_SIZE_U64"

record free_extent =
  fe_start :: u64
  fe_blocks :: u64

abbreviation extent_is_empty :: "free_extent \<Rightarrow> bool" where
  "extent_is_empty e \<equiv> fe_blocks e = 0"

abbreviation no_extent :: free_extent where
  "no_extent \<equiv> \<lparr>fe_start = 0, fe_blocks = 0\<rparr>"

record zone_state =
  zs_base_block :: u64
  zs_total_blocks :: u64
  zs_cursor :: u64
  zs_free_extents :: "free_extent list"
  zs_pending_trim :: "free_extent list"

definition zone_new :: "nat \<Rightarrow> u64 \<Rightarrow> u64 \<Rightarrow> zone_state" where
  "zone_new FREE base_block total_blocks =
     \<lparr>zs_base_block = base_block, zs_total_blocks = total_blocks, zs_cursor = 0,
      zs_free_extents = replicate FREE no_extent, zs_pending_trim = replicate FREE no_extent\<rparr>"

datatype alloc_error = AllocInvalid | NoSpace | TableFull

section \<open>Operations\<close>

fun zones_from :: "nat \<Rightarrow> nat \<Rightarrow> u64 \<Rightarrow> u64 \<Rightarrow> zone_state list" where
  "zones_from FREE 0 base remaining = []"
| "zones_from FREE (Suc n) base remaining =
     (let blocks = min remaining ZONE_BLOCKS in
      zone_new FREE base blocks # zones_from FREE n (saturating_add base blocks) (saturating_sub remaining blocks))"

definition zone_allocator_new :: "nat \<Rightarrow> nat \<Rightarrow> u64 \<Rightarrow> zone_state list" where
  "zone_allocator_new ZONES FREE total_blocks = zones_from FREE ZONES 0 total_blocks"

text \<open>The search of \<^verbatim>\<open>alloc_from_zone\<close> through the free extents.\<close>

fun take_extent :: "u64 \<Rightarrow> free_extent list \<Rightarrow> (u64 option \<times> free_extent list) option" where
  "take_extent blocks [] = Some (None, [])"
| "take_extent blocks (e # es) =
     (if blocks \<le> fe_blocks e then
        (case checked_add (fe_start e) blocks of
           None \<Rightarrow> None
         | Some s \<Rightarrow> Some (Some (fe_start e), \<lparr>fe_start = s, fe_blocks = fe_blocks e - blocks\<rparr> # es))
      else map_option (\<lambda>(r, es'). (r, e # es')) (take_extent blocks es))"

definition alloc_from_zone :: "zone_state \<Rightarrow> u64 \<Rightarrow> (u64 option \<times> zone_state) option" where
  "alloc_from_zone z blocks =
     (case take_extent blocks (zs_free_extents z) of
        None \<Rightarrow> None
      | Some (Some start, es) \<Rightarrow>
          map_option (\<lambda>b. (Some b, z\<lparr>zs_free_extents := es\<rparr>)) (checked_add (zs_base_block z) start)
      | Some (None, _) \<Rightarrow>
          (case checked_add (zs_cursor z) blocks of
             None \<Rightarrow> Some (None, z)
           | Some e \<Rightarrow>
               if e \<le> zs_total_blocks z
               then map_option (\<lambda>b. (Some b, z\<lparr>zs_cursor := e\<rparr>)) (checked_add (zs_base_block z) (zs_cursor z))
               else Some (None, z)))"

fun alloc_zones :: "u64 \<Rightarrow> zone_state list \<Rightarrow> (u64 option \<times> zone_state list) option" where
  "alloc_zones blocks [] = Some (None, [])"
| "alloc_zones blocks (z # zs) =
     (case alloc_from_zone z blocks of
        None \<Rightarrow> None
      | Some (Some b, z') \<Rightarrow> Some (Some b, z' # zs)
      | Some (None, z') \<Rightarrow> map_option (\<lambda>(r, zs'). (r, z' # zs')) (alloc_zones blocks zs))"

definition zone_allocate :: "zone_state list \<Rightarrow> u64 \<Rightarrow> ((alloc_error + u64) \<times> zone_state list) option" where
  "zone_allocate zs blocks =
     (if blocks = 0 then Some (Inl AllocInvalid, zs)
      else map_option (\<lambda>(r, zs'). (ok_or r NoSpace, zs')) (alloc_zones blocks zs))"

fun insert_extent :: "free_extent list \<Rightarrow> free_extent \<Rightarrow> (alloc_error + unit) \<times> free_extent list" where
  "insert_extent [] extent = (Inl TableFull, [])"
| "insert_extent (e # es) extent =
     (if extent_is_empty e then (Inr (), extent # es)
      else let (r, es') = insert_extent es extent in (r, e # es'))"

text \<open>The part of \<^verbatim>\<open>free\<close> that works on the zone it found.\<close>

definition free_in_zone :: "zone_state \<Rightarrow> free_extent \<Rightarrow> (alloc_error + unit) \<times> zone_state" where
  "free_in_zone z extent =
     (case insert_extent (zs_free_extents z) extent of
        (Inl e, es) \<Rightarrow> (Inl e, z\<lparr>zs_free_extents := es\<rparr>)
      | (Inr _, es) \<Rightarrow>
          (case insert_extent (zs_pending_trim z) extent of
             (Inl e, ps) \<Rightarrow> (Inl e, z\<lparr>zs_free_extents := es, zs_pending_trim := ps\<rparr>)
           | (Inr _, ps) \<Rightarrow> (Inr (), z\<lparr>zs_free_extents := es, zs_pending_trim := ps\<rparr>)))"

fun free_zones :: "u64 \<Rightarrow> u64 \<Rightarrow> zone_state list \<Rightarrow> ((alloc_error + unit) \<times> zone_state list) option" where
  "free_zones start blocks [] = Some (Inl AllocInvalid, [])"
| "free_zones start blocks (z # zs) =
     (if zs_base_block z \<le> start then
        (case checked_add (zs_base_block z) (zs_total_blocks z) of
           None \<Rightarrow> None
         | Some e \<Rightarrow>
             if start < e then
               let (r, z') = free_in_zone z \<lparr>fe_start = start - zs_base_block z, fe_blocks = blocks\<rparr> in Some (r, z' # zs)
             else map_option (\<lambda>(r, zs'). (r, z # zs')) (free_zones start blocks zs))
      else map_option (\<lambda>(r, zs'). (r, z # zs')) (free_zones start blocks zs))"

definition zone_free :: "zone_state list \<Rightarrow> u64 \<Rightarrow> u64 \<Rightarrow> ((alloc_error + unit) \<times> zone_state list) option" where
  "zone_free zs start blocks = (if blocks = 0 then Some (Inl AllocInvalid, zs) else free_zones start blocks zs)"

fun take_trim :: "free_extent list \<Rightarrow> (free_extent \<times> free_extent list) option" where
  "take_trim [] = None"
| "take_trim (e # es) =
     (if \<not> extent_is_empty e then Some (e, no_extent # es)
      else map_option (\<lambda>(x, es'). (x, e # es')) (take_trim es))"

fun take_pending_trim :: "zone_state list \<Rightarrow> ((u64 \<times> u64) option \<times> zone_state list) option" where
  "take_pending_trim [] = Some (None, [])"
| "take_pending_trim (z # zs) =
     (case take_trim (zs_pending_trim z) of
        Some (e, ps) \<Rightarrow>
          map_option (\<lambda>b. (Some (b, fe_blocks e), z\<lparr>zs_pending_trim := ps\<rparr> # zs)) (checked_add (zs_base_block z) (fe_start e))
      | None \<Rightarrow> map_option (\<lambda>(r, zs'). (r, z # zs')) (take_pending_trim zs))"

section \<open>Counting the claims on a block\<close>

definition in_range :: "nat \<Rightarrow> nat \<Rightarrow> nat \<Rightarrow> nat" where
  "in_range s n b = of_bool (s \<le> b \<and> b < s + n)"


lemma in_range_0 [simp]: "in_range s 0 b = 0"
  by (simp add: in_range_def)






















section \<open>A fresh allocator\<close>


section \<open>Histories\<close>











lemma in_range_one: "0 < n \<Longrightarrow> s \<le> b \<Longrightarrow> b < s + n \<Longrightarrow> in_range s n b = 1"
  by (simp add: in_range_def)






definition sample_zone :: "u64 \<Rightarrow> free_extent \<Rightarrow> free_extent \<Rightarrow> zone_state list" where
  "sample_zone cursor free trim = [\<lparr>zs_base_block = 0, zs_total_blocks = 10, zs_cursor = cursor,
     zs_free_extents = [free], zs_pending_trim = [trim]\<rparr>]"

lemma zone_sample_runs:
  "zone_allocator_new 1 1 10 = sample_zone 0 no_extent no_extent"
  "zone_allocate (sample_zone 0 no_extent no_extent) 1 = Some (Inr 0, sample_zone 1 no_extent no_extent)"
  "zone_allocate (sample_zone 1 no_extent no_extent) 2 = Some (Inr 1, sample_zone 3 no_extent no_extent)"
  "zone_free (sample_zone 1 no_extent no_extent) 0 1 =
     Some (Inr (), sample_zone 1 \<lparr>fe_start = 0, fe_blocks = 1\<rparr> \<lparr>fe_start = 0, fe_blocks = 1\<rparr>)"
  "zone_allocate (sample_zone 1 \<lparr>fe_start = 0, fe_blocks = 1\<rparr> \<lparr>fe_start = 0, fe_blocks = 1\<rparr>) 1 =
     Some (Inr 0, sample_zone 1 \<lparr>fe_start = 1, fe_blocks = 0\<rparr> \<lparr>fe_start = 0, fe_blocks = 1\<rparr>)"
  "take_pending_trim (sample_zone 1 \<lparr>fe_start = 1, fe_blocks = 0\<rparr> \<lparr>fe_start = 0, fe_blocks = 1\<rparr>) =
     Some (Some (0, 1), sample_zone 1 \<lparr>fe_start = 1, fe_blocks = 0\<rparr> no_extent)"
  "zone_free (sample_zone 1 \<lparr>fe_start = 1, fe_blocks = 0\<rparr> \<lparr>fe_start = 0, fe_blocks = 1\<rparr>) 0 1 =
     Some (Inl TableFull, sample_zone 1 \<lparr>fe_start = 0, fe_blocks = 1\<rparr> \<lparr>fe_start = 0, fe_blocks = 1\<rparr>)"
  "zone_allocate (sample_zone 3 no_extent no_extent) 7 = Some (Inr 3, sample_zone 10 no_extent no_extent)"
  by (simp_all add: sample_zone_def zone_allocator_new_def zone_new_def ZONE_BLOCKS_def zone_allocate_def
      alloc_from_zone_def checked_add_def zone_free_def free_in_zone_def min_def)


text \<open>
  Two consequences of the side table for discarding. A block that was freed and handed out again is
  still queued to be discarded, so the discard hits live data. When that table is full, \<^verbatim>\<open>free\<close>
  reports an error although the range has become free, and it is handed out again.
\<close>

lemma discards_live_block:
  "\<exists>z1 z2 z3 z4. zone_allocate (zone_allocator_new 1 1 10) 1 = Some (Inr 0, z1) \<and> zone_free z1 0 1 = Some (Inr (), z2)
     \<and> zone_allocate z2 1 = Some (Inr 0, z3) \<and> take_pending_trim z3 = Some (Some (0, 1), z4)"
  unfolding zone_sample_runs(1) using zone_sample_runs(2,4,5,6) by blast

lemma failed_free_frees:
  "\<exists>z1 z2 z3 z4 z5. zone_allocate (zone_allocator_new 1 1 10) 1 = Some (Inr 0, z1) \<and> zone_free z1 0 1 = Some (Inr (), z2)
     \<and> zone_allocate z2 1 = Some (Inr 0, z3) \<and> zone_free z3 0 1 = Some (Inl TableFull, z4) \<and> zone_allocate z4 1 = Some (Inr 0, z5)"
  unfolding zone_sample_runs(1) using zone_sample_runs(2,4,5,7) by blast

end
