(* ===== verification/Sched_Clock.thy ===== *)
theory Sched_Clock
  imports Rust_Prelude
begin

text \<open>
  The fixed-point clock of \<^verbatim>\<open>src/crates/huesos-sched/src/clock.rs\<close>: \<^verbatim>\<open>TscClock\<close> turns a
  measured frequency into a multiplier and a shift, and converts cycles to nanoseconds with one
  multiplication. The 128-bit intermediate values are 128-bit words. The loop that lowers the
  shift counts down to zero, so it is a recursion on the shift. The lemmas bound the conversion
  error and show that a deadline computed from nanoseconds is never early.
\<close>

section \<open>The clock\<close>

record tsc_clock =
  tc_frequency_hz :: u64
  tc_multiplier :: u64
  tc_shift :: nat

datatype clock_error = FrequencyOutOfRange | ClockOverflow

definition checked_shl :: "'a::len word \<Rightarrow> nat \<Rightarrow> 'a word option" where
  "checked_shl w n = (if n < LENGTH('a) then Some (push_bit n w) else None)"

fun choose_shift :: "u64 \<Rightarrow> nat \<Rightarrow> clock_error + nat" where
  "choose_shift frequency_hz 0 = Inl ClockOverflow"
| "choose_shift frequency_hz (Suc n) =
     (case checked_shl (1000000000 :: u128) (Suc n) of
        None \<Rightarrow> Inl ClockOverflow
      | Some scaled \<Rightarrow>
          if div_ceil scaled (ucast frequency_hz) \<le> ucast (- 1 :: u64) then Inr (Suc n)
          else choose_shift frequency_hz n)"

definition from_frequency :: "u64 \<Rightarrow> clock_error + tsc_clock" where
  "from_frequency frequency_hz =
     (if \<not> (1000000 \<le> frequency_hz \<and> frequency_hz \<le> 10000000000) then Inl FrequencyOutOfRange
      else case choose_shift frequency_hz 64 of
        Inl e \<Rightarrow> Inl e
      | Inr s \<Rightarrow>
          (case checked_shl (1000000000 :: u128) s of
             None \<Rightarrow> Inl ClockOverflow
           | Some scaled \<Rightarrow>
               Inr \<lparr>tc_frequency_hz = frequency_hz,
                    tc_multiplier = ucast (div_ceil scaled (ucast frequency_hz)), tc_shift = s\<rparr>))"

definition cycles_to_ns :: "tsc_clock \<Rightarrow> u64 \<Rightarrow> u64" where
  "cycles_to_ns c cycles = ucast (drop_bit (tc_shift c) ((ucast cycles :: u128) * ucast (tc_multiplier c)))"

definition ns_to_cycles :: "tsc_clock \<Rightarrow> u64 \<Rightarrow> u64" where
  "ns_to_cycles c ns =
     ucast (min (div_ceil ((ucast ns :: u128) * ucast (tc_frequency_hz c)) 1000000000) (ucast (- 1 :: u64)))"

definition delta_to_ns_saturating :: "tsc_clock \<Rightarrow> u64 \<Rightarrow> u64" where
  "delta_to_ns_saturating c delta = cycles_to_ns c delta"

definition abs_diff :: "'a::len word \<Rightarrow> 'a word \<Rightarrow> 'a word" where
  "abs_diff a b = (if a < b then b - a else a - b)"

text \<open>The sampling loop of \<^verbatim>\<open>max_round_trip_error_ns\<close>; None is the overflow panic of
  \<^verbatim>\<open>cycles + step\<close> in a checked build.\<close>

fun round_trip_loop :: "tsc_clock \<Rightarrow> u64 \<Rightarrow> nat \<Rightarrow> u64 \<Rightarrow> u64 \<Rightarrow> u64 option" where
  "round_trip_loop c step 0 cycles worst = Some worst"
| "round_trip_loop c step (Suc n) cycles worst =
     (case checked_add cycles step of
        None \<Rightarrow> None
      | Some ahead \<Rightarrow>
          let err = abs_diff cycles (min (ns_to_cycles c (cycles_to_ns c cycles)) ahead);
              err_ns = cycles_to_ns c err in
          round_trip_loop c step n (saturating_add cycles step) (if worst < err_ns then err_ns else worst))"

definition saturating_mul :: "'a::len word \<Rightarrow> 'a word \<Rightarrow> 'a word" where
  "saturating_mul a b = (case checked_mul a b of None \<Rightarrow> - 1 | Some p \<Rightarrow> p)"

definition max_round_trip_error_ns :: "tsc_clock \<Rightarrow> u64 \<Rightarrow> u64 option" where
  "max_round_trip_error_ns c samples =
     (let step = (if 1 < samples then saturating_mul (tc_frequency_hz c) 2 div samples else 1) in
      round_trip_loop c step (unat samples) 0 0)"

section \<open>Calibration\<close>

definition exact_multiplier :: "nat \<Rightarrow> nat \<Rightarrow> nat" where
  "exact_multiplier f s = (1000000000 * 2 ^ s + f - 1) div f"

lemma unat_push_giga:
  assumes "s \<le> 64"
  shows "unat (push_bit s (1000000000 :: u128)) = 1000000000 * 2 ^ s"
proof -
  have "(1000000000 :: nat) * 2 ^ s \<le> 1000000000 * 2 ^ 64" using assms by (intro mult_left_mono power_increasing) auto
  also have "\<dots> < 2 ^ 128" by simp
  finally have "1000000000 * 2 ^ s < (2 :: nat) ^ LENGTH(128)" by simp
  then show ?thesis unfolding unsigned_push_bit_eq push_bit_eq_mult [of s "_ :: nat"]
    by (subst take_bit_nat_eq_self) simp_all
qed

lemma multiplier_word:
  assumes "s \<le> 64" "0 < unat f"
  shows "unat (div_ceil (push_bit s 1000000000) (ucast (f :: u64) :: u128)) = exact_multiplier (unat f) s"
  using unat_div_ceil [of "ucast f :: u128" "push_bit s 1000000000"] assms
  by (simp add: unat_push_giga unat_ucast_up exact_multiplier_def)

lemma exact_multiplier_bounds:
  assumes "0 < f"
  shows "1000000000 * 2 ^ s \<le> f * exact_multiplier f s" "f * exact_multiplier f s < 1000000000 * 2 ^ s + f"
proof -
  let ?n = "1000000000 * 2 ^ s + f - 1"
  have m: "f * exact_multiplier f s = ?n - ?n mod f"
    unfolding exact_multiplier_def by (simp add: minus_mod_eq_mult_div [symmetric])
  have "?n mod f < f" "?n mod f \<le> ?n" using assms by simp_all
  then show "1000000000 * 2 ^ s \<le> f * exact_multiplier f s" "f * exact_multiplier f s < 1000000000 * 2 ^ s + f"
    unfolding m using assms by linarith+
qed

lemma exact_multiplier_54:
  assumes "1000000 \<le> f"
  shows "exact_multiplier f 54 < 2 ^ 64"
proof (rule ccontr)
  assume "\<not> ?thesis"
  then have "f * 2 ^ 64 \<le> f * exact_multiplier f 54" by (intro mult_left_mono) simp_all
  also have "\<dots> < 1000000000 * 2 ^ 54 + f" using assms by (intro exact_multiplier_bounds(2)) simp
  finally show False using assms by simp
qed

lemma fits_word: "div_ceil (push_bit s 1000000000) (ucast (f :: u64) :: u128) \<le> ucast (- 1 :: u64) \<longleftrightarrow>
    exact_multiplier (unat f) s < 2 ^ 64" if "s \<le> 64" "0 < unat f"
proof -
  have "unat (ucast (- 1 :: u64) :: u128) = 2 ^ 64 - 1"
    by (simp add: unat_ucast_up unat_minus_one_word_nat del: unsigned_minus_1_eq_mask)
  then show ?thesis using multiplier_word [OF that] by (auto simp: word_le_nat_alt)
qed

lemma choose_shift_ok:
  assumes "1000000 \<le> unat f" "54 \<le> n" "n \<le> 64"
  shows "\<exists>s. choose_shift f n = Inr s \<and> 54 \<le> s \<and> s \<le> n \<and> exact_multiplier (unat f) s < 2 ^ 64
    \<and> (\<forall>k. s < k \<longrightarrow> k \<le> n \<longrightarrow> 2 ^ 64 \<le> exact_multiplier (unat f) k)"
  using assms(2,3)
proof (induction n rule: nat_induct_at_least)
  case base
  have "choose_shift f (Suc 53) = Inr (Suc 53)"
    using fits_word [of 54 f] exact_multiplier_54 [OF assms(1)] assms(1) unfolding choose_shift.simps
    by (simp add: checked_shl_def)
  then show ?case using exact_multiplier_54 [OF assms(1)] by (intro exI [of _ 54]) simp
next
  case (Suc n)
  show ?case
  proof (cases "exact_multiplier (unat f) (Suc n) < 2 ^ 64")
    case True
    then show ?thesis using fits_word [of "Suc n" f] Suc.prems Suc.hyps assms(1)
      by (intro exI [of _ "Suc n"]) (simp add: checked_shl_def)
  next
    case False
    then have "choose_shift f (Suc n) = choose_shift f n"
      using fits_word [of "Suc n" f] Suc.prems assms(1) by (simp add: checked_shl_def)
    then show ?thesis using Suc False by (auto simp: le_Suc_eq)
  qed
qed

definition calibrated :: "u64 \<Rightarrow> tsc_clock \<Rightarrow> bool" where
  "calibrated f c \<longleftrightarrow> tc_frequency_hz c = f \<and> 1000000 \<le> unat f \<and> unat f \<le> 10000000000
     \<and> 54 \<le> tc_shift c \<and> tc_shift c \<le> 64 \<and> unat (tc_multiplier c) = exact_multiplier (unat f) (tc_shift c)
     \<and> (\<forall>k. tc_shift c < k \<longrightarrow> k \<le> 64 \<longrightarrow> 2 ^ 64 \<le> exact_multiplier (unat f) k)"

lemma from_frequency_calibrated:
  assumes "1000000 \<le> f" "f \<le> 10000000000"
  shows "\<exists>c. from_frequency f = Inr c \<and> calibrated f c"
proof -
  have f: "1000000 \<le> unat f" "unat f \<le> 10000000000" using assms by (simp_all add: word_le_nat_alt)
  obtain s where s: "choose_shift f 64 = Inr s" "54 \<le> s" "s \<le> 64" "exact_multiplier (unat f) s < 2 ^ 64"
    "\<forall>k. s < k \<longrightarrow> k \<le> 64 \<longrightarrow> 2 ^ 64 \<le> exact_multiplier (unat f) k"
    using choose_shift_ok [OF f(1), of 64] by auto
  have "unat (ucast (div_ceil (push_bit s 1000000000) (ucast f :: u128)) :: u64) = exact_multiplier (unat f) s"
    using multiplier_word [of s f] s(3,4) f(1) by (simp add: unsigned_ucast_eq take_bit_nat_eq_self)
  then show ?thesis using assms s f by (simp add: from_frequency_def checked_shl_def calibrated_def)
qed

text \<open>
  C40: Calibration is total. A frequency outside 1 MHz to 10 GHz is refused with
  \<^verbatim>\<open>FrequencyOutOfRange\<close> and nothing else is; inside the range the search for the shift ends with a
  value between 54 and 64, never with \<^verbatim>\<open>Overflow\<close>, the multiplier is the rounded-up quotient
  without truncation, and the shift is the largest one for which it fits 64 bits.
\<close>

theorem from_frequency_total:
  "from_frequency f =
     (if 1000000 \<le> f \<and> f \<le> 10000000000 then Inr (projr (from_frequency f)) else Inl FrequencyOutOfRange)
   \<and> (isl (from_frequency f) \<or> calibrated f (projr (from_frequency f)))"
proof (cases "1000000 \<le> f \<and> f \<le> 10000000000")
  case True
  then show ?thesis using from_frequency_calibrated [of f] by auto
next
  case False
  then show ?thesis by (auto simp: from_frequency_def)
qed

section \<open>Conversion\<close>

lemma product_word: "unat ((ucast (a :: u64) :: u128) * ucast (b :: u64)) = unat a * unat b"
proof -
  have "unat a * unat b \<le> (2 ^ 64 - 1) * (2 ^ 64 - 1)"
    using unat_lt_pow [of a] unat_lt_pow [of b] by (intro mult_mono) simp_all
  also have "\<dots> < 2 ^ LENGTH(128)" by simp
  finally show ?thesis
    using unat_mult_nowrap [of "ucast a :: u128" "ucast b"] by (simp add: unat_ucast_up)
qed

lemma unat_cycles_to_ns:
  "unat (cycles_to_ns c cycles) = unat cycles * unat (tc_multiplier c) div 2 ^ tc_shift c mod 2 ^ 64"
proof -
  let ?p = "(ucast cycles :: u128) * ucast (tc_multiplier c)"
  have "unat (drop_bit (tc_shift c) ?p) = unat ?p div 2 ^ tc_shift c"
    using unat_lt_pow [of ?p] unfolding unsigned_drop_bit_eq drop_bit_eq_div [of _ "_ :: nat"]
    by (subst take_bit_nat_eq_self) simp_all
  then show ?thesis by (simp add: cycles_to_ns_def unsigned_ucast_eq product_word take_bit_eq_mod)
qed

lemma scaled_bounds:
  assumes "calibrated f c"
  shows "n * 1000000000 div unat f \<le> n * unat (tc_multiplier c) div 2 ^ tc_shift c"
    "n * unat (tc_multiplier c) div 2 ^ tc_shift c \<le> n * 1000000000 div unat f + 1 + n div 2 ^ tc_shift c"
proof -
  let ?f = "unat f" and ?S = "(2 :: nat) ^ tc_shift c" and ?m = "unat (tc_multiplier c)" and ?q = "n * 1000000000 div unat f"
  have f: "0 < ?f" and m: "?m = exact_multiplier ?f (tc_shift c)" using assms by (simp_all add: calibrated_def)
  note b = exact_multiplier_bounds [OF f, of "tc_shift c", folded m]
  have q: "?q * ?f \<le> n * 1000000000" "n * 1000000000 < (?q + 1) * ?f"
    using f div_times_less_eq_dividend [of "n * 1000000000" ?f] dividend_less_div_times [of ?f "n * 1000000000"] by simp_all
  have "?q * ?f * ?S \<le> n * 1000000000 * ?S" using q(1) by (rule mult_right_mono) simp
  also have "\<dots> \<le> n * (?f * ?m)" using b(1) by (simp add: mult.assoc)
  finally have "?f * (?q * ?S) \<le> ?f * (n * ?m)" by (simp add: ac_simps)
  then have "?q * ?S \<le> n * ?m" using f by simp
  then show "?q \<le> n * ?m div ?S" by (simp add: less_eq_div_iff_mult_less_eq)
  have "n * (?f * ?m) \<le> n * (1000000000 * ?S + ?f)" using b(2) by (intro mult_left_mono) simp_all
  also have "\<dots> = n * 1000000000 * ?S + n * ?f" by (simp add: algebra_simps)
  also have "\<dots> < (?q + 1) * ?f * ?S + (n div ?S + 1) * ?S * ?f"
    by (rule add_less_le_mono)
      (use q(2) dividend_less_div_times [of ?S n] in \<open>auto intro!: mult_right_mono simp: less_imp_le mult_less_mono1\<close>)
  also have "\<dots> = ?f * ((?q + n div ?S + 2) * ?S)" by (simp add: algebra_simps)
  finally have "?f * (n * ?m) < ?f * ((?q + n div ?S + 2) * ?S)" by (simp add: ac_simps)
  then have "n * ?m < (?q + n div ?S + 2) * ?S" by simp
  then have "n * ?m div ?S < ?q + n div ?S + 2" by (simp add: div_less_iff_less_mult)
  then show "n * ?m div ?S \<le> ?q + 1 + n div ?S" by simp
qed

lemma unat_ns_to_cycles:
  "unat (ns_to_cycles c ns) = min ((unat ns * unat (tc_frequency_hz c) + 999999999) div 1000000000) (2 ^ 64 - 1)"
proof -
  let ?d = "div_ceil ((ucast ns :: u128) * ucast (tc_frequency_hz c)) 1000000000"
  have d: "unat ?d = (unat ns * unat (tc_frequency_hz c) + 999999999) div 1000000000"
    using unat_div_ceil [of "1000000000 :: u128" "ucast ns * ucast (tc_frequency_hz c)"] by (simp add: product_word)
  have top: "unat (ucast (- 1 :: u64) :: u128) = 2 ^ 64 - 1"
    by (simp add: unat_ucast_up unat_minus_one_word_nat del: unsigned_minus_1_eq_mask)
  have "unat (min ?d (ucast (- 1 :: u64))) = min (unat ?d) (2 ^ 64 - 1)"
    using top by (simp add: min_def word_le_nat_alt)
  moreover have "unat (ucast (min ?d (ucast (- 1 :: u64))) :: u64) = unat (min ?d (ucast (- 1 :: u64)))"
    using calculation by (simp add: unsigned_ucast_eq take_bit_nat_eq_self)
  ultimately show ?thesis by (simp only: ns_to_cycles_def d)
qed

lemma from_frequency_InrD:
  assumes "from_frequency f = Inr c"
  shows "calibrated f c"
proof -
  have "1000000 \<le> f \<and> f \<le> 10000000000" using assms by (auto simp: from_frequency_def split: if_splits)
  then show ?thesis using from_frequency_calibrated [of f] assms by auto
qed

lemma cycles_to_ns_close:
  assumes cal: "calibrated f c" and n: "unat cycles < 2 ^ tc_shift c" "unat cycles * 1000000000 div unat f + 1 < 2 ^ 64"
  shows "unat cycles * 1000000000 div unat f \<le> unat (cycles_to_ns c cycles)"
    "unat (cycles_to_ns c cycles) \<le> unat cycles * 1000000000 div unat f + 1"
proof -
  note b = scaled_bounds [OF cal, of "unat cycles"]
  have "unat cycles div 2 ^ tc_shift c = 0" using n(1) by simp
  with b have b': "unat cycles * unat (tc_multiplier c) div 2 ^ tc_shift c \<le> unat cycles * 1000000000 div unat f + 1"
    by linarith
  then have "unat (cycles_to_ns c cycles) = unat cycles * unat (tc_multiplier c) div 2 ^ tc_shift c"
    unfolding unat_cycles_to_ns using n(2) by (intro mod_less) linarith
  with b(1) b' show "unat cycles * 1000000000 div unat f \<le> unat (cycles_to_ns c cycles)"
    "unat (cycles_to_ns c cycles) \<le> unat cycles * 1000000000 div unat f + 1" by linarith+
qed

lemma ceil_giga:
  "x \<le> (x + 999999999) div 1000000000 * 1000000000" "(x + 999999999) div 1000000000 * 1000000000 \<le> x + (999999999 :: nat)"
  using div_mult_mod_eq [of "x + 999999999" 1000000000] mod_less_divisor [of 1000000000 "x + 999999999"] by linarith+

lemma ceil_giga_le: "x \<le> n * 1000000000 \<Longrightarrow> (x + 999999999) div 1000000000 \<le> (n :: nat)"
  using div_less_iff_less_mult [of 1000000000 "x + 999999999" "Suc n"] by simp

lemma deadline_cycles:
  assumes "calibrated f c" "unat ns * unat f \<le> (2 ^ 64 - 1) * 1000000000"
  shows "unat ns \<le> unat (ns_to_cycles c ns) * 1000000000 div unat f"
    "unat (ns_to_cycles c ns) * 1000000000 div unat f \<le> unat ns + 999999999 div unat f"
proof -
  have f: "tc_frequency_hz c = f" "0 < unat f" using assms(1) by (auto simp: calibrated_def)
  let ?x = "unat ns * unat f"
  have "(?x + 999999999) div 1000000000 \<le> 2 ^ 64 - 1" using assms(2) by (rule ceil_giga_le)
  then have d: "unat (ns_to_cycles c ns) = (?x + 999999999) div 1000000000" by (simp add: unat_ns_to_cycles f)
  note lo = ceil_giga(1) [of ?x] and hi = ceil_giga(2) [of ?x]
  show "unat ns \<le> unat (ns_to_cycles c ns) * 1000000000 div unat f"
    using div_le_mono [OF lo, of "unat f"] f(2) unfolding d by simp
  show "unat (ns_to_cycles c ns) * 1000000000 div unat f \<le> unat ns + 999999999 div unat f"
    using div_le_mono [OF hi, of "unat f"] f(2) unfolding d by simp
qed

text \<open>
  C34: With a clock calibrated from any accepted frequency, converting cycles to nanoseconds is
  at most one nanosecond above the exact quotient for every count below two to the shift (at least
  2^54 cycles), and converting a deadline in nanoseconds to cycles never gives an early deadline:
  read back through the clock it is at least the deadline asked for, and late by at most one
  nanosecond and the length of a cycle.
\<close>

theorem clock_conversions_sound:
  assumes "from_frequency f = Inr c"
    "unat cycles < 2 ^ tc_shift c" "unat cycles * 1000000000 div unat f + 1 < 2 ^ 64"
    "unat ns * unat f \<le> (2 ^ 64 - 1) * 1000000000" "unat (ns_to_cycles c ns) < 2 ^ tc_shift c" "unat ns < 2 ^ 63"
  shows "unat cycles * 1000000000 div unat f \<le> unat (cycles_to_ns c cycles)
    \<and> unat (cycles_to_ns c cycles) \<le> unat cycles * 1000000000 div unat f + 1
    \<and> unat ns \<le> unat (cycles_to_ns c (ns_to_cycles c ns))
    \<and> unat (cycles_to_ns c (ns_to_cycles c ns)) \<le> unat ns + 999999999 div unat f + 1"
proof -
  have cal: "calibrated f c" using assms(1) by (rule from_frequency_InrD)
  note d = deadline_cycles [OF cal assms(4)]
  have "999999999 div unat f \<le> 999999999" by (rule div_le_dividend)
  moreover have "(2 :: nat) ^ 63 + 999999999 + 1 < 2 ^ 64" by simp
  ultimately have "unat (ns_to_cycles c ns) * 1000000000 div unat f + 1 < 2 ^ 64" using d(2) assms(6) by linarith
  note readback = cycles_to_ns_close [OF cal assms(5) this]
  show ?thesis using cycles_to_ns_close [OF cal assms(2,3)] d readback by linarith
qed

definition sample_clock :: tsc_clock where
  "sample_clock = \<lparr>tc_frequency_hz = 4000000000, tc_multiplier = 2 ^ 62, tc_shift = 64\<rparr>"

lemma sample_clock_calibrated: "from_frequency 4000000000 = Inr sample_clock"
proof -
  have "choose_shift 4000000000 (Suc 63) = Inr (Suc 63)"
    using fits_word [of 64 4000000000] unfolding choose_shift.simps by (simp add: checked_shl_def exact_multiplier_def)
  then show ?thesis by (simp add: from_frequency_def checked_shl_def div_ceil_def sample_clock_def)
qed

theorem clock_conversions_sound_witness:
  "unat (8 :: u64) * 1000000000 div unat (4000000000 :: u64) \<le> unat (cycles_to_ns sample_clock 8)
    \<and> unat (cycles_to_ns sample_clock 8) \<le> unat (8 :: u64) * 1000000000 div unat (4000000000 :: u64) + 1
    \<and> unat (5 :: u64) \<le> unat (cycles_to_ns sample_clock (ns_to_cycles sample_clock 5))
    \<and> unat (cycles_to_ns sample_clock (ns_to_cycles sample_clock 5)) \<le> unat (5 :: u64) + 999999999 div unat (4000000000 :: u64) + 1"
  by (rule clock_conversions_sound [OF sample_clock_calibrated])
    (simp_all add: unat_ns_to_cycles, simp_all add: sample_clock_def)

end
