(* ===== verification/Sched_Hw.thy ===== *)
theory Sched_Hw
  imports Rust_Prelude
begin

text \<open>
  The hardware models of \<^verbatim>\<open>src/crates/huesos-sched/src/hw.rs\<close>: the size of the xstate save area
  from the CPUID leaf, the table of process-context identifiers (PCIDs), and the topology parsed
  from the extended topology leaf. A CPUID subleaf is a tuple of its registers. The lemmas say
  when each parser succeeds and what it returns, and that the PCID table never hands out the
  same pair of identifier and generation twice and refuses pairs it handed out earlier.
\<close>

section \<open>Save area\<close>

record xsave_layout =
  xl_align :: nat
  xl_size :: u64
  xl_xcr0 :: u64

datatype xsave_error = NoCpuId | ComponentIndexOutOfRange | Oversized

record xsave_model =
  xm_xcr0 :: u64
  xm_components :: "u32 list"
  xm_max_size :: u64

text \<open>The first loop of \<^verbatim>\<open>from_cpuid\<close>, from component \<^verbatim>\<open>index\<close> on.\<close>

fun load_components :: "nat \<Rightarrow> (u32 \<times> u32 \<times> u32) list \<Rightarrow> u32 list \<Rightarrow> xsave_error + u32 list" where
  "load_components index [] components = Inr components"
| "load_components index ((_, ebx, _) # rest) components =
     (if 64 \<le> index then Inl ComponentIndexOutOfRange
      else load_components (Suc index) rest (components[index := ebx]))"

text \<open>The second loop, adding the sizes of the enabled components.\<close>

fun add_components :: "u64 \<Rightarrow> nat \<Rightarrow> u32 list \<Rightarrow> u64 \<Rightarrow> xsave_error + u64" where
  "add_components xcr0 index [] acc = Inr acc"
| "add_components xcr0 index (component_size # rest) acc =
     (if xcr0 AND push_bit index 1 \<noteq> 0 then
        (case checked_add acc (ucast component_size) of
           None \<Rightarrow> Inl Oversized
         | Some acc' \<Rightarrow> add_components xcr0 (Suc index) rest acc')
      else add_components xcr0 (Suc index) rest acc)"

definition from_cpuid :: "(u32 \<times> u32 \<times> u32) list \<Rightarrow> u64 \<Rightarrow> xsave_error + xsave_model" where
  "from_cpuid subleaves xcr0 =
     (if subleaves = [] then Inl NoCpuId
      else case load_components 0 subleaves (replicate 64 0) of
        Inl e \<Rightarrow> Inl e
      | Inr components \<Rightarrow>
          (case add_components xcr0 0 components 512 of
             Inl e \<Rightarrow> Inl e
           | Inr acc \<Rightarrow>
               if 2 ^ 20 < acc then Inl Oversized
               else Inr \<lparr>xm_xcr0 = xcr0, xm_components = components, xm_max_size = acc\<rparr>))"

definition xsave_layout_of :: "xsave_model \<Rightarrow> xsave_layout" where
  "xsave_layout_of m = \<lparr>xl_align = 64, xl_size = xm_max_size m, xl_xcr0 = xm_xcr0 m\<rparr>"

definition component_size :: "xsave_model \<Rightarrow> nat \<Rightarrow> u32 option" where
  "component_size m index = (if index < length (xm_components m) then Some (xm_components m ! index) else None)"

section \<open>PCID table\<close>

record pcid_table =
  pt_generations :: "u64 list"
  pt_active :: "u64 list"
  pt_next :: nat

datatype pcid_error = PcidExhausted | PcidNotActive | PcidInUse

definition pcid_new :: "nat \<Rightarrow> pcid_table" where
  "pcid_new max_pcids = \<lparr>pt_generations = replicate max_pcids 0, pt_active = replicate max_pcids 0, pt_next = 1\<rparr>"

text \<open>The loop of \<^verbatim>\<open>allocate\<close> with the number of rounds left. A table of one entry starts with a
  \<^verbatim>\<open>next\<close> outside the table and panics on the first access, which is None.\<close>

fun pcid_allocate_loop :: "nat \<Rightarrow> pcid_table \<Rightarrow> ((pcid_error + nat \<times> u64) \<times> pcid_table) option" where
  "pcid_allocate_loop 0 t = Some (Inl PcidExhausted, t)"
| "pcid_allocate_loop (Suc n) t =
     (let pcid = pt_next t; t' = t\<lparr>pt_next := (pt_next t + 1) mod length (pt_generations t)\<rparr> in
      if pcid = 0 then pcid_allocate_loop n t'
      else if length (pt_generations t) \<le> pcid then None
      else if pt_generations t ! pcid = - 1 then pcid_allocate_loop n t'
      else
        let g = pt_generations t ! pcid + 1 in
        Some (Inr (pcid, g), t'\<lparr>pt_generations := (pt_generations t)[pcid := g]\<rparr>))"

definition pcid_allocate :: "pcid_table \<Rightarrow> ((pcid_error + nat \<times> u64) \<times> pcid_table) option" where
  "pcid_allocate t = pcid_allocate_loop (length (pt_generations t)) t"

text \<open>A shift by 64 or more panics.\<close>

definition pcid_activate :: "pcid_table \<Rightarrow> nat \<Rightarrow> u64 \<Rightarrow> nat \<Rightarrow> ((pcid_error + unit) \<times> pcid_table) option" where
  "pcid_activate t pcid generation cpu =
     (if length (pt_generations t) \<le> pcid \<or> pt_generations t ! pcid \<noteq> generation then Some (Inl PcidInUse, t)
      else if 64 \<le> cpu then None
      else Some (Inr (), t\<lparr>pt_active := (pt_active t)[pcid := pt_active t ! pcid OR push_bit cpu 1]\<rparr>))"

definition pcid_deactivate :: "pcid_table \<Rightarrow> nat \<Rightarrow> u64 \<Rightarrow> nat \<Rightarrow> ((pcid_error + unit) \<times> pcid_table) option" where
  "pcid_deactivate t pcid generation cpu =
     (if length (pt_generations t) \<le> pcid \<or> pt_generations t ! pcid \<noteq> generation then Some (Inl PcidInUse, t)
      else if 64 \<le> cpu then None
      else Some (Inr (), t\<lparr>pt_active := (pt_active t)[pcid := pt_active t ! pcid AND NOT (push_bit cpu 1)]\<rparr>))"

definition pcid_is_active :: "pcid_table \<Rightarrow> nat \<Rightarrow> u64 \<Rightarrow> bool" where
  "pcid_is_active t pcid generation \<longleftrightarrow>
     pcid < length (pt_generations t) \<and> pt_generations t ! pcid = generation \<and> pt_active t ! pcid \<noteq> 0"

definition pcid_active_mask :: "pcid_table \<Rightarrow> nat \<Rightarrow> u64 \<Rightarrow> u64" where
  "pcid_active_mask t pcid generation =
     (if length (pt_generations t) \<le> pcid \<or> pt_generations t ! pcid \<noteq> generation then 0 else pt_active t ! pcid)"

section \<open>Topology\<close>

record cpu_topology =
  ct_smt_per_core :: u32
  ct_cores_per_package :: u32
  ct_logical_per_package :: u32

datatype topology_error = LeafUnavailable | TopologyInvalid | TopologyZero

definition leaf_step ::
  "u32 option \<times> u32 option \<times> u32 \<Rightarrow> u32 \<times> u32 \<times> u32 \<times> u32 \<Rightarrow> u32 option \<times> u32 option \<times> u32" where
  "leaf_step st leaf =
     (case st of (smt, core, max_logical) \<Rightarrow>
        case leaf of (_, ebx, ecx, _) \<Rightarrow>
          let logical = max ((ebx AND 0xffff) + 1) 1;
              level_type = ecx AND 0xff in
          (if level_type = 1 then Some logical else smt,
           if level_type = 2 then Some logical else core,
           max max_logical logical))"

definition from_leaf_1f :: "(u32 \<times> u32 \<times> u32 \<times> u32) list \<Rightarrow> topology_error + cpu_topology" where
  "from_leaf_1f leaves =
     (case foldl leaf_step (None, None, 0) leaves of (smt, core, max_logical) \<Rightarrow>
        case smt of
          None \<Rightarrow> Inl LeafUnavailable
        | Some smt_per_core \<Rightarrow>
            (case core of
               None \<Rightarrow> Inl LeafUnavailable
             | Some cores_per_package \<Rightarrow>
                 Inr \<lparr>ct_smt_per_core = smt_per_core, ct_cores_per_package = cores_per_package,
                      ct_logical_per_package = max max_logical 1\<rparr>))"

definition conservative :: cpu_topology where
  "conservative = \<lparr>ct_smt_per_core = 1, ct_cores_per_package = 1, ct_logical_per_package = 1\<rparr>"

section \<open>The save area holds every enabled component\<close>

lemma load_components_eq:
  "index \<le> 64 \<Longrightarrow> length components = 64 \<Longrightarrow>
     load_components index leaves components =
       (if 64 < index + length leaves then Inl ComponentIndexOutOfRange
        else Inr (take index components @ map (\<lambda>(_, ebx, _). ebx) leaves @ drop (index + length leaves) components))"
proof (induction index leaves components rule: load_components.induct)
  case (1 index components)
  then show ?case by simp
next
  case (2 index eax ebx ecx rest components)
  show ?case
  proof (cases "64 \<le> index")
    case False
    have "take (Suc index) (components[index := ebx]) = take index components @ [ebx]"
      using False 2(3) by (simp add: take_Suc_conv_app_nth)
    then show ?thesis using 2 False by simp
  qed simp
qed

definition enabled_sum :: "u64 \<Rightarrow> nat \<Rightarrow> u32 list \<Rightarrow> nat" where
  "enabled_sum xcr0 index components =
     (\<Sum>i\<leftarrow>[0..<length components]. if bit xcr0 (index + i) then unat (components ! i) else 0)"

lemma enabled_sum_Cons:
  "enabled_sum xcr0 index (c # cs) = (if bit xcr0 index then unat c else 0) + enabled_sum xcr0 (Suc index) cs"
proof -
  have "[0..<length (c # cs)] = 0 # map Suc [0..<length cs]" by (simp add: map_Suc_upt upt_conv_Cons del: upt_Suc)
  then show ?thesis unfolding enabled_sum_def by (simp add: comp_def del: upt_Suc cong: if_cong)
qed

lemma add_components_eq:
  assumes "index + length components \<le> 64" "unat acc + 2 ^ 32 * length components < 2 ^ 64"
  shows "\<exists>whole. add_components xcr0 index components acc = Inr whole \<and> unat whole = unat acc + enabled_sum xcr0 index components"
  using assms
proof (induction components arbitrary: index acc)
  case Nil
  then show ?case by (simp add: enabled_sum_def)
next
  case (Cons c cs)
  have bit: "xcr0 AND push_bit index 1 \<noteq> 0 \<longleftrightarrow> bit xcr0 index" using Cons.prems(1) by (intro and_push_bit_one) simp
  have c: "unat (ucast c :: u64) = unat c" "unat c < 2 ^ 32" using unat_lt_pow [of c] by (simp_all add: unat_ucast_up)
  show ?case
  proof (cases "bit xcr0 index")
    case True
    obtain acc' where s: "checked_add acc (ucast c) = Some acc'" "unat acc' = unat acc + unat c"
      using checked_add_None [of acc "ucast c"] checked_add_Some [of acc "ucast c"] c Cons.prems(2)
      by (cases "checked_add acc (ucast c)") auto
    have "unat acc' + 2 ^ 32 * length cs < 2 ^ 64" using s(2) c(2) Cons.prems(2) by simp
    then show ?thesis using Cons.IH [of "Suc index" acc'] Cons.prems(1) s True bit by (simp add: enabled_sum_Cons add.assoc)
  next
    case False
    then show ?thesis using Cons.IH [of "Suc index" acc] Cons.prems bit by (simp add: enabled_sum_Cons)
  qed
qed

lemma from_cpuid_spec:
  "from_cpuid leaves xcr0 =
     (let components = map (\<lambda>(_, ebx, _). ebx) leaves @ replicate (64 - length leaves) 0;
          acc = 512 + enabled_sum xcr0 0 components in
      if leaves = [] then Inl NoCpuId
      else if 64 < length leaves then Inl ComponentIndexOutOfRange
      else if 2 ^ 20 < acc then Inl Oversized
      else Inr \<lparr>xm_xcr0 = xcr0, xm_components = components, xm_max_size = of_nat acc\<rparr>)"
proof (cases "leaves = [] \<or> 64 < length leaves")
  case True
  then show ?thesis by (auto simp: from_cpuid_def load_components_eq Let_def)
next
  case False
  let ?cs = "map (\<lambda>(_, ebx, _). ebx) leaves @ replicate (64 - length leaves) 0"
  have len: "length ?cs = 64" using False by simp
  have load: "load_components 0 leaves (replicate 64 0) = Inr ?cs" using False by (simp add: load_components_eq)
  obtain whole where t: "add_components xcr0 0 ?cs 512 = Inr whole" "unat whole = 512 + enabled_sum xcr0 0 ?cs"
    using add_components_eq [of 0 ?cs 512 xcr0] len by auto
  have "2 ^ 20 < whole \<longleftrightarrow> 2 ^ 20 < 512 + enabled_sum xcr0 0 ?cs" using t(2) by (simp add: word_less_nat_alt)
  moreover have "of_nat (unat whole) = whole" by simp
  then have "whole = of_nat (512 + enabled_sum xcr0 0 ?cs)" by (simp only: t(2))
  ultimately show ?thesis using False load t(1) by (simp add: from_cpuid_def Let_def)
qed

section \<open>Identifiers are not handed out twice\<close>

definition pcid_wf :: "pcid_table \<Rightarrow> bool" where
  "pcid_wf t \<longleftrightarrow> 2 \<le> length (pt_generations t) \<and> length (pt_active t) = length (pt_generations t)
     \<and> pt_next t < length (pt_generations t)"

lemma pcid_loop_spec:
  assumes "pcid_wf t"
  shows "\<exists>r t'. pcid_allocate_loop n t = Some (r, t') \<and> pcid_wf t' \<and> pt_active t' = pt_active t
    \<and> (case r of
         Inl e \<Rightarrow> e = PcidExhausted \<and> pt_generations t' = pt_generations t
       | Inr (pcid, g) \<Rightarrow> 0 < pcid \<and> pcid < length (pt_generations t) \<and> unat g = Suc (unat (pt_generations t ! pcid))
           \<and> pt_generations t' = (pt_generations t)[pcid := g])"
  using assms
proof (induction n arbitrary: t)
  case 0
  then show ?case by (intro exI [of _ "Inl PcidExhausted"] exI [of _ t]) simp
next
  case (Suc n)
  let ?t = "t\<lparr>pt_next := (pt_next t + 1) mod length (pt_generations t)\<rparr>"
  have "0 < length (pt_generations t)" using Suc.prems by (auto simp: pcid_wf_def)
  then have wf: "pcid_wf ?t" using Suc.prems by (simp add: pcid_wf_def)
  show ?case
  proof (cases "pt_next t = 0 \<or> pt_generations t ! pt_next t = - 1")
    case True
    then have skip: "pcid_allocate_loop (Suc n) t = pcid_allocate_loop n ?t"
      using Suc.prems by (auto simp: pcid_wf_def Let_def)
    have same: "pt_generations ?t = pt_generations t" "pt_active ?t = pt_active t" by simp_all
    show ?thesis unfolding skip using Suc.IH [OF wf] unfolding same .
  next
    case False
    let ?g = "pt_generations t ! pt_next t + 1"
    have "pcid_allocate_loop (Suc n) t =
        Some (Inr (pt_next t, ?g), ?t\<lparr>pt_generations := (pt_generations t)[pt_next t := ?g]\<rparr>)"
      using False Suc.prems by (auto simp: pcid_wf_def Let_def)
    then show ?thesis using False Suc.prems wf by (auto simp: pcid_wf_def unat_plus_one)
  qed
qed

text \<open>One call on the table, with the pairs handed out so far.\<close>

type_synonym pcid_world = "pcid_table \<times> (nat \<times> u64) list"

inductive pcid_call :: "pcid_world \<Rightarrow> pcid_world \<Rightarrow> bool" where
  allocated: "pcid_allocate t = Some (Inr (pcid, g), t') \<Longrightarrow> pcid_call (t, issued) (t', (pcid, g) # issued)"
| exhausted: "pcid_allocate t = Some (Inl e, t') \<Longrightarrow> pcid_call (t, issued) (t', issued)"
| activated: "pcid_activate t pcid g cpu = Some (r, t') \<Longrightarrow> pcid_call (t, issued) (t', issued)"
| deactivated: "pcid_deactivate t pcid g cpu = Some (r, t') \<Longrightarrow> pcid_call (t, issued) (t', issued)"

definition pcid_inv :: "pcid_world \<Rightarrow> bool" where
  "pcid_inv w \<longleftrightarrow> (case w of (t, issued) \<Rightarrow> pcid_wf t \<and> distinct issued
     \<and> (\<forall>pcid g. (pcid, g) \<in> set issued \<longrightarrow> 0 < pcid \<and> pcid < length (pt_generations t) \<and> 0 < g \<and> g \<le> pt_generations t ! pcid))"

lemma pcid_marks_wf:
  "pcid_activate t pcid g cpu = Some (r, t') \<Longrightarrow> pcid_wf t \<Longrightarrow> pcid_wf t' \<and> pt_generations t' = pt_generations t"
  "pcid_deactivate t pcid g cpu = Some (r, t') \<Longrightarrow> pcid_wf t \<Longrightarrow> pcid_wf t' \<and> pt_generations t' = pt_generations t"
  by (auto simp: pcid_activate_def pcid_deactivate_def pcid_wf_def split: if_splits)

lemma pcid_call_inv:
  assumes inv: "pcid_inv w" and "pcid_call w w'"
  shows "pcid_inv w'"
  using assms(2,1)
proof cases
  case (allocated t pcid g t' issued)
  have wf: "pcid_wf t" using inv allocated by (simp add: pcid_inv_def)
  obtain t'' where spec: "pcid_wf t'" "0 < pcid" "pcid < length (pt_generations t)" "unat g = Suc (unat (pt_generations t ! pcid))"
    "pt_generations t' = (pt_generations t)[pcid := g]"
    using pcid_loop_spec [OF wf, of "length (pt_generations t)"] allocated(3) by (auto simp: pcid_allocate_def)
  have less: "pt_generations t ! pcid < g" using spec(4) by (simp add: word_less_nat_alt)
  then have "(pcid, g) \<notin> set issued" using inv allocated(1) by (fastforce simp: pcid_inv_def)
  moreover have "0 < g" using spec(4) by (auto simp: word_gt_0)
  ultimately show ?thesis using inv allocated spec less by (fastforce simp: pcid_inv_def nth_list_update)
next
  case (exhausted t e t' issued)
  then show ?thesis using inv pcid_loop_spec [of t "length (pt_generations t)"] by (auto simp: pcid_inv_def pcid_allocate_def)
qed (use inv pcid_marks_wf in \<open>auto simp: pcid_inv_def\<close>)

interpretation pcids: invariant_machine "\<lambda>w. \<exists>n. 2 \<le> n \<and> w = (pcid_new n, [])" pcid_call pcid_inv
proof unfold_locales
  show "pcid_inv w" if "\<exists>n. 2 \<le> n \<and> w = (pcid_new n, [])" for w
    using that by (auto simp: pcid_inv_def pcid_wf_def pcid_new_def)
qed (rule pcid_call_inv)

lemma pcid_call_size: "pcid_inv w \<Longrightarrow> pcid_call w w' \<Longrightarrow> length (pt_generations (fst w')) = length (pt_generations (fst w))"
proof (erule pcid_call.cases)
  show "length (pt_generations (fst w')) = length (pt_generations (fst w))"
    if "pcid_inv w" "w = (t, issued)" "w' = (t', (pcid, g) # issued)" "pcid_allocate t = Some (Inr (pcid, g), t')"
    for t pcid g t' issued
    using that pcid_loop_spec [of t "length (pt_generations t)"] by (auto simp: pcid_inv_def pcid_allocate_def)
  show "length (pt_generations (fst w')) = length (pt_generations (fst w))"
    if "pcid_inv w" "w = (t, issued)" "w' = (t', issued)" "pcid_allocate t = Some (Inl e, t')" for t e t' issued
    using that pcid_loop_spec [of t "length (pt_generations t)"] by (auto simp: pcid_inv_def pcid_allocate_def)
qed (auto simp: pcid_activate_def pcid_deactivate_def split: if_splits)

lemma pcid_table_size:
  assumes "2 \<le> n" "pcid_call\<^sup>*\<^sup>* (pcid_new n, []) (t, issued)"
  shows "length (pt_generations t) = n"
proof -
  have "length (pt_generations (fst w)) = n" if "pcid_call\<^sup>*\<^sup>* (pcid_new n, []) w" for w
    using that
  proof (induction rule: rtranclp_induct)
    case (step v w)
    have "pcid_inv v" using pcids.reachable_inv assms(1) step.hyps(1) by blast
    then show ?case using pcid_call_size step by simp
  qed (simp add: pcid_new_def)
  then show ?thesis using assms(2) by fastforce
qed

text \<open>
  C36: Over any history on a PCID table of at least two entries no pair of identifier and generation
  is handed out twice, the reserved identifier zero never is, and an allocation always answers.
  Activating or deactivating with a pair that is not the latest of its identifier is refused and
  changes nothing, and such a pair counts as active nowhere. With the latest pair the two calls
  set and clear exactly the bit of the CPU, and leave every other identifier alone. (Nothing here
  keeps \<^verbatim>\<open>allocate\<close> from reusing an identifier that is active: lemma \<open>pcid_reused_while_active\<close>.)
\<close>

theorem pcid_pairs_unique:
  assumes "2 \<le> n" "pcid_call\<^sup>*\<^sup>* (pcid_new n, []) (t, issued)"
  shows "distinct issued \<and> (\<forall>(pcid, g)\<in>set issued. 0 < pcid \<and> pcid < length (pt_generations t))
    \<and> (\<exists>r t'. pcid_allocate t = Some (r, t')
        \<and> (case r of Inl e \<Rightarrow> e = PcidExhausted | Inr new \<Rightarrow> new \<notin> set issued))
    \<and> (g \<noteq> pt_generations t ! pcid \<longrightarrow>
        pcid_activate t pcid g cpu = Some (Inl PcidInUse, t) \<and> pcid_deactivate t pcid g cpu = Some (Inl PcidInUse, t)
      \<and> \<not> pcid_is_active t pcid g \<and> pcid_active_mask t pcid g = 0)
    \<and> (pcid < n \<and> cpu < 64 \<longrightarrow>
        (\<exists>t1 t2. pcid_activate t pcid (pt_generations t ! pcid) cpu = Some (Inr (), t1)
           \<and> pcid_deactivate t pcid (pt_generations t ! pcid) cpu = Some (Inr (), t2)
           \<and> (\<forall>other h. pcid_active_mask t1 other h = (if other = pcid \<and> h = pt_generations t ! pcid
                then pcid_active_mask t other h OR push_bit cpu 1 else pcid_active_mask t other h))
           \<and> (\<forall>other h. pcid_active_mask t2 other h = (if other = pcid \<and> h = pt_generations t ! pcid
                then pcid_active_mask t other h AND NOT (push_bit cpu 1) else pcid_active_mask t other h))))"
proof -
  have inv: "pcid_inv (t, issued)" using pcids.reachable_inv assms by blast
  then have wf: "pcid_wf t" by (simp add: pcid_inv_def)
  obtain r t' where r: "pcid_allocate t = Some (r, t')"
    and spec: "case r of Inl e \<Rightarrow> e = PcidExhausted \<and> pt_generations t' = pt_generations t
      | Inr (pcid, g) \<Rightarrow> 0 < pcid \<and> pcid < length (pt_generations t) \<and> unat g = Suc (unat (pt_generations t ! pcid))
          \<and> pt_generations t' = (pt_generations t)[pcid := g]"
    using pcid_loop_spec [OF wf, of "length (pt_generations t)"] unfolding pcid_allocate_def by blast
  have "case r of Inl e \<Rightarrow> e = PcidExhausted | Inr new \<Rightarrow> new \<notin> set issued"
    using spec inv by (fastforce simp: pcid_inv_def word_le_nat_alt split: sum.splits)
  moreover have "\<exists>t1 t2. pcid_activate t pcid (pt_generations t ! pcid) cpu = Some (Inr (), t1)
      \<and> pcid_deactivate t pcid (pt_generations t ! pcid) cpu = Some (Inr (), t2)
      \<and> (\<forall>other h. pcid_active_mask t1 other h = (if other = pcid \<and> h = pt_generations t ! pcid
           then pcid_active_mask t other h OR push_bit cpu 1 else pcid_active_mask t other h))
      \<and> (\<forall>other h. pcid_active_mask t2 other h = (if other = pcid \<and> h = pt_generations t ! pcid
           then pcid_active_mask t other h AND NOT (push_bit cpu 1) else pcid_active_mask t other h))"
    if "pcid < n \<and> cpu < 64"
    using that wf pcid_table_size [OF assms] by (auto simp: pcid_activate_def pcid_deactivate_def pcid_active_mask_def pcid_wf_def)
  ultimately show ?thesis using inv r
    by (auto simp: pcid_inv_def pcid_activate_def pcid_deactivate_def pcid_is_active_def pcid_active_mask_def)
qed

definition sample_pcids :: pcid_table where
  "sample_pcids = \<lparr>pt_generations = [0, 1], pt_active = [0, 0], pt_next = 0\<rparr>"

lemma sample_pcids_reached: "pcid_call\<^sup>*\<^sup>* (pcid_new 2, []) (sample_pcids, [(1, 1)])"
proof -
  have "pcid_allocate (pcid_new 2) = Some (Inr (1, 1), sample_pcids)"
    by (simp add: pcid_allocate_def pcid_new_def sample_pcids_def numeral_2_eq_2)
  then show ?thesis by (blast intro: allocated)
qed

theorem pcid_pairs_unique_witness:
  "(\<exists>r t'. pcid_allocate sample_pcids = Some (r, t')
     \<and> (case r of Inl e \<Rightarrow> e = PcidExhausted | Inr new \<Rightarrow> new \<notin> set [(1, 1)]))
   \<and> pcid_activate sample_pcids 1 7 3 = Some (Inl PcidInUse, sample_pcids)
   \<and> pcid_deactivate sample_pcids 1 7 3 = Some (Inl PcidInUse, sample_pcids)
   \<and> \<not> pcid_is_active sample_pcids 1 7 \<and> pcid_active_mask sample_pcids 1 7 = 0"
proof -
  have "7 \<noteq> pt_generations sample_pcids ! 1" by (simp add: sample_pcids_def)
  then show ?thesis using pcid_pairs_unique [OF _ sample_pcids_reached, of 7 1 3] by blast
qed

text \<open>\<^verbatim>\<open>allocate\<close> does not look at the processors an identifier is active on: with the first pair still
  active on processor 0 it hands the same identifier out again, and the new pair already counts
  as active there.\<close>

lemma pcid_reused_while_active:
  defines "t \<equiv> sample_pcids\<lparr>pt_active := [0, 1]\<rparr>"
  shows "pcid_activate sample_pcids 1 1 0 = Some (Inr (), t)"
    and "\<exists>t'. pcid_allocate t = Some (Inr (1, 2), t') \<and> pcid_is_active t' 1 2"
  by (simp_all add: t_def sample_pcids_def pcid_activate_def pcid_allocate_def pcid_is_active_def)

section \<open>Topology\<close>

lemma max_one_pos: "0 < max w (1 :: u32)"
  by (rule less_le_trans [of _ 1]) simp_all

lemma topology_fold:
  assumes "(\<forall>l. smt = Some l \<longrightarrow> 0 < l) \<and> (\<forall>l. core = Some l \<longrightarrow> 0 < l)"
    "foldl leaf_step (smt, core, high) leaves = (smt', core', high')"
  shows "(\<forall>l. smt' = Some l \<longrightarrow> 0 < l) \<and> (\<forall>l. core' = Some l \<longrightarrow> 0 < l)
    \<and> (smt' = None \<longleftrightarrow> smt = None \<and> (\<forall>(_, _, ecx, _)\<in>set leaves. ecx AND 0xff \<noteq> 1))
    \<and> (core' = None \<longleftrightarrow> core = None \<and> (\<forall>(_, _, ecx, _)\<in>set leaves. ecx AND 0xff \<noteq> 2))"
  using assms
proof (induction leaves arbitrary: smt core high)
  case (Cons leaf leaves)
  obtain a ebx ecx d where leaf: "leaf = (a, ebx, ecx, d)" by (cases leaf)
  obtain s c m where st: "leaf_step (smt, core, high) leaf = (s, c, m)" by (cases "leaf_step (smt, core, high) leaf")
  define L where "L = max ((ebx AND 0xffff) + 1) 1"
  have L: "0 < L" unfolding L_def by (rule max_one_pos)
  have sc: "s = (if ecx AND 0xff = 1 then Some L else smt)" "c = (if ecx AND 0xff = 2 then Some L else core)"
    using st unfolding leaf leaf_step_def Let_def prod.case L_def [symmetric] by (simp_all only: prod.inject)
  have pos: "(\<forall>l. s = Some l \<longrightarrow> 0 < l) \<and> (\<forall>l. c = Some l \<longrightarrow> 0 < l)"
    unfolding sc using L Cons.prems(1) by simp
  have "foldl leaf_step (s, c, m) leaves = (smt', core', high')" using Cons.prems(2) st by simp
  from Cons.IH [OF pos this] show ?case unfolding sc leaf by simp
qed auto

text \<open>Parsing fails exactly when the thread or the core level is missing, and counts are positive.\<close>

lemma from_leaf_1f_spec:
  "case from_leaf_1f leaves of
     Inl e \<Rightarrow> e = LeafUnavailable
       \<and> ((\<forall>(_, _, ecx, _)\<in>set leaves. ecx AND 0xff \<noteq> 1) \<or> (\<forall>(_, _, ecx, _)\<in>set leaves. ecx AND 0xff \<noteq> 2))
   | Inr t \<Rightarrow> 0 < ct_smt_per_core t \<and> 0 < ct_cores_per_package t \<and> 0 < ct_logical_per_package t"
proof -
  obtain s c m where f: "foldl leaf_step (None, None, 0) leaves = (s, c, m)" by (cases "foldl leaf_step (None, None, 0) leaves")
  show ?thesis using topology_fold [OF _ f] max_one_pos [of m] by (auto simp: from_leaf_1f_def f split: option.splits)
qed

end
