(* ===== verification/Nvme_Prp.thy ===== *)
theory Nvme_Prp
  imports Rust_Prelude "HOL-Library.Monad_Syntax"
begin

text \<open>
  The PRP (physical region page) layout of \<^verbatim>\<open>src/crates/huesos-nvme/src/prp.rs\<close>: which pages a
  transfer touches, the addresses of the pages after the first, and the chained list pages the
  controller reads. The build checks arithmetic, so an operation that can overflow or divide by
  zero has an option as its value, where None is the panic. Values of 32 bits widened to 64 bits
  cannot overflow and are read as natural numbers. The lemmas give \<^verbatim>\<open>plan_list\<close> in closed form and
  compare it with what a controller reads.
\<close>

section \<open>Pages of a transfer\<close>

definition prp1 :: "u64 \<Rightarrow> u32 \<Rightarrow> u64 option" where
  "prp1 base offset = checked_add base (ucast offset)"

definition pages_touched :: "u32 \<Rightarrow> u32 \<Rightarrow> u32 \<Rightarrow> nat option" where
  "pages_touched offset len page_size =
     (if len = 0 then Some 0
      else if page_size = 0 then None
      else
        let ps = unat page_size; start = unat offset; finish = start + unat len;
            first = start div ps; last = (finish - 1) div ps in
        Some (last - first + 1))"

definition needs_prp_list :: "u32 \<Rightarrow> u32 \<Rightarrow> u32 \<Rightarrow> bool option" where
  "needs_prp_list offset len page_size = map_option (\<lambda>n. 2 < n) (pages_touched offset len page_size)"

definition rest_count :: "u32 \<Rightarrow> u32 \<Rightarrow> u32 \<Rightarrow> nat option" where
  "rest_count offset len page_size = map_option (\<lambda>n. n - 1) (pages_touched offset len page_size)"

definition page_base :: "u64 \<Rightarrow> u32 \<Rightarrow> u32 \<Rightarrow> nat \<Rightarrow> u64 option" where
  "page_base base offset page_size n =
     do { mask \<leftarrow> checked_sub (ucast page_size) 1;
          first \<leftarrow> checked_add base (ucast offset);
          skip \<leftarrow> checked_mul (of_nat n) (ucast page_size);
          checked_add (first AND NOT mask) skip }"

definition rest_page :: "u64 \<Rightarrow> u32 \<Rightarrow> u32 \<Rightarrow> nat \<Rightarrow> u64 option" where
  "rest_page base offset page_size i = page_base base offset page_size (i + 1)"

fun fill_rest_loop :: "u64 \<Rightarrow> u32 \<Rightarrow> u32 \<Rightarrow> nat \<Rightarrow> nat \<Rightarrow> u64 list \<Rightarrow> u64 list option" where
  "fill_rest_loop base offset page_size 0 i out = Some out"
| "fill_rest_loop base offset page_size (Suc n) i out =
     do { v \<leftarrow> rest_page base offset page_size i;
          fill_rest_loop base offset page_size n (Suc i) (out[i := v]) }"

definition fill_rest :: "u64 \<Rightarrow> u32 \<Rightarrow> u32 \<Rightarrow> u32 \<Rightarrow> u64 list \<Rightarrow> (nat \<times> u64 list) option" where
  "fill_rest base offset len page_size out =
     do { entries \<leftarrow> rest_count offset len page_size;
          let n = min entries (length out);
          out' \<leftarrow> fill_rest_loop base offset page_size n 0 out;
          Some (n, out') }"

section \<open>List pages\<close>

definition entries_per_list_page :: "u32 \<Rightarrow> nat" where
  "entries_per_list_page page_size = unat page_size div 8"

definition list_pages_for :: "nat \<Rightarrow> nat \<Rightarrow> nat" where
  "list_pages_for entries per_page =
     (if entries \<le> 1 \<or> per_page < 2 then 0
      else if entries \<le> per_page then 1
      else
        let usable = per_page - 1;
            pages = (if entries mod usable \<noteq> 0 then entries div usable + 1 else entries div usable) in
        if entries \<le> (pages - 1) * usable + per_page then pages else pages + 1)"

definition list_pages_needed :: "u32 \<Rightarrow> u32 \<Rightarrow> u32 \<Rightarrow> nat option" where
  "list_pages_needed offset len page_size =
     map_option (\<lambda>entries. list_pages_for entries (entries_per_list_page page_size)) (rest_count offset len page_size)"

record list_slot =
  ls_list_page :: nat
  ls_slot :: nat
  ls_value :: u64
  ls_is_chain :: bool

text \<open>The inner loop of \<^verbatim>\<open>plan_list\<close>. The outer option is the panic, the inner one the early
  \<^verbatim>\<open>return None\<close>; \<^verbatim>\<open>room\<close> is \<^verbatim>\<open>out.len()\<close>, and the slots written so far are the list.\<close>

function plan_slots ::
  "(nat \<Rightarrow> u64 option) \<Rightarrow> nat \<Rightarrow> nat \<Rightarrow> nat \<Rightarrow> nat \<Rightarrow> nat \<Rightarrow> nat \<Rightarrow> list_slot list \<Rightarrow> (nat \<times> list_slot list) option option" where
  "plan_slots rest room page capacity entries slot entry out =
     (if slot < capacity \<and> entry < entries then
        if room \<le> length out then Some None
        else do { v \<leftarrow> rest entry;
                  plan_slots rest room page capacity entries (slot + 1) (entry + 1)
                    (out @ [\<lparr>ls_list_page = page, ls_slot = slot, ls_value = v, ls_is_chain = False\<rparr>]) }
      else Some (Some (entry, out)))"
  by pat_completeness auto
termination
  by (relation "measure (\<lambda>(rest, room, page, capacity, entries, slot, entry, out). capacity - slot)") auto

text \<open>The outer loop; every page takes at least one entry, so the number of entries is enough
  fuel, and None for lack of fuel never arises.\<close>

fun plan_pages ::
  "nat \<Rightarrow> (nat \<Rightarrow> u64 option) \<Rightarrow> nat \<Rightarrow> u64 list \<Rightarrow> nat \<Rightarrow> nat \<Rightarrow> nat \<Rightarrow> nat \<Rightarrow> nat \<Rightarrow> list_slot list \<Rightarrow> list_slot list option option" where
  "plan_pages fuel rest room list_pages per_page needed entries page entry out =
     (if entries \<le> entry then Some (Some out)
      else case fuel of 0 \<Rightarrow> None
      | Suc fuel' \<Rightarrow>
          let is_last_page = page + 1 = needed;
              capacity = (if is_last_page then per_page else per_page - 1) in
          (case plan_slots rest room page capacity entries 0 entry out of
             None \<Rightarrow> None
           | Some None \<Rightarrow> Some None
           | Some (Some (entry', out')) \<Rightarrow>
               if is_last_page then plan_pages fuel' rest room list_pages per_page needed entries (page + 1) entry' out'
               else if room \<le> length out' then Some None
               else if length list_pages \<le> page + 1 then None
               else plan_pages fuel' rest room list_pages per_page needed entries (page + 1) entry'
                 (out' @ [\<lparr>ls_list_page = page, ls_slot = per_page - 1, ls_value = list_pages ! (page + 1), ls_is_chain = True\<rparr>])))"

definition plan_list :: "u64 \<Rightarrow> u32 \<Rightarrow> u32 \<Rightarrow> u32 \<Rightarrow> u64 list \<Rightarrow> nat \<Rightarrow> list_slot list option option" where
  "plan_list base offset len page_size list_pages room =
     do { entries \<leftarrow> rest_count offset len page_size;
          needed \<leftarrow> list_pages_needed offset len page_size;
          if needed = 0 \<or> length list_pages < needed then Some None
          else plan_pages entries (rest_page base offset page_size) room list_pages
                 (entries_per_list_page page_size) needed entries 0 0 [] }"

declare plan_slots.simps [simp del] plan_pages.simps [simp del]

section \<open>The layout in closed form\<close>

abbreviation data_slot :: "(nat \<Rightarrow> u64) \<Rightarrow> nat \<Rightarrow> nat \<Rightarrow> nat \<Rightarrow> list_slot" where
  "data_slot v entry page slot \<equiv> \<lparr>ls_list_page = page, ls_slot = slot, ls_value = v entry, ls_is_chain = False\<rparr>"

definition page_slots :: "(nat \<Rightarrow> u64) \<Rightarrow> nat \<Rightarrow> nat \<Rightarrow> nat \<Rightarrow> list_slot list" where
  "page_slots v first page n = map (\<lambda>i. data_slot v (first + i) page i) [0..<n]"

definition chain_slot :: "u64 list \<Rightarrow> nat \<Rightarrow> nat \<Rightarrow> list_slot" where
  "chain_slot list_pages per_page page =
     \<lparr>ls_list_page = page, ls_slot = per_page - 1, ls_value = list_pages ! (page + 1), ls_is_chain = True\<rparr>"

text \<open>The slots of the pages from \<^verbatim>\<open>page\<close> on, \<^verbatim>\<open>n\<close> of them before the last.\<close>

fun layout_from :: "(nat \<Rightarrow> u64) \<Rightarrow> u64 list \<Rightarrow> nat \<Rightarrow> nat \<Rightarrow> nat \<Rightarrow> nat \<Rightarrow> list_slot list" where
  "layout_from v list_pages per_page entries 0 page =
     page_slots v (page * (per_page - 1)) page (entries - page * (per_page - 1))"
| "layout_from v list_pages per_page entries (Suc n) page =
     page_slots v (page * (per_page - 1)) page (per_page - 1) @ chain_slot list_pages per_page page
       # layout_from v list_pages per_page entries n (Suc page)"

lemma plan_slots_eq:
  assumes "\<forall>e < entries. rest e = Some (v e)" "entry \<le> entries" "slot \<le> capacity"
  shows "plan_slots rest room page capacity entries slot entry out =
    (let n = min (capacity - slot) (entries - entry) in
     Some (if n \<noteq> 0 \<and> room < length out + n then None
       else Some (entry + n, out @ map (\<lambda>i. data_slot v (entry + i) page (slot + i)) [0..<n])))"
  using assms(2,3)
proof (induction "capacity - slot" arbitrary: slot entry out)
  case 0
  then show ?case by (subst plan_slots.simps) simp
next
  case (Suc k)
  show ?case
  proof (cases "entry < entries")
    case False
    then show ?thesis using Suc.prems by (subst plan_slots.simps) simp
  next
    case True
    have slot: "slot < capacity" using Suc.hyps(2) by simp
    let ?n = "min (capacity - Suc slot) (entries - Suc entry)"
    have n: "min (capacity - slot) (entries - entry) = Suc ?n" using True slot by simp
    have up: "[0..<Suc ?n] = 0 # map Suc [0..<?n]" by (simp add: map_Suc_upt upt_conv_Cons del: upt_Suc)
    have IH: "plan_slots rest room page capacity entries (Suc slot) (Suc entry) out' =
        Some (if ?n \<noteq> 0 \<and> room < length out' + ?n then None
          else Some (Suc entry + ?n, out' @ map (\<lambda>i. data_slot v (Suc entry + i) page (Suc slot + i)) [0..<?n]))" for out'
      using Suc.hyps(1) [of "Suc slot" "Suc entry" out'] Suc.hyps(2) True slot by (simp add: Let_def)
    show ?thesis
      unfolding n Let_def up by (subst plan_slots.simps) (use True slot assms(1) IH in \<open>auto simp: comp_def\<close>)
  qed
qed

lemma length_page_slots [simp]: "length (page_slots v first page n) = n"
  by (simp add: page_slots_def)

lemma plan_pages_eq:
  assumes rest: "\<forall>e < entries. rest e = Some (v e)" and P: "2 \<le> per_page"
    and E: "(needed - 1) * (per_page - 1) < entries" "entries \<le> (needed - 1) * (per_page - 1) + per_page"
    and lp: "needed \<le> length list_pages"
  shows "needed = page + Suc n \<Longrightarrow> n < fuel \<Longrightarrow>
    plan_pages fuel rest room list_pages per_page needed entries page (page * (per_page - 1)) out =
    (let L = layout_from v list_pages per_page entries n page in
     Some (if room < length out + length L then None else Some (out @ L)))"
proof (induction n arbitrary: page fuel out)
  case 0
  let ?U = "per_page - 1"
  obtain fuel' where fuel: "fuel = Suc fuel'" using 0 by (cases fuel) auto
  have page: "page = needed - 1" using 0 by simp
  have n: "min (per_page - 0) (entries - page * ?U) = entries - page * ?U" "page * ?U < entries"
    using E unfolding page by simp_all
  have stop: "plan_pages fuel' rest room list_pages per_page N entries p entries out' = Some (Some out')" for p N out'
    by (subst plan_pages.simps) simp
  show ?case
    using plan_slots_eq [OF rest, of "page * ?U" 0 per_page room page out] n 0 P
    by (subst plan_pages.simps) (simp add: fuel Let_def page_slots_def stop)
next
  case (Suc n)
  let ?U = "per_page - 1"
  obtain fuel' where fuel: "fuel = Suc fuel'" using Suc.prems by (cases fuel) auto
  have "Suc page * ?U \<le> (needed - 1) * ?U" using Suc.prems by (intro mult_right_mono) simp_all
  then have more: "page * ?U + ?U < entries" using E(1) by simp
  have n: "min (?U - 0) (entries - page * ?U) = ?U" "?U \<noteq> 0" using more P by simp_all
  have slots: "plan_slots rest room page ?U entries 0 (page * ?U) out =
      Some (if room < length out + ?U then None else Some (Suc page * ?U, out @ page_slots v (page * ?U) page ?U))"
    using plan_slots_eq [OF rest, of "page * ?U" 0 ?U room page out, unfolded n Let_def] n(2) more
    by (simp only: page_slots_def) (simp add: add.commute)
  note IH = Suc.IH [of "Suc page" fuel', unfolded Let_def]
  show ?case
    by (subst plan_pages.simps)
      (use Suc.prems IH slots more lp in \<open>auto simp: fuel Let_def chain_slot_def\<close>)
qed

lemma list_pages_for_chained:
  assumes "2 \<le> per_page" "per_page < entries"
  shows "list_pages_for entries per_page = (entries + per_page - 2) div (per_page - 1)"
    "(list_pages_for entries per_page - 1) * (per_page - 1) < entries"
    "entries \<le> list_pages_for entries per_page * (per_page - 1)" "1 < list_pages_for entries per_page"
proof -
  define U where "U = per_page - 1"
  define q r where "q = entries div U" and "r = entries mod U"
  have U: "per_page = Suc U" "0 < U" using assms unfolding U_def by simp_all
  have e: "entries = q * U + r" "r < U" using U(2) by (simp_all add: q_def r_def)
  have q: "1 \<le> q" using e assms(2) U by (cases q) auto
  have pages: "list_pages_for entries per_page = (if r \<noteq> 0 then q + 1 else q)"
  proof -
    have "q * U = (q - 1) * U + U" using q by (cases q) simp_all
    then have "entries \<le> ((if r \<noteq> 0 then q + 1 else q) - 1) * U + per_page" using e U by auto
    then show ?thesis using assms
      unfolding list_pages_for_def Let_def U_def [symmetric] q_def [symmetric] r_def [symmetric] by auto
  qed
  have "(r + U - 1) div U = (if r \<noteq> 0 then 1 else 0)"
    using e(2) by (auto intro!: div_nat_eqI)
  moreover have "(q * U + r + U - 1) div U = q + (r + U - 1) div U"
    using div_mult_self3 [of U q "r + U - 1"] U(2) by (simp add: algebra_simps)
  ultimately show "list_pages_for entries per_page = (entries + per_page - 2) div (per_page - 1)"
    unfolding pages using U e(1) by simp
  have "U \<le> q * U" "r \<noteq> 0 \<Longrightarrow> q * U < entries" "r = 0 \<Longrightarrow> (q - 1) * U < entries"
    using q U(2) e by (cases q; simp)+
  then show "(list_pages_for entries per_page - 1) * (per_page - 1) < entries"
    unfolding pages U_def [symmetric] by simp
  show "entries \<le> list_pages_for entries per_page * (per_page - 1)"
    unfolding pages U_def [symmetric] using e by simp
  show "1 < list_pages_for entries per_page"
    unfolding pages using q e assms(2) U by (cases "q = 1") auto
qed

lemma list_pages_for_bounds:
  assumes "1 < entries" "2 \<le> per_page"
  shows "0 < list_pages_for entries per_page"
    "(list_pages_for entries per_page - 1) * (per_page - 1) < entries"
    "entries \<le> (list_pages_for entries per_page - 1) * (per_page - 1) + per_page"
proof -
  let ?N = "list_pages_for entries per_page"
  have "0 < ?N \<and> (?N - 1) * (per_page - 1) < entries \<and> entries \<le> (?N - 1) * (per_page - 1) + per_page"
  proof (cases "per_page < entries")
    case True
    note c = list_pages_for_chained [OF assms(2) True]
    have "?N * (per_page - 1) = (?N - 1) * (per_page - 1) + (per_page - 1)" using c(4) by (cases ?N) simp_all
    then show ?thesis using c by linarith
  next
    case False
    then show ?thesis using assms by (simp add: list_pages_for_def)
  qed
  then show "0 < ?N" "(?N - 1) * (per_page - 1) < entries" "entries \<le> (?N - 1) * (per_page - 1) + per_page" by blast+
qed

lemma length_layout:
  "page * (per_page - 1) + n * (per_page - 1) \<le> entries \<Longrightarrow>
     length (layout_from v list_pages per_page entries n page) = entries - page * (per_page - 1) + n"
proof (induction n arbitrary: page)
  case (Suc n)
  have "length (layout_from v list_pages per_page entries n (Suc page)) = entries - Suc page * (per_page - 1) + n"
    using Suc.prems by (intro Suc.IH) (simp only: mult_Suc ac_simps)
  moreover have "page * (per_page - 1) + (per_page - 1) \<le> entries" using Suc.prems by simp
  ultimately show ?case by (simp only: layout_from.simps length_append length_page_slots length_Cons mult_Suc) linarith
qed simp

lemma set_page_slots: "set (page_slots v first page n) = {data_slot v (first + i) page i | i. i < n}"
  by (auto simp: page_slots_def)

lemma set_layout:
  "set (layout_from v list_pages per_page entries n page) =
     {data_slot v (p * (per_page - 1) + i) p i | p i. page \<le> p \<and> p < page + n \<and> i < per_page - 1}
     \<union> chain_slot list_pages per_page ` {page..<page + n}
     \<union> {data_slot v ((page + n) * (per_page - 1) + i) (page + n) i | i. i < entries - (page + n) * (per_page - 1)}"
proof (induction n arbitrary: page)
  case (Suc n)
  have "{page..<page + Suc n} = insert page {Suc page..<Suc page + n}" by auto
  moreover have "page \<le> p \<and> p < page + Suc n \<longleftrightarrow> p = page \<or> Suc page \<le> p \<and> p < Suc page + n" for p by auto
  ultimately show ?case by (auto simp: Suc set_page_slots)
qed (auto simp: set_page_slots)

section \<open>What the controller reads\<close>

text \<open>A controller reads a list of \<^verbatim>\<open>r\<close> entries as the NVMe specification says: when the remaining
  entries fit the list page, all of them are data; otherwise the last slot of the page is the
  address of the next list page. A word no slot was written to reads as None.\<close>

definition device_word :: "u64 list \<Rightarrow> list_slot list \<Rightarrow> u64 \<Rightarrow> nat \<Rightarrow> u64 option" where
  "device_word list_pages slots a i =
     map_of (map (\<lambda>s. ((list_pages ! ls_list_page s, ls_slot s), ls_value s)) slots) (a, i)"

function device_walk :: "nat \<Rightarrow> (u64 \<Rightarrow> nat \<Rightarrow> u64 option) \<Rightarrow> u64 \<Rightarrow> nat \<Rightarrow> u64 option list" where
  "device_walk per_page word a r =
     (if r \<le> per_page \<or> per_page < 2 then map (word a) [0..<r]
      else map (word a) [0..<per_page - 1] @
        (case word a (per_page - 1) of
           None \<Rightarrow> [None]
         | Some next_page \<Rightarrow> device_walk per_page word next_page (r - (per_page - 1))))"
  by pat_completeness auto
termination
  by (relation "measure (\<lambda>(per_page, word, a, r). r)") auto

declare device_walk.simps [simp del]

lemma map_of_unique: "(k, v) \<in> set xs \<Longrightarrow> (\<And>v'. (k, v') \<in> set xs \<Longrightarrow> v' = v) \<Longrightarrow> map_of xs k = Some v"
  by (metis map_of_SomeD map_of_eq_None_iff fst_conv image_eqI option.exhaust)

lemma device_word_layout:
  assumes lp: "distinct list_pages" "n < length list_pages"
    and P: "2 \<le> per_page"
  shows "p < n \<Longrightarrow> i < per_page - 1 \<Longrightarrow>
      device_word list_pages (layout_from v list_pages per_page entries n 0) (list_pages ! p) i = Some (v (p * (per_page - 1) + i))"
    "p < n \<Longrightarrow> device_word list_pages (layout_from v list_pages per_page entries n 0) (list_pages ! p) (per_page - 1)
      = Some (list_pages ! Suc p)"
    "i < entries - n * (per_page - 1) \<Longrightarrow>
      device_word list_pages (layout_from v list_pages per_page entries n 0) (list_pages ! n) i = Some (v (n * (per_page - 1) + i))"
  unfolding device_word_def
  by (rule map_of_unique;
      force simp: set_layout chain_slot_def image_Un image_iff nth_eq_iff_index_eq [OF lp(1)] less_trans [OF _ lp(2)] lp(2))+

lemma device_walk_layout:
  assumes P: "2 \<le> per_page" and N: "n * (per_page - 1) < entries" "entries \<le> n * (per_page - 1) + per_page"
    and data: "\<And>p i. p < n \<Longrightarrow> i < per_page - 1 \<Longrightarrow> word (addr p) i = Some (v (p * (per_page - 1) + i))"
    and chain: "\<And>p. p < n \<Longrightarrow> word (addr p) (per_page - 1) = Some (addr (Suc p))"
    and last: "\<And>i. i < entries - n * (per_page - 1) \<Longrightarrow> word (addr n) i = Some (v (n * (per_page - 1) + i))"
  shows "p \<le> n \<Longrightarrow> device_walk per_page word (addr p) (entries - p * (per_page - 1)) =
    (if p < n \<and> entries = n * (per_page - 1) + 1 then map (\<lambda>e. Some (v e)) [p * (per_page - 1)..<entries - 1] @ [Some (addr n)]
     else map (\<lambda>e. Some (v e)) [p * (per_page - 1)..<entries])"
proof (induction "n - p" arbitrary: p)
  case 0
  then have p: "p = n" by simp
  have "map (word (addr n)) [0..<entries - n * (per_page - 1)] = map (\<lambda>e. Some (v e)) [n * (per_page - 1)..<entries]"
    using last N by (intro nth_equalityI) simp_all
  moreover have "entries - n * (per_page - 1) \<le> per_page" using N by linarith
  ultimately show ?case by (subst device_walk.simps) (simp add: p)
next
  case (Suc k)
  let ?U = "per_page - 1"
  have p: "p < n" using Suc.hyps(2) by simp
  have here: "map (word (addr p)) [0..<?U] = map (\<lambda>e. Some (v e)) [p * ?U..<Suc p * ?U]"
    using data [OF p] by (intro nth_equalityI) simp_all
  have "Suc p * ?U \<le> n * ?U" using p by (intro mult_right_mono) simp_all
  then have more: "p * ?U + ?U < entries" using N(1) by simp
  show ?case
  proof (cases "entries - p * ?U \<le> per_page")
    case True
    then have exact: "entries = Suc p * ?U + 1" using more P by simp
    then have "n * ?U < Suc (Suc p) * ?U" using N(1) P by simp
    then have "n < Suc (Suc p)" by (simp only: mult_less_cancel2)
    then have n: "n = Suc p" using p by simp
    have "[0..<entries - p * ?U] = [0..<?U] @ [?U]" using exact by (simp add: upt_Suc_append)
    then show ?thesis using True here chain [OF p] exact n p by (subst device_walk.simps) simp
  next
    case False
    have rest: "entries - p * ?U - ?U = entries - Suc p * ?U" by simp
    have step: "device_walk per_page word (addr p) (entries - p * ?U) =
        map (\<lambda>e. Some (v e)) [p * ?U..<Suc p * ?U] @ device_walk per_page word (addr (Suc p)) (entries - Suc p * ?U)"
      unfolding device_walk.simps [of per_page word "addr p"] chain [OF p] here rest using False P by simp
    have IH: "device_walk per_page word (addr (Suc p)) (entries - Suc p * ?U) =
      (if Suc p < n \<and> entries = n * ?U + 1 then map (\<lambda>e. Some (v e)) [Suc p * ?U..<entries - 1] @ [Some (addr n)]
       else map (\<lambda>e. Some (v e)) [Suc p * ?U..<entries])"
      by (rule Suc.hyps(1)) (use Suc.hyps(2) p in simp_all)
    have split: "map (\<lambda>e. Some (v e)) [p * ?U..<m] = map (\<lambda>e. Some (v e)) [p * ?U..<Suc p * ?U] @ map (\<lambda>e. Some (v e)) [Suc p * ?U..<m]"
      if "Suc p * ?U \<le> m" for m
      using that upt_add_eq_append [of "p * ?U" "Suc p * ?U" "m - Suc p * ?U"] by simp
    have "Suc p * ?U \<le> entries - 1" "Suc p * ?U \<le> entries" using more by simp_all
    note splits = split [OF this(1)] split [OF this(2)]
    show ?thesis
    proof (cases "entries = n * ?U + 1")
      case True
      have "Suc p < n" using True False p P by (cases "n = Suc p") auto
      then have "Suc p < n \<and> entries = n * ?U + 1" "p < n \<and> entries = n * ?U + 1" using True p by blast+
      then show ?thesis unfolding step IH splits(1) by (simp only: simp_thms if_True append_assoc)
    next
      case ne: False
      then show ?thesis unfolding step IH by (simp only: splits) simp
    qed
  qed
qed

text \<open>
  C13: For a transfer that needs a list, \<^verbatim>\<open>plan_list\<close> never panics or runs on: with too few slots it
  refuses, else it writes exactly one slot per page and one chain pointer per further list page.
  A controller that follows the list then reads the pages after the first, in order, with one
  exception: when the entries exceed one list page and leave exactly one entry for the last list
  page, the page before it has exactly a page of entries left, so the controller takes its chain
  pointer for data and reads the address of the last list page in place of the last data page.
\<close>

theorem plan_list_read_back:
  assumes E: "rest_count offset len page_size = Some entries" "1 < entries"
    and P: "per_page = entries_per_list_page page_size" "2 \<le> per_page"
    and N: "list_pages_needed offset len page_size = Some needed" "needed \<le> length list_pages"
    and lp: "distinct list_pages"
    and pages: "\<forall>e < entries. rest_page base offset page_size e = Some (v e)"
  shows "\<exists>slots. plan_list base offset len page_size list_pages room = Some (if room < length slots then None else Some slots)
    \<and> length slots = entries + needed - 1
    \<and> device_walk per_page (device_word list_pages slots) (list_pages ! 0) entries =
        (if per_page < entries \<and> entries = (needed - 1) * (per_page - 1) + 1
         then map (\<lambda>e. Some (v e)) [0..<entries - 1] @ [Some (list_pages ! (needed - 1))]
         else map (\<lambda>e. Some (v e)) [0..<entries])"
proof -
  let ?n = "needed - 1" and ?L = "layout_from v list_pages per_page entries (needed - 1) 0"
  have needed: "needed = list_pages_for entries per_page" using N(1) E(1) P(1) by (simp add: list_pages_needed_def)
  note b = list_pages_for_bounds [OF E(2) P(2), folded needed]
  have "1 \<le> per_page - 1" using P(2) by simp
  from mult_le_mono2 [OF this, of ?n] have fuel: "?n < entries" using b(2) by linarith
  have plan: "plan_list base offset len page_size list_pages room = Some (if room < length ?L then None else Some ?L)"
    using plan_pages_eq [OF pages P(2) b(2,3) N(2), of 0 ?n entries room "[]"] b(1) fuel E(1) N P(1)
    by (simp add: plan_list_def Let_def)
  have len: "length ?L = entries + needed - 1" using length_layout [of 0 per_page ?n entries v list_pages] b by simp
  have n: "?n < length list_pages" using N(2) b(1) by simp
  note words = device_word_layout [OF lp n P(2), where v = v and entries = entries]
  have one: "0 < ?n \<longleftrightarrow> per_page < entries" if "entries = ?n * (per_page - 1) + 1"
    using that list_pages_for_chained(4) [OF P(2)] E(2) P(2) unfolding needed by (auto simp: list_pages_for_def)
  have "device_walk per_page (device_word list_pages ?L) (list_pages ! 0) entries =
      (if 0 < ?n \<and> entries = ?n * (per_page - 1) + 1
       then map (\<lambda>e. Some (v e)) [0..<entries - 1] @ [Some (list_pages ! ?n)] else map (\<lambda>e. Some (v e)) [0..<entries])"
    using device_walk_layout [OF P(2) b(2,3), of "device_word list_pages ?L" "(!) list_pages" v 0] words by simp
  then show ?thesis using plan len one by (intro exI [of _ ?L]) auto
qed

lemma sample_rest_pages: "\<forall>e < 7. rest_page 4096 0 32 e = Some (4096 + 32 * (of_nat e + 1))"
proof (intro allI impI)
  fix e :: nat assume "e < 7"
  then have "e = 0 \<or> e = 1 \<or> e = 2 \<or> e = 3 \<or> e = 4 \<or> e = 5 \<or> e = 6" by linarith
  then show "rest_page 4096 0 32 e = Some (4096 + 32 * (of_nat e + 1))"
    by (elim disjE) (simp_all add: rest_page_def page_base_def checked_add_def checked_sub_def checked_mul_def)
qed

theorem plan_list_read_back_witness:
  "\<exists>slots. plan_list 4096 0 256 32 [1000, 2000, 3000] 20 = Some (if 20 < length slots then None else Some slots)
    \<and> length slots = 7 + 3 - 1
    \<and> device_walk 4 (device_word [1000, 2000, 3000] slots) ([1000, 2000, 3000] ! 0) 7 =
        (if 4 < (7 :: nat) \<and> 7 = (3 - 1) * (4 - 1) + (1 :: nat)
         then map (\<lambda>e. Some (4096 + 32 * (of_nat e + 1))) [0..<7 - 1] @ [Some ([1000, 2000, 3000] ! (3 - 1))]
         else map (\<lambda>e. Some (4096 + 32 * (of_nat e + 1))) [0..<7])"
  by (rule plan_list_read_back [where page_size = 32 and offset = 0 and len = 256 and base = 4096])
    (use sample_rest_pages in \<open>simp_all add: rest_count_def pages_touched_def list_pages_needed_def list_pages_for_def entries_per_list_page_def Let_def\<close>)

end
