(* ===== verification/Nvme_Queues.thy ===== *)
theory Nvme_Queues
  imports Rust_Prelude "HOL-Library.Monad_Syntax" "HOL-Library.Sublist"
begin

text \<open>
  The policy objects of the NVMe driver: queue selection and bookkeeping
  (\<^verbatim>\<open>src/crates/huesos-nvme/src/queues.rs\<close>), the queue and memory plan (\<^verbatim>\<open>queue_plan.rs\<close>), the
  pool of DMA buffers (\<^verbatim>\<open>buffer_pool.rs\<close>) and the request slots, reset state machine and
  counters (\<^verbatim>\<open>reliability.rs\<close>). Fixed arrays are lists of the same length, and a loop over an
  array that stops at the first match is \<^verbatim>\<open>position\<close> or \<^verbatim>\<open>find\<close>. Where checked arithmetic can
  panic the value is None.
\<close>

section \<open>Queue selection and lifecycle\<close>

definition MAX_TRACKED_IO_QUEUES :: nat where
  "MAX_TRACKED_IO_QUEUES = 64"

record queue_selector =
  qs_next_queue :: u16
  qs_num_queues :: u16

definition selector_new :: "u16 \<Rightarrow> queue_selector" where
  "selector_new num_queues = \<lparr>qs_next_queue = 0, qs_num_queues = max num_queues 1\<rparr>"

definition selector_select :: "queue_selector \<Rightarrow> u16 \<times> queue_selector" where
  "selector_select s =
     ((qs_next_queue s mod qs_num_queues s) + 1, s\<lparr>qs_next_queue := qs_next_queue s + 1\<rparr>)"

record queue_manager =
  qm_active :: "bool list"
  qm_active_queues :: u16
  qm_max_queues :: u16

definition manager_new :: "u16 \<Rightarrow> queue_manager" where
  "manager_new max_queues =
     \<lparr>qm_active = replicate (MAX_TRACKED_IO_QUEUES + 1) False, qm_active_queues = 0,
      qm_max_queues = min max_queues (of_nat MAX_TRACKED_IO_QUEUES)\<rparr>"

definition manager_is_active :: "queue_manager \<Rightarrow> u16 \<Rightarrow> bool" where
  "manager_is_active m queue_id \<longleftrightarrow> unat queue_id < length (qm_active m) \<and> qm_active m ! unat queue_id"

definition create_queue :: "queue_manager \<Rightarrow> u16 option \<times> queue_manager" where
  "create_queue m =
     (if qm_max_queues m \<le> qm_active_queues m then (None, m)
      else case find (\<lambda>q. \<not> qm_active m ! q) [1..<Suc (unat (qm_max_queues m))] of
        None \<Rightarrow> (None, m)
      | Some q \<Rightarrow>
          (Some (of_nat q), m\<lparr>qm_active := (qm_active m)[q := True], qm_active_queues := qm_active_queues m + 1\<rparr>))"

definition delete_queue :: "queue_manager \<Rightarrow> u16 \<Rightarrow> bool \<times> queue_manager" where
  "delete_queue m queue_id =
     (let index = unat queue_id in
      if queue_id = 0 \<or> length (qm_active m) \<le> index \<or> \<not> qm_active m ! index then (False, m)
      else (True, m\<lparr>qm_active := (qm_active m)[index := False],
                    qm_active_queues := saturating_sub (qm_active_queues m) 1\<rparr>))"

section \<open>Queue plan\<close>

definition HUESOS_NVME_QUEUE_DEPTH :: u16 where
  "HUESOS_NVME_QUEUE_DEPTH = 256"

definition SQE_BYTES :: u64 where "SQE_BYTES = 64"
definition CQE_BYTES :: u64 where "CQE_BYTES = 16"
definition PRP_LIST_PAGES_PER_CPU :: u64 where "PRP_LIST_PAGES_PER_CPU = 16"
definition PRP_LIST_PAGE_BYTES :: u64 where "PRP_LIST_PAGE_BYTES = 4096"

datatype interrupt_mode = Msix | Msi | Polling

record queue_plan_input =
  qi_cpu_count :: nat
  qi_cap_mqes :: u16
  qi_msix_available :: bool
  qi_msi_available :: bool
  qi_max_queue_depth :: u16

record queue_plan =
  qp_admin_depth :: u16
  qp_io_depth :: u16
  qp_io_queue_count :: nat
  qp_interrupt_mode :: interrupt_mode
  qp_admin_queue_bytes :: u64
  qp_io_queue_bytes :: u64
  qp_prp_list_bytes :: u64

definition total_dma_bytes :: "queue_plan \<Rightarrow> u64" where
  "total_dma_bytes p =
     saturating_add (saturating_add (qp_admin_queue_bytes p) (qp_io_queue_bytes p)) (qp_prp_list_bytes p)"

definition queue_pair_bytes :: "u16 \<Rightarrow> u64 option" where
  "queue_pair_bytes depth =
     do { sq \<leftarrow> checked_mul (ucast depth) SQE_BYTES;
          cq \<leftarrow> checked_mul (ucast depth) CQE_BYTES;
          checked_add sq cq }"

definition plan_queues :: "queue_plan_input \<Rightarrow> queue_plan option" where
  "plan_queues input =
     (let max_entries = min (saturating_add (ucast (qi_cap_mqes input) :: u32) 1) (ucast (- 1 :: u16)) in
      if max_entries = 0 \<or> qi_cpu_count input = 0 then None
      else
        let operator_cap = (if qi_max_queue_depth input = 0 then - 1 else qi_max_queue_depth input);
            depth = max (min (min HUESOS_NVME_QUEUE_DEPTH (ucast max_entries)) operator_cap) 2;
            io_queue_count = min (max (qi_cpu_count input) 1) 64;
            mode = (if qi_msix_available input then Msix else if qi_msi_available input then Msi else Polling) in
        do { admin_queue_bytes \<leftarrow> queue_pair_bytes depth;
             one_io \<leftarrow> queue_pair_bytes depth;
             io_queue_bytes \<leftarrow> checked_mul one_io (of_nat io_queue_count);
             per_cpu \<leftarrow> checked_mul PRP_LIST_PAGE_BYTES PRP_LIST_PAGES_PER_CPU;
             prp_list_bytes \<leftarrow> checked_mul per_cpu (of_nat io_queue_count);
             Some \<lparr>qp_admin_depth = depth, qp_io_depth = depth, qp_io_queue_count = io_queue_count,
                   qp_interrupt_mode = mode, qp_admin_queue_bytes = admin_queue_bytes,
                   qp_io_queue_bytes = io_queue_bytes, qp_prp_list_bytes = prp_list_bytes\<rparr> })"

section \<open>DMA buffer pool\<close>

definition MAX_BUFFERS :: nat where
  "MAX_BUFFERS = 64"

record dma_buffer_pool =
  bp_buffer_addrs :: "u64 list"
  bp_free_list :: "u16 list"
  bp_free_count :: u16
  bp_buffer_size :: u64
  bp_total_buffers :: u16

text \<open>The initialising loop of \<^verbatim>\<open>new\<close> from index \<^verbatim>\<open>i\<close>; None is the panic of the address
  arithmetic.\<close>

fun pool_fill :: "u64 \<Rightarrow> u16 \<Rightarrow> nat \<Rightarrow> nat \<Rightarrow> dma_buffer_pool \<Rightarrow> dma_buffer_pool option" where
  "pool_fill dma_base num_buffers 0 i p = Some p"
| "pool_fill dma_base num_buffers (Suc k) i p =
     do { skip \<leftarrow> checked_mul (of_nat i) (bp_buffer_size p);
          addr \<leftarrow> checked_add dma_base skip;
          pool_fill dma_base num_buffers k (Suc i)
            (p\<lparr>bp_buffer_addrs := (bp_buffer_addrs p)[i := addr],
               bp_free_list := (bp_free_list p)[i := of_nat (unat num_buffers - 1 - i)]\<rparr>) }"

text \<open>The outer option is the panic, the inner one the value.\<close>

definition pool_new :: "u64 \<Rightarrow> u64 \<Rightarrow> u64 \<Rightarrow> u16 \<Rightarrow> dma_buffer_pool option option" where
  "pool_new dma_base dma_size buffer_size num_buffers =
     (if MAX_BUFFERS < unat num_buffers then Some None
      else case checked_mul buffer_size (ucast num_buffers) of
        None \<Rightarrow> Some None
      | Some total_size \<Rightarrow>
          if dma_size < total_size then Some None
          else map_option Some (pool_fill dma_base num_buffers (unat num_buffers) 0
            \<lparr>bp_buffer_addrs = replicate MAX_BUFFERS 0, bp_free_list = replicate MAX_BUFFERS 0,
             bp_free_count = num_buffers, bp_buffer_size = buffer_size, bp_total_buffers = num_buffers\<rparr>))"

definition pool_acquire :: "dma_buffer_pool \<Rightarrow> (u64 \<times> u16) option \<times> dma_buffer_pool" where
  "pool_acquire p =
     (if bp_free_count p = 0 then (None, p)
      else
        let p' = p\<lparr>bp_free_count := bp_free_count p - 1\<rparr>;
            idx = bp_free_list p' ! unat (bp_free_count p') in
        (Some (bp_buffer_addrs p' ! unat idx, idx), p'))"

definition pool_release :: "dma_buffer_pool \<Rightarrow> u16 \<Rightarrow> dma_buffer_pool" where
  "pool_release p idx =
     (if bp_total_buffers p \<le> idx then p
      else if MAX_BUFFERS \<le> unat (bp_free_count p) then p
      else p\<lparr>bp_free_list := (bp_free_list p)[unat (bp_free_count p) := idx], bp_free_count := bp_free_count p + 1\<rparr>)"

section \<open>Request slots\<close>

datatype reliability_error = QueueFull | RequestNotFound | RequestTimedOut | ResetRequired | Unsupported

record queue_slot =
  sl_request_id :: u64
  sl_submitted_tick :: u64
  sl_deadline_tick :: u64

type_synonym slot_tracker = "queue_slot option list"

definition tracker_new :: "nat \<Rightarrow> slot_tracker" where
  "tracker_new n = replicate n None"

definition tracker_submit :: "slot_tracker \<Rightarrow> u64 \<Rightarrow> u64 \<Rightarrow> u64 \<Rightarrow> (reliability_error + unit) \<times> slot_tracker" where
  "tracker_submit t request_id now_tick timeout_ticks =
     (case checked_add now_tick timeout_ticks of
        None \<Rightarrow> (Inl RequestTimedOut, t)
      | Some deadline_tick \<Rightarrow>
          (case position (\<lambda>s. s = None) t of
             None \<Rightarrow> (Inl QueueFull, t)
           | Some index \<Rightarrow>
               (Inr (), t[index := Some \<lparr>sl_request_id = request_id, sl_submitted_tick = now_tick,
                                        sl_deadline_tick = deadline_tick\<rparr>])))"

definition tracker_complete :: "slot_tracker \<Rightarrow> u64 \<Rightarrow> (reliability_error + queue_slot) \<times> slot_tracker" where
  "tracker_complete t request_id =
     (case position (\<lambda>s. case s of None \<Rightarrow> False | Some x \<Rightarrow> sl_request_id x = request_id) t of
        None \<Rightarrow> (Inl RequestNotFound, t)
      | Some index \<Rightarrow> (Inr (the (t ! index)), t[index := None]))"

definition expired_request :: "slot_tracker \<Rightarrow> u64 \<Rightarrow> u64 option" where
  "expired_request t now_tick =
     map_option sl_request_id (find (\<lambda>x. sl_deadline_tick x \<le> now_tick) (flatten t))"

definition tracker_active :: "slot_tracker \<Rightarrow> nat" where
  "tracker_active t = length (filter (\<lambda>s. s \<noteq> None) t)"

section \<open>Reset state machine\<close>

datatype reset_state =
    ResetOnline
  | ResetTimedOut u64
  | Resetting u64
  | Reidentify
  | ResetFailed

record reset_controller =
  rc_state :: reset_state
  rc_max_reset_ticks :: u64

definition reset_new :: "u64 \<Rightarrow> reset_controller" where
  "reset_new max_reset_ticks = \<lparr>rc_state = ResetOnline, rc_max_reset_ticks = max_reset_ticks\<rparr>"

definition command_timed_out :: "reset_controller \<Rightarrow> u64 \<Rightarrow> reset_controller" where
  "command_timed_out c request_id =
     (if rc_state c = ResetOnline then c\<lparr>rc_state := ResetTimedOut request_id\<rparr> else c)"

definition begin_reset :: "reset_controller \<Rightarrow> u64 \<Rightarrow> (reliability_error + unit) \<times> reset_controller" where
  "begin_reset c now_tick =
     (case rc_state c of
        ResetTimedOut _ \<Rightarrow> (Inr (), c\<lparr>rc_state := Resetting now_tick\<rparr>)
      | _ \<Rightarrow> (Inl ResetRequired, c))"

definition poll_reset :: "reset_controller \<Rightarrow> u64 \<Rightarrow> bool \<Rightarrow> reset_state \<times> reset_controller" where
  "poll_reset c now_tick hardware_ready =
     (let c' = (case rc_state c of
          Resetting started_tick \<Rightarrow>
            if hardware_ready then c\<lparr>rc_state := Reidentify\<rparr>
            else if rc_max_reset_ticks c < saturating_sub now_tick started_tick then c\<lparr>rc_state := ResetFailed\<rparr>
            else c
        | _ \<Rightarrow> c) in (rc_state c', c'))"

definition reidentify_complete :: "reset_controller \<Rightarrow> reset_controller" where
  "reidentify_complete c = (if rc_state c = Reidentify then c\<lparr>rc_state := ResetOnline\<rparr> else c)"

section \<open>Maintenance and telemetry\<close>

datatype maintenance_op = Flush | Discard u64 u32 | WriteZeroes u64 u32

definition validate_maintenance :: "maintenance_op \<Rightarrow> bool \<Rightarrow> bool \<Rightarrow> reliability_error + unit" where
  "validate_maintenance oper discard_supported write_zeroes_supported =
     (case oper of
        Flush \<Rightarrow> Inr ()
      | Discard _ blocks \<Rightarrow>
          if blocks = 0 then Inl Unsupported else if discard_supported then Inr () else Inl Unsupported
      | WriteZeroes _ blocks \<Rightarrow>
          if blocks = 0 then Inl Unsupported else if write_zeroes_supported then Inr () else Inl Unsupported)"

record nvme_telemetry =
  nt_submitted :: u64
  nt_completed :: u64
  nt_timeouts :: u64
  nt_resets :: u64
  nt_queue_full :: u64
  nt_flushes :: u64
  nt_discards :: u64
  nt_write_zeroes :: u64

definition record_submit :: "nvme_telemetry \<Rightarrow> nvme_telemetry" where
  "record_submit t = t\<lparr>nt_submitted := saturating_add (nt_submitted t) 1\<rparr>"

definition record_complete :: "nvme_telemetry \<Rightarrow> nvme_telemetry" where
  "record_complete t = t\<lparr>nt_completed := saturating_add (nt_completed t) 1\<rparr>"

definition record_timeout :: "nvme_telemetry \<Rightarrow> nvme_telemetry" where
  "record_timeout t = t\<lparr>nt_timeouts := saturating_add (nt_timeouts t) 1\<rparr>"

definition record_reset :: "nvme_telemetry \<Rightarrow> nvme_telemetry" where
  "record_reset t = t\<lparr>nt_resets := saturating_add (nt_resets t) 1\<rparr>"

definition record_queue_full :: "nvme_telemetry \<Rightarrow> nvme_telemetry" where
  "record_queue_full t = t\<lparr>nt_queue_full := saturating_add (nt_queue_full t) 1\<rparr>"

definition record_maintenance :: "nvme_telemetry \<Rightarrow> maintenance_op \<Rightarrow> nvme_telemetry" where
  "record_maintenance t oper =
     (case oper of
        Flush \<Rightarrow> t\<lparr>nt_flushes := saturating_add (nt_flushes t) 1\<rparr>
      | Discard _ _ \<Rightarrow> t\<lparr>nt_discards := saturating_add (nt_discards t) 1\<rparr>
      | WriteZeroes _ _ \<Rightarrow> t\<lparr>nt_write_zeroes := saturating_add (nt_write_zeroes t) 1\<rparr>)"

section \<open>Buffers are exclusive\<close>

lemma pool_fill_Some:
  "pool_fill base n k i p = Some p' \<Longrightarrow> i + k \<le> length (bp_buffer_addrs p) \<Longrightarrow> i + k \<le> length (bp_free_list p) \<Longrightarrow> i + k < 2 ^ 64 \<Longrightarrow>
     bp_free_count p' = bp_free_count p \<and> bp_buffer_size p' = bp_buffer_size p \<and> bp_total_buffers p' = bp_total_buffers p
     \<and> length (bp_buffer_addrs p') = length (bp_buffer_addrs p) \<and> length (bp_free_list p') = length (bp_free_list p)
     \<and> (\<forall>j < i. bp_buffer_addrs p' ! j = bp_buffer_addrs p ! j \<and> bp_free_list p' ! j = bp_free_list p ! j)
     \<and> (\<forall>j. i \<le> j \<longrightarrow> j < i + k \<longrightarrow> unat (bp_buffer_addrs p' ! j) = unat base + j * unat (bp_buffer_size p)
          \<and> bp_free_list p' ! j = of_nat (unat n - 1 - j))"
proof (induction k arbitrary: i p)
  case (Suc k)
  obtain skip addr where sk: "checked_mul (of_nat i) (bp_buffer_size p) = Some skip" "checked_add base skip = Some addr"
    and rec: "pool_fill base n k (Suc i) (p\<lparr>bp_buffer_addrs := (bp_buffer_addrs p)[i := addr],
      bp_free_list := (bp_free_list p)[i := of_nat (unat n - 1 - i)]\<rparr>) = Some p'"
    using Suc.prems(1) by (auto simp: bind_eq_Some_conv)
  have "unat (of_nat i :: u64) = i" using Suc.prems(4) by (simp add: unat_of_nat take_bit_nat_eq_self)
  then have addr: "unat addr = unat base + i * unat (bp_buffer_size p)"
    using sk by (auto simp: checked_mul_Some checked_add_Some)
  note IH = Suc.IH [OF rec]
  let ?p = "p\<lparr>bp_buffer_addrs := (bp_buffer_addrs p)[i := addr], bp_free_list := (bp_free_list p)[i := of_nat (unat n - 1 - i)]\<rparr>"
  have "unat (bp_buffer_addrs p' ! j) = unat base + j * unat (bp_buffer_size p) \<and> bp_free_list p' ! j = of_nat (unat n - 1 - j)"
    if "i \<le> j" "j < i + Suc k" for j
  proof (cases "j = i")
    case True
    have "bp_buffer_addrs p' ! i = bp_buffer_addrs ?p ! i \<and> bp_free_list p' ! i = bp_free_list ?p ! i" using IH Suc.prems by simp
    then show ?thesis using True addr Suc.prems by simp
  next
    case False
    then show ?thesis using IH Suc.prems that by simp
  qed
  then show ?case using IH Suc.prems by (auto simp: nth_list_update)
qed simp

type_synonym pool_world = "dma_buffer_pool \<times> u16 list"

inductive pool_step :: "pool_world \<Rightarrow> pool_world \<Rightarrow> bool" where
  take_buffer: "pool_acquire p = (Some (addr, idx), p') \<Longrightarrow> pool_step (p, held) (p', idx # held)"
| give_buffer: "idx \<in> set held \<Longrightarrow> pool_step (p, held) (pool_release p idx, remove1 idx held)"

definition pool_start :: "u64 \<Rightarrow> u64 \<Rightarrow> pool_world \<Rightarrow> bool" where
  "pool_start base dma_size w \<longleftrightarrow>
     (\<exists>size n. pool_new base dma_size size n = Some (Some (fst w)) \<and> snd w = [])"

definition free_indices :: "dma_buffer_pool \<Rightarrow> u16 list" where
  "free_indices p = take (unat (bp_free_count p)) (bp_free_list p)"

definition pool_inv :: "u64 \<Rightarrow> u64 \<Rightarrow> pool_world \<Rightarrow> bool" where
  "pool_inv base dma_size w \<longleftrightarrow>
     (case w of (p, held) \<Rightarrow>
        length (bp_free_list p) = MAX_BUFFERS \<and> unat (bp_total_buffers p) \<le> MAX_BUFFERS
        \<and> length (free_indices p) = unat (bp_free_count p)
        \<and> unat (bp_free_count p) + length held = unat (bp_total_buffers p)
        \<and> distinct (free_indices p @ held) \<and> set (free_indices p @ held) = {i. i < bp_total_buffers p}
        \<and> unat (bp_buffer_size p) * unat (bp_total_buffers p) \<le> unat dma_size
        \<and> (\<forall>j < unat (bp_total_buffers p). unat (bp_buffer_addrs p ! j) = unat base + j * unat (bp_buffer_size p)))"

lemma pool_start_inv:
  assumes "pool_start base dma_size w"
  shows "pool_inv base dma_size w"
proof -
  obtain size n p where w: "w = (p, [])" and new: "pool_new base dma_size size n = Some (Some p)"
    using assms by (cases w) (auto simp: pool_start_def)
  obtain whole where n: "unat n \<le> MAX_BUFFERS" and whole: "checked_mul size (ucast n) = Some whole" "\<not> dma_size < whole"
    and fill: "pool_fill base n (unat n) 0 \<lparr>bp_buffer_addrs = replicate MAX_BUFFERS 0, bp_free_list = replicate MAX_BUFFERS 0,
      bp_free_count = n, bp_buffer_size = size, bp_total_buffers = n\<rparr> = Some p"
    using new by (auto simp: pool_new_def not_less split: if_splits option.splits)
  have sz: "unat size * unat n \<le> unat dma_size"
    using whole by (auto simp: checked_mul_Some unat_ucast_up word_less_nat_alt)
  have n64: "unat n < 18446744073709551616" using n by (simp add: MAX_BUFFERS_def)
  note f = pool_fill_Some [OF fill, simplified, OF n n64]
  have len: "length (bp_free_list p) = MAX_BUFFERS" "bp_free_count p = n" "bp_total_buffers p = n" "bp_buffer_size p = size"
    using f n by (simp_all add: MAX_BUFFERS_def)
  have idx: "free_indices p = map (\<lambda>j. of_nat (unat n - 1 - j)) [0..<unat n]"
    unfolding free_indices_def len using f n by (intro nth_equalityI) (simp_all add: MAX_BUFFERS_def)
  have small: "unat (of_nat j :: u16) = j" if "j < unat n" for j
    using that unat_lt_pow [of n] by (simp add: unat_of_nat take_bit_nat_eq_self)
  have inj: "inj_on (\<lambda>j. of_nat (unat n - 1 - j) :: u16) {0..<unat n}"
  proof (rule inj_onI)
    fix x y assume x: "x \<in> {0..<unat n}" and y: "y \<in> {0..<unat n}" and eq: "(of_nat (unat n - 1 - x) :: u16) = of_nat (unat n - 1 - y)"
    have "unat n - 1 - x = unat n - 1 - y"
      using arg_cong [OF eq, of unat] small [of "unat n - 1 - x"] small [of "unat n - 1 - y"] x y by simp
    then show "x = y" using x y by auto
  qed
  have "(\<lambda>j. of_nat (unat n - 1 - j) :: u16) ` {0..<unat n} = {i. i < n}" (is "?f ` _ = _")
  proof (rule set_eqI, rule iffI)
    fix i assume "i \<in> ?f ` {0..<unat n}"
    then obtain j where j: "j < unat n" "i = of_nat (unat n - 1 - j)" by auto
    then have "unat i = unat n - 1 - j" using small [of "unat n - 1 - j"] by simp
    with j show "i \<in> {i. i < n}" by (simp add: word_less_nat_alt)
  next
    fix i assume "i \<in> {i. i < n}"
    then have "unat i < unat n" by (simp add: word_less_nat_alt)
    then show "i \<in> ?f ` {0..<unat n}" by (intro image_eqI [of _ _ "unat n - 1 - unat i"]) simp_all
  qed
  then show ?thesis using n sz f idx inj len
    by (simp add: w pool_inv_def distinct_map free_indices_def [symmetric])
qed

lemma pool_acquire_Some:
  assumes inv: "pool_inv base dma_size (p, held)" and acq: "pool_acquire p = (Some (addr, idx), p')"
  shows "pool_inv base dma_size (p', idx # held)" "idx \<notin> set held" "idx < bp_total_buffers p"
    "addr = bp_buffer_addrs p ! unat idx" "p' = p\<lparr>bp_free_count := bp_free_count p - 1\<rparr>"
    "free_indices p = free_indices p' @ [idx]"
proof -
  have c: "bp_free_count p \<noteq> 0" and p': "p' = p\<lparr>bp_free_count := bp_free_count p - 1\<rparr>"
    and idx: "idx = bp_free_list p ! unat (bp_free_count p - 1)" "addr = bp_buffer_addrs p ! unat idx"
    using acq by (auto simp: pool_acquire_def Let_def split: if_splits)
  have dec: "unat (bp_free_count p) = Suc (unat (bp_free_count p - 1))"
    using c unat_sub_nowrap [of 1 "bp_free_count p"] by (simp add: unat_eq_0 word_le_nat_alt Suc_leI unat_gt_0)
  have len: "unat (bp_free_count p - 1) < length (bp_free_list p)"
    using inv dec by (auto simp: pool_inv_def free_indices_def min_def split: if_splits)
  show f: "free_indices p = free_indices p' @ [idx]"
    unfolding free_indices_def dec p' using len idx by (simp add: take_Suc_conv_app_nth)
  show "p' = p\<lparr>bp_free_count := bp_free_count p - 1\<rparr>" "addr = bp_buffer_addrs p ! unat idx" by (fact p', fact idx(2))
  show "idx \<notin> set held" "idx < bp_total_buffers p" using inv f by (auto simp: pool_inv_def)
  show "pool_inv base dma_size (p', idx # held)"
    using inv f dec len by (auto simp: pool_inv_def p' free_indices_def)
qed

lemma pool_release_fields [simp]:
  "bp_total_buffers (pool_release p idx) = bp_total_buffers p" "bp_buffer_size (pool_release p idx) = bp_buffer_size p"
  "bp_buffer_addrs (pool_release p idx) = bp_buffer_addrs p" "length (bp_free_list (pool_release p idx)) = length (bp_free_list p)"
  by (simp_all add: pool_release_def)

lemma pool_release_inv:
  assumes inv: "pool_inv base dma_size (p, held)" and idx: "idx \<in> set held"
  shows "pool_inv base dma_size (pool_release p idx, remove1 idx held)"
proof -
  note i = inv [unfolded pool_inv_def prod.case]
  have held: "distinct held" "0 < length held" "idx < bp_total_buffers p" using i idx by (auto simp: length_pos_if_in_set)
  have room: "unat (bp_free_count p) < MAX_BUFFERS" using i held(2) by linarith
  have inc: "unat (bp_free_count p + 1) = Suc (unat (bp_free_count p))"
    using room unat_minus_one_word_nat [where 'a = 16] by (intro unat_plus_one) (auto simp: MAX_BUFFERS_def)
  have r: "pool_release p idx = p\<lparr>bp_free_list := (bp_free_list p)[unat (bp_free_count p) := idx], bp_free_count := bp_free_count p + 1\<rparr>"
    using held room by (simp add: pool_release_def not_le not_less)
  have f: "free_indices (pool_release p idx) = free_indices p @ [idx]"
    unfolding r free_indices_def using i room inc by (simp add: take_Suc_conv_app_nth)
  have count: "unat (bp_free_count (pool_release p idx)) = Suc (unat (bp_free_count p))" by (simp add: r inc)
  have rest: "length (remove1 idx held) = length held - 1" "set (remove1 idx held) = set held - {idx}"
    using idx held(1) by (simp_all add: length_remove1)
  have "distinct (free_indices (pool_release p idx) @ remove1 idx held)"
    "set (free_indices (pool_release p idx) @ remove1 idx held) = {i. i < bp_total_buffers p}"
    unfolding f using i rest idx held(1) by auto
  moreover have "Suc (unat (bp_free_count p) + (length held - Suc 0)) = unat (bp_total_buffers p)" using i held(2) by linarith
  ultimately show ?thesis using i count rest(1) by (simp add: pool_inv_def f)
qed

lemma pool_step_inv:
  assumes "pool_inv base dma_size w" "pool_step w w'"
  shows "pool_inv base dma_size w'"
  using assms(2,1) by cases (blast intro: pool_acquire_Some(1) pool_release_inv)+

interpretation pools: invariant_machine "pool_start base dma_size" pool_step "pool_inv base dma_size" for base dma_size
  by unfold_locales (blast intro: pool_start_inv pool_step_inv)+

text \<open>
  C16: Over any history of callers that acquire buffers and release only buffers they hold, no DMA
  buffer is ever handed to two callers: an acquired index is held by nobody, the buffers held
  lie inside the DMA region the pool was made from, two of them never overlap, and an acquisition
  fails exactly when every buffer is held.
\<close>

theorem dma_buffers_exclusive:
  assumes "pool_start base dma_size w\<^sub>0" "pool_step\<^sup>*\<^sup>* w\<^sub>0 (p, held)"
  shows "distinct held
    \<and> (\<forall>i\<in>set held. unat base \<le> unat (bp_buffer_addrs p ! unat i)
         \<and> unat (bp_buffer_addrs p ! unat i) + unat (bp_buffer_size p) \<le> unat base + unat dma_size)
    \<and> (\<forall>i\<in>set held. \<forall>j\<in>set held. i < j \<longrightarrow>
         unat (bp_buffer_addrs p ! unat i) + unat (bp_buffer_size p) \<le> unat (bp_buffer_addrs p ! unat j))
    \<and> (case fst (pool_acquire p) of
         None \<Rightarrow> length held = unat (bp_total_buffers p)
       | Some (addr, idx) \<Rightarrow> idx \<notin> set held \<and> addr = bp_buffer_addrs p ! unat idx \<and> length held < unat (bp_total_buffers p))"
proof -
  have inv: "pool_inv base dma_size (p, held)" using pools.reachable_inv assms by blast
  note i = inv [unfolded pool_inv_def prod.case]
  let ?s = "unat (bp_buffer_size p)" and ?n = "unat (bp_total_buffers p)"
  have addr: "unat k < ?n \<and> unat (bp_buffer_addrs p ! unat k) = unat base + unat k * ?s" if "k \<in> set held" for k
    using i that by (auto simp: word_less_nat_alt)
  have step: "a * ?s + ?s \<le> b * ?s" if "a < b" for a b
    using mult_le_mono1 [of "Suc a" b ?s] that by simp
  have "case fst (pool_acquire p) of
      None \<Rightarrow> length held = ?n
    | Some (addr, idx) \<Rightarrow> idx \<notin> set held \<and> addr = bp_buffer_addrs p ! unat idx \<and> length held < ?n"
  proof (cases "bp_free_count p = 0")
    case True
    then show ?thesis using i by (simp add: pool_acquire_def)
  next
    case False
    then obtain a idx p' where acq: "pool_acquire p = (Some (a, idx), p')" by (auto simp: pool_acquire_def Let_def)
    have "length held < ?n" using i False by (metis add_cancel_right_left linorder_neqE_nat not_add_less2 unat_eq_0)
    then show ?thesis using pool_acquire_Some(2,4) [OF inv acq] acq by simp
  qed
  moreover have "unat base + unat k * ?s + ?s \<le> unat base + unat dma_size" if "k \<in> set held" for k
    using step [of "unat k" ?n] addr [OF that] i by (simp add: mult.commute)
  ultimately show ?thesis using i addr step by (simp add: word_less_nat_alt)
qed

definition sample_pool :: dma_buffer_pool where
  "sample_pool = \<lparr>bp_buffer_addrs = [4096, 8192] @ replicate 62 0, bp_free_list = [1, 0] @ replicate 62 0,
     bp_free_count = 2, bp_buffer_size = 4096, bp_total_buffers = 2\<rparr>"

lemma sample_pool_new: "pool_new 4096 65536 4096 2 = Some (Some sample_pool)"
proof -
  have r: "replicate MAX_BUFFERS (0 :: 'a::len word) = 0 # 0 # replicate 62 0"
    using replicate_add [of 2 62 "0 :: 'a word"] by (simp add: MAX_BUFFERS_def numeral_2_eq_2)
  have "pool_fill 4096 2 (Suc (Suc 0)) 0
      \<lparr>bp_buffer_addrs = 0 # 0 # replicate 62 0, bp_free_list = 0 # 0 # replicate 62 0, bp_free_count = 2,
       bp_buffer_size = 4096, bp_total_buffers = 2\<rparr> = Some sample_pool"
    by (simp add: checked_mul_def checked_add_def sample_pool_def)
  then show ?thesis by (simp add: pool_new_def r checked_mul_def numeral_2_eq_2 [symmetric]) (simp add: MAX_BUFFERS_def)
qed

definition sample_pool_taken :: dma_buffer_pool where
  "sample_pool_taken = sample_pool\<lparr>bp_free_count := 0\<rparr>"

lemma sample_pool_reached: "pool_step\<^sup>*\<^sup>* (sample_pool, []) (sample_pool_taken, [1, 0])"
proof -
  have "pool_acquire sample_pool = (Some (4096, 0), sample_pool\<lparr>bp_free_count := 1\<rparr>)"
    "pool_acquire (sample_pool\<lparr>bp_free_count := 1\<rparr>) = (Some (8192, 1), sample_pool_taken)"
    by (simp_all add: pool_acquire_def sample_pool_def sample_pool_taken_def)
  then have "pool_step (sample_pool, []) (sample_pool\<lparr>bp_free_count := 1\<rparr>, [0])"
    "pool_step (sample_pool\<lparr>bp_free_count := 1\<rparr>, [0]) (sample_pool_taken, [1, 0])"
    by (blast intro: take_buffer)+
  then show ?thesis by (meson converse_rtranclp_into_rtranclp r_into_rtranclp)
qed

theorem dma_buffers_exclusive_witness:
  "4096 \<le> unat (bp_buffer_addrs sample_pool_taken ! 0)
    \<and> unat (bp_buffer_addrs sample_pool_taken ! 0) + unat (bp_buffer_size sample_pool_taken) \<le> unat (bp_buffer_addrs sample_pool_taken ! 1)
    \<and> unat (bp_buffer_addrs sample_pool_taken ! 1) + unat (bp_buffer_size sample_pool_taken) \<le> 4096 + 65536
    \<and> (case fst (pool_acquire sample_pool_taken) of
         None \<Rightarrow> length [1 :: u16, 0] = unat (bp_total_buffers sample_pool_taken)
       | Some (addr, idx) \<Rightarrow> idx \<notin> set [1, 0] \<and> addr = bp_buffer_addrs sample_pool_taken ! unat idx
           \<and> length [1 :: u16, 0] < unat (bp_total_buffers sample_pool_taken))"
proof -
  have "pool_start 4096 65536 (sample_pool, [])" using sample_pool_new by (auto simp: pool_start_def)
  from dma_buffers_exclusive [OF this sample_pool_reached] show ?thesis by simp
qed

section \<open>Recovery\<close>

datatype reset_event =
    CommandTimedOut u64
  | BeginReset u64
  | PollReset u64 bool
  | ReidentifyComplete

fun reset_apply :: "reset_controller \<Rightarrow> reset_event \<Rightarrow> reset_controller" where
  "reset_apply c (CommandTimedOut request_id) = command_timed_out c request_id"
| "reset_apply c (BeginReset now) = snd (begin_reset c now)"
| "reset_apply c (PollReset now ready) = snd (poll_reset c now ready)"
| "reset_apply c ReidentifyComplete = reidentify_complete c"

lemmas reset_defs = command_timed_out_def begin_reset_def poll_reset_def reidentify_complete_def Let_def

lemma failed_is_final: "rc_state c = ResetFailed \<Longrightarrow> rc_state (foldl reset_apply c es) = ResetFailed"
proof (induction es arbitrary: c)
  case (Cons e es)
  then have "rc_state (reset_apply c e) = ResetFailed" by (cases e) (simp_all add: reset_defs)
  then show ?case using Cons.IH by simp
qed simp

lemma reidentified:
  "rc_state c = Reidentify \<Longrightarrow> rc_state (foldl reset_apply c es) = ResetOnline \<Longrightarrow> ReidentifyComplete \<in> set es"
proof (induction es arbitrary: c)
  case (Cons e es)
  show ?case
  proof (cases "e = ReidentifyComplete")
    case False
    then have "rc_state (reset_apply c e) = Reidentify" using Cons.prems(1) by (cases e) (simp_all add: reset_defs)
    then show ?thesis using Cons.IH [of "reset_apply c e"] Cons.prems(2) by simp
  qed simp
qed simp

lemma resetting_step:
  "rc_state c = Resetting t \<Longrightarrow> rc_state (reset_apply c e) = Resetting t \<or> rc_state (reset_apply c e) = ResetFailed
     \<or> (\<exists>now. e = PollReset now True \<and> rc_state (reset_apply c e) = Reidentify)"
  by (cases e) (auto simp: reset_defs)

lemma reset_polled:
  "rc_state c = Resetting t \<Longrightarrow> rc_state (foldl reset_apply c es) = ResetOnline \<Longrightarrow>
     \<exists>now es'. subseq (PollReset now True # es') es \<and> ReidentifyComplete \<in> set es'"
proof (induction es arbitrary: c)
  case (Cons e es)
  consider (same) "rc_state (reset_apply c e) = Resetting t" | (failed) "rc_state (reset_apply c e) = ResetFailed"
    | (ready) now where "e = PollReset now True" "rc_state (reset_apply c e) = Reidentify"
    using resetting_step [OF Cons.prems(1), of e] by blast
  then show ?case
  proof cases
    case same
    then show ?thesis using Cons.IH [of "reset_apply c e"] Cons.prems(2) by (auto intro: subseq_Cons')
  next
    case failed
    then show ?thesis using failed_is_final [of "reset_apply c e" es] Cons.prems(2) by simp
  next
    case ready
    then show ?thesis using reidentified [of "reset_apply c e" es] Cons.prems(2) by auto
  qed
qed simp

text \<open>
  After a command timeout the controller takes commands again only through the whole recovery:
  any sequence of calls that leads from the timed-out state back to online contains, in this
  order, the start of a reset, a poll that finds the hardware ready, and the completed
  re-identification. A reset that failed is final.
\<close>

theorem recovery_requires_reidentify:
  "rc_state c = ResetTimedOut r \<Longrightarrow> rc_state (foldl reset_apply c es) = ResetOnline \<Longrightarrow>
     \<exists>t now. subseq [BeginReset t, PollReset now True, ReidentifyComplete] es"
proof (induction es arbitrary: c)
  case (Cons e es)
  consider (same) "rc_state (reset_apply c e) = ResetTimedOut r"
    | (reset) t where "e = BeginReset t" "rc_state (reset_apply c e) = Resetting t"
    using Cons.prems(1) by (cases e) (auto simp: reset_defs)
  then show ?case
  proof cases
    case same
    then show ?thesis using Cons.IH [of "reset_apply c e"] Cons.prems(2) by (auto intro: subseq_Cons')
  next
    case reset
    then obtain now es' where "subseq (PollReset now True # es') es" "ReidentifyComplete \<in> set es'"
      using reset_polled [of "reset_apply c e" t es] Cons.prems(2) by auto
    then have "subseq [PollReset now True, ReidentifyComplete] es"
      by (meson subseq_Cons2 subseq_order.trans subseq_singleton_left)
    then show ?thesis using reset(1) by auto
  qed
qed simp

definition sample_recovery :: "reset_event list" where
  "sample_recovery = [BeginReset 5, PollReset 6 False, PollReset 7 True, CommandTimedOut 1, ReidentifyComplete]"

theorem recovery_requires_reidentify_witness:
  "\<exists>t now. subseq [BeginReset t, PollReset now True, ReidentifyComplete] sample_recovery"
  by (rule recovery_requires_reidentify [of "\<lparr>rc_state = ResetTimedOut 3, rc_max_reset_ticks = 10\<rparr>" 3])
    (simp_all add: sample_recovery_def reset_defs saturating_sub_def)

section \<open>Queue identifiers\<close>

definition active_ids :: "queue_manager \<Rightarrow> nat set" where
  "active_ids m = {q. q < length (qm_active m) \<and> qm_active m ! q}"

definition manager_inv :: "queue_manager \<Rightarrow> bool" where
  "manager_inv m \<longleftrightarrow> length (qm_active m) = MAX_TRACKED_IO_QUEUES + 1 \<and> unat (qm_max_queues m) \<le> MAX_TRACKED_IO_QUEUES
     \<and> active_ids m \<subseteq> {1..unat (qm_max_queues m)} \<and> card (active_ids m) = unat (qm_active_queues m)"

lemma manager_new_inv: "manager_inv (manager_new n)"
proof -
  have none: "active_ids (manager_new n) = {}" by (auto simp: active_ids_def manager_new_def nth_replicate simp del: replicate_Suc)
  then have "card (active_ids (manager_new n)) = 0" by simp
  then show ?thesis using none
    by (auto simp: manager_inv_def manager_new_def MAX_TRACKED_IO_QUEUES_def min_def word_le_nat_alt)
qed

lemma find_least:
  "find P [a..<b] = Some q \<longleftrightarrow> a \<le> q \<and> q < b \<and> P q \<and> (\<forall>k. a \<le> k \<longrightarrow> k < q \<longrightarrow> \<not> P k)"
  "find P [a..<b] = None \<longleftrightarrow> (\<forall>k. a \<le> k \<longrightarrow> k < b \<longrightarrow> \<not> P k)"
proof -
  show "find P [a..<b] = None \<longleftrightarrow> (\<forall>k. a \<le> k \<longrightarrow> k < b \<longrightarrow> \<not> P k)" by (auto simp: find_None_iff)
  show "find P [a..<b] = Some q \<longleftrightarrow> a \<le> q \<and> q < b \<and> P q \<and> (\<forall>k. a \<le> k \<longrightarrow> k < q \<longrightarrow> \<not> P k)" (is "?L \<longleftrightarrow> ?R")
  proof
    assume ?L
    then obtain i where i: "i < b - a" "P (a + i)" "q = a + i" "\<forall>j<i. \<not> P (a + j)"
      by (auto simp: find_Some_iff)
    then show ?R by (auto dest: spec [of _ "_ - a"] simp: le_iff_add)
  next
    assume ?R
    then show ?L by (auto simp: find_Some_iff intro!: exI [of _ "q - a"])
  qed
qed

lemma create_queue_spec:
  assumes inv: "manager_inv m"
  shows "case create_queue m of
      (None, m') \<Rightarrow> m' = m \<and> active_ids m = {1..unat (qm_max_queues m)}
    | (Some q, m') \<Rightarrow> manager_inv m' \<and> active_ids m' = insert (unat q) (active_ids m) \<and> unat q \<notin> active_ids m
        \<and> unat q \<in> {1..unat (qm_max_queues m)} \<and> {1..<unat q} \<subseteq> active_ids m"
proof -
  let ?N = "unat (qm_max_queues m)"
  note i = inv [unfolded manager_inv_def]
  have fin: "finite (active_ids m)" by (simp add: active_ids_def)
  have idx: "qm_active m ! k \<longleftrightarrow> k \<in> active_ids m" if "k \<le> ?N" for k using that i by (auto simp: active_ids_def)
  show ?thesis
  proof (cases "find (\<lambda>q. \<not> qm_active m ! q) [1..<Suc ?N]")
    case None
    then have "active_ids m = {1..?N}" using i idx unfolding find_least(2) by auto
    then show ?thesis using None by (simp add: create_queue_def)
  next
    case (Some q)
    then have q: "1 \<le> q" "q \<le> ?N" "q \<notin> active_ids m" "{1..<q} \<subseteq> active_ids m" using idx unfolding find_least(1) by auto
    have less: "unat (qm_active_queues m) < ?N"
      using i q psubset_card_mono [of "{1..?N}" "active_ids m"] by fastforce
    have u: "unat (of_nat q :: u16) = q" using q(2) unat_lt_pow [of "qm_max_queues m"] by (simp add: unat_of_nat take_bit_nat_eq_self)
    have ids: "active_ids (m\<lparr>qm_active := (qm_active m)[q := True], qm_active_queues := n\<rparr>) = insert q (active_ids m)" for n
      using q(2) i by (auto simp: active_ids_def nth_list_update)
    have "unat (qm_active_queues m + 1) = Suc (unat (qm_active_queues m))"
      using less by (intro unat_plus_one) (auto simp: word_less_nat_alt [symmetric])
    then show ?thesis using Some less i q u ids fin
      by (simp add: create_queue_def word_le_nat_alt manager_inv_def)
  qed
qed

lemma delete_queue_spec:
  assumes inv: "manager_inv m"
  shows "case delete_queue m q of
      (False, m') \<Rightarrow> m' = m \<and> unat q \<notin> active_ids m
    | (True, m') \<Rightarrow> manager_inv m' \<and> unat q \<in> active_ids m \<and> active_ids m' = active_ids m - {unat q}"
proof (cases "unat q \<in> active_ids m")
  case True
  note i = inv [unfolded manager_inv_def]
  have q: "q \<noteq> 0" "unat q < length (qm_active m)" "qm_active m ! unat q" using True i by (auto simp: active_ids_def)
  have fin: "finite (active_ids m)" by (simp add: active_ids_def)
  have ids: "active_ids (m\<lparr>qm_active := (qm_active m)[unat q := False], qm_active_queues := n\<rparr>) = active_ids m - {unat q}" for n
    using q(2) by (auto simp: active_ids_def nth_list_update)
  have "unat (saturating_sub (qm_active_queues m) 1) = card (active_ids m) - 1" using i by (simp add: unat_saturating_sub)
  then show ?thesis using q True i ids fin by (auto simp: delete_queue_def manager_inv_def Let_def)
next
  case False
  then show ?thesis by (auto simp: delete_queue_def active_ids_def Let_def)
qed

section \<open>Plan and slots\<close>

lemma queue_pair_bytes_ok: "\<exists>b. queue_pair_bytes depth = Some b \<and> unat b = unat depth * 80"
proof -
  have d: "unat (ucast depth :: u64) = unat depth" by (simp add: unat_ucast_up)
  have small: "unat depth < 65536" using unat_lt_pow [of depth] by simp
  obtain sq where sq: "checked_mul (ucast depth) SQE_BYTES = Some sq" "unat sq = unat depth * 64"
    using checked_mul_None [of "ucast depth" SQE_BYTES] checked_mul_Some [of "ucast depth" SQE_BYTES] d small
    by (cases "checked_mul (ucast depth) SQE_BYTES") (auto simp: SQE_BYTES_def)
  obtain cq where cq: "checked_mul (ucast depth) CQE_BYTES = Some cq" "unat cq = unat depth * 16"
    using checked_mul_None [of "ucast depth" CQE_BYTES] checked_mul_Some [of "ucast depth" CQE_BYTES] d small
    by (cases "checked_mul (ucast depth) CQE_BYTES") (auto simp: CQE_BYTES_def)
  obtain b where "checked_add sq cq = Some b" "unat b = unat sq + unat cq"
    using checked_add_None [of sq cq] checked_add_Some [of sq cq] sq(2) cq(2) small
    by (cases "checked_add sq cq") auto
  then show ?thesis using sq cq by (simp add: queue_pair_bytes_def)
qed

lemma checked_mul_small:
  "unat a * n < 2 ^ 64 \<Longrightarrow> n < 2 ^ 64 \<Longrightarrow> \<exists>p. checked_mul a (of_nat n :: u64) = Some p \<and> unat p = unat a * n"
proof -
  assume "unat a * n < 2 ^ 64" "n < 2 ^ 64"
  moreover from this have "unat (of_nat n :: u64) = n" by (simp add: unat_of_nat take_bit_nat_eq_self)
  ultimately show ?thesis using checked_mul_None [of a "of_nat n"] checked_mul_Some [of a "of_nat n"]
    by (cases "checked_mul a (of_nat n)") auto
qed

lemma plan_queues_ok:
  assumes "qi_cpu_count input \<noteq> 0"
  shows "\<exists>p. plan_queues input = Some p \<and> qp_admin_depth p = qp_io_depth p
    \<and> 2 \<le> qp_io_depth p \<and> qp_io_depth p \<le> HUESOS_NVME_QUEUE_DEPTH
    \<and> qp_io_queue_count p = min (qi_cpu_count input) 64
    \<and> unat (qp_admin_queue_bytes p) = unat (qp_io_depth p) * 80
    \<and> unat (qp_io_queue_bytes p) = unat (qp_io_depth p) * 80 * qp_io_queue_count p
    \<and> unat (qp_prp_list_bytes p) = 65536 * qp_io_queue_count p"
proof -
  define entries where "entries = min (saturating_add (ucast (qi_cap_mqes input) :: u32) 1) (ucast (- 1 :: u16))"
  have e: "entries \<noteq> 0"
  proof -
    have "unat (saturating_add (ucast (qi_cap_mqes input) :: u32) 1) \<noteq> 0" by (simp add: unat_saturating_add)
    then have "saturating_add (ucast (qi_cap_mqes input) :: u32) 1 \<noteq> 0" by auto
    moreover have "unat (ucast (- 1 :: u16) :: u32) \<noteq> 0"
      using unat_minus_one_word_nat [where 'a = 16] by (simp add: unat_ucast_up)
    then have "(ucast (- 1 :: u16) :: u32) \<noteq> 0" by auto
    ultimately show ?thesis unfolding entries_def min_def by simp
  qed
  define cap where "cap = (if qi_max_queue_depth input = 0 then - 1 else qi_max_queue_depth input)"
  define depth where "depth = max (min (min HUESOS_NVME_QUEUE_DEPTH (ucast entries)) cap) 2"
  have d: "2 \<le> depth" "depth \<le> HUESOS_NVME_QUEUE_DEPTH" by (auto simp: depth_def HUESOS_NVME_QUEUE_DEPTH_def min.coboundedI1)
  then have d': "unat depth \<le> 256" by (simp add: word_le_nat_alt HUESOS_NVME_QUEUE_DEPTH_def)
  define count where "count = min (max (qi_cpu_count input) 1) 64"
  have c: "count \<le> 64" "count = min (qi_cpu_count input) 64" using assms by (auto simp: count_def)
  obtain b where b: "queue_pair_bytes depth = Some b" "unat b = unat depth * 80" using queue_pair_bytes_ok by blast
  have "unat depth * 80 * count \<le> 256 * 80 * 64" using d' c(1) by (intro mult_mono) auto
  then obtain io where io: "checked_mul b (of_nat count) = Some io" "unat io = unat depth * 80 * count"
    using checked_mul_small [of b count] b(2) c(1) by auto
  have k: "checked_mul PRP_LIST_PAGE_BYTES PRP_LIST_PAGES_PER_CPU = Some 65536"
    by (simp add: checked_mul_def PRP_LIST_PAGE_BYTES_def PRP_LIST_PAGES_PER_CPU_def)
  obtain prp where prp: "checked_mul (65536 :: u64) (of_nat count) = Some prp" "unat prp = 65536 * count"
    using checked_mul_small [of 65536 count] c(1) by auto
  have "plan_queues input = Some \<lparr>qp_admin_depth = depth, qp_io_depth = depth, qp_io_queue_count = count,
      qp_interrupt_mode = (if qi_msix_available input then Msix else if qi_msi_available input then Msi else Polling),
      qp_admin_queue_bytes = b, qp_io_queue_bytes = io, qp_prp_list_bytes = prp\<rparr>"
    unfolding plan_queues_def Let_def entries_def [symmetric] cap_def [symmetric] depth_def [symmetric] count_def [symmetric]
    using e assms b(1) io(1) k prp(1) by simp
  then show ?thesis using d b(2) io(2) prp(2) c(2) by simp
qed

lemma position_Some_eqI:
  "i < length xs \<Longrightarrow> P (xs ! i) \<Longrightarrow> (\<And>j. j < i \<Longrightarrow> \<not> P (xs ! j)) \<Longrightarrow> position P xs = Some i"
  by (simp add: position_Some)

text \<open>
  A request submitted under a new identifier takes one slot; completing it returns exactly what
  was recorded and frees the slot again.
\<close>

lemma tracker_submit_complete:
  assumes sub: "tracker_submit t r now timeout = (Inr (), t')" and new: "\<forall>x\<in>set (flatten t). sl_request_id x \<noteq> r"
  shows "\<exists>s. tracker_complete t' r = (Inr s, t) \<and> sl_request_id s = r \<and> sl_submitted_tick s = now
    \<and> unat (sl_deadline_tick s) = unat now + unat timeout"
proof -
  obtain deadline i where d: "checked_add now timeout = Some deadline" and i: "position (\<lambda>s. s = None) t = Some i"
    and t': "t' = t[i := Some \<lparr>sl_request_id = r, sl_submitted_tick = now, sl_deadline_tick = deadline\<rparr>]"
    using sub by (auto simp: tracker_submit_def split: option.splits)
  have i': "i < length t" "t ! i = None" using position_SomeD [OF i] by simp_all
  have "position (\<lambda>s. case s of None \<Rightarrow> False | Some x \<Rightarrow> sl_request_id x = r) t' = Some i"
  proof (rule position_Some_eqI)
    fix j assume "j < i"
    then have "t' ! j = t ! j" "j < length t" using i' by (auto simp: t')
    then show "\<not> (case t' ! j of None \<Rightarrow> False | Some x \<Rightarrow> sl_request_id x = r)"
      using new by (auto simp: set_flatten split: option.splits) (metis nth_mem)
  qed (use i' in \<open>simp_all add: t'\<close>)
  then show ?thesis using i' d by (auto simp: tracker_complete_def t' checked_add_Some list_update_same_conv)
qed

end
