(* ===== verification/Spec2Isabelle.thy ===== *)
theory Spec2Isabelle
  imports Rust_Prelude Cpu_Mask Task_Identity Task_Directory Directory_Race Task_Lifecycle Task_Inbox Eevdf_Model Eevdf_Tree Eevdf_Tree_Insert Eevdf_Tree_Erase Eevdf_Index Cbs_Admission Cbs_Runtime Job_Accounting Frame_Allocator Process_Lifecycle Wait_Set Sched_Gates Fixup_Table Handle_Transfer Zombie_Store Quota_Tree Elf_Loader Device_Lease Zone_Allocator Sched_Clock Sched_Hw Nvme_Prp Nvme_Queues
begin

text \<open>
  HuesOS is an x86-64 microkernel in Rust. Policy code lives in crates that run on the host and
  are free of hardware access: scheduling, physical memory, processes, waiting, handles, quotas
  and the bookkeeping of the NVMe driver. The kernel and the drivers call these crates under
  their locks. This development models those crates function by function and proves the
  contracts the kernel relies on. Paths below are relative to \<^verbatim>\<open>src/crates/\<close>.

  How the parts interact. A task has a stable identity from the slot allocator; the directory maps
  the identity to the owning processor, and a remote operation is posted there and announced
  through that processor's inbox. The lifecycle decides which transition of a task is legal, the
  fair-share and reservation policies decide which task runs and for how long, and jobs, quotas
  and gates bound what a task may use. Processes exit through the process record, leave a record
  in the zombie store and wake waiters through wait sets. Handles move between processes by the
  transfer protocol. The frame allocator hands out physical memory, the exception table makes
  copies from user memory recoverable, and the NVMe driver plans its queues and its DMA lists.

  \<^bold>\<open>Conventions\<close> (theory \<open>Rust_Prelude\<close>). Integers of a width are words of that width; an index
  or a length is a natural number; \<^verbatim>\<open>Result\<close> is a sum with errors on the left; a method on
  \<^verbatim>\<open>&mut self\<close> returns its result and the new state, also on the error path, so that partial
  updates before an error are part of the model. The build enables overflow checks, so an
  arithmetic operation that can overflow is either shown not to or modelled as a panic (None, or
  \<open>Panicked\<close> in the index tree).
  Fixed arrays are lists. A structure is a record whose fields carry a short prefix. The prelude
  also holds the interfaces: \<open>index_set\<close> for containers of small indices, interpreted by word
  bitmaps, CPU masks and the frame bitmap, and \<open>invariant_machine\<close> for transition systems with an
  inductive invariant, interpreted by every protocol below.

  \<^bold>\<open>Scheduler core\<close>, \<^verbatim>\<open>huesos-sched/src/lib.rs\<close>.
  \<^item> \<open>Cpu_Mask\<close>: \<^verbatim>\<open>CpuIndex\<close> and \<^verbatim>\<open>CpuMask\<close>; the masks are the algebra of sets.
  \<^item> \<open>Task_Identity\<close>: \<^verbatim>\<open>TaskId\<close> and \<^verbatim>\<open>TaskSlotAllocator\<close>; the codec is a bijection on valid
    pairs and no pair of slot and generation is handed out twice.
  \<^item> \<open>Task_Directory\<close>: \<^verbatim>\<open>TaskDirectory\<close>, each method as a whole, refined to a map of task records.
  \<^item> \<open>Directory_Race\<close>: the same entry with every atomic access a step of its own and writers,
    readers and producers interleaved; a reader never sees a torn location, answers after a fixed
    number of loads, and a pending operation never crosses generations.
  \<^item> \<open>Task_Lifecycle\<close>: \<^verbatim>\<open>ExecutionGuards\<close> and \<^verbatim>\<open>TaskLifecycle\<close>; the legal state graph, no lost
    wake, atomic migration.
  \<^item> \<open>Task_Inbox\<close>: \<^verbatim>\<open>TaskInbox\<close>, as a set call by call, and interleaved step by step; no
    published slot is stranded without an interrupt.
  \<^item> \<open>Eevdf_Model\<close>: \<^verbatim>\<open>EevdfModel\<close>; what every history of calls keeps of the array, the
    policy of \<^verbatim>\<open>pick\<close>, and a bound on how many rounds a queued task waits while tasks join at
    the current virtual time and others leave. The bound needs room in the counters for the run
    (\<open>run_room\<close>), since a completion that overflows leaves a damaged entity.
  \<^item> \<open>Eevdf_Tree\<close>, \<open>Eevdf_Tree_Insert\<close>, \<open>Eevdf_Tree_Erase\<close> and \<open>Eevdf_Index\<close>: \<^verbatim>\<open>EevdfTree\<close> of
    \<^verbatim>\<open>eevdf.rs\<close>, a tree of linked array slots. The first theory holds every function, rotations and
    both rebalancing loops included, and shows that the links form a binary tree; the next two show
    that insertion and removal keep it a search tree with exact least finishes, and the last that
    over any history the operations are those of a finite set of entries; which of several entries
    of equal finish is picked is left open. Ranks never leave zero,
    so the loops never rotate and the depth is not logarithmic.
  \<^item> \<open>Cbs_Admission\<close> and \<open>Cbs_Runtime\<close>: \<^verbatim>\<open>CbsReservation\<close>, \<^verbatim>\<open>AdmissionControl\<close>, \<^verbatim>\<open>CbsMigration\<close>,
    \<^verbatim>\<open>RefillRing\<close> and \<^verbatim>\<open>CbsRuntime\<close>; no overcommitment; a migration reserves the
    target before it gives up the source, whatever the order of calls; budget is conserved except
    for charges whose refill instant exceeds 64 bits, which lose it; bandwidth is bounded.
  \<^item> \<open>Job_Accounting\<close>: \<^verbatim>\<open>JobBandwidth\<close>, and \<^verbatim>\<open>JobState\<close> and \<^verbatim>\<open>JobTable\<close> of \<^verbatim>\<open>job.rs\<close>; the quota
    is a hard cap and totals are sums.
  \<^item> \<open>Sched_Gates\<close>: \<^verbatim>\<open>SmtCoreGate\<close> and \<^verbatim>\<open>IrqEventState\<close>; isolation of trust domains and
    conservation of interrupts.
  \<^item> \<open>Sched_Clock\<close>: \<^verbatim>\<open>clock.rs\<close>; calibration is total on its range, conversions in the range
    that 64 bits leave are exact to one nanosecond and deadlines are never early.
  \<^item> \<open>Sched_Hw\<close>: \<^verbatim>\<open>hw.rs\<close>; the save area holds every enabled component, PCID pairs are unique and
    stale ones refused, and when topology parsing fails. A PCID still active elsewhere may be reused.

  \<^bold>\<open>Memory, processes, objects.\<close>
  \<^item> \<open>Frame_Allocator\<close>: \<^verbatim>\<open>huesos-pmm\<close>; after boot over any memory map a frame has one holder; for usable
    regions that start on a frame no frame of the bitmap is handed out, and for regions that do not
    overlap the counter is exact. The run search is first fit below a cap in whole frames, and what
    boot leaves free is given byte by byte for such regions. Releases are of held frames only.
  \<^item> \<open>Process_Lifecycle\<close>: \<^verbatim>\<open>huesos-proclife\<close>; the exit status is delivered once and kept.
  \<^item> \<open>Zombie_Store\<close>: \<^verbatim>\<open>huesos-lifecycle\<close>; the ring buffer is a bounded queue and reference
    accounts collect once.
  \<^item> \<open>Wait_Set\<close>: \<^verbatim>\<open>huesos-waitset\<close>; the array is a list with distinct keys, and the precedence of
    outcomes.
  \<^item> \<open>Handle_Transfer\<close>: \<^verbatim>\<open>huesos-handlemove\<close>; transfers are all or nothing, and a handle received
    has exactly the rights requested and held.
  \<^item> \<open>Quota_Tree\<close>: \<^verbatim>\<open>huesos-quota\<close>; an acquisition is charged exactly when every node above has room,
    and no subtree exceeds its limit unless a limit was set below the use it covers.
  \<^item> \<open>Fixup_Table\<close>: \<^verbatim>\<open>huesos-extable\<close>; the binary search finds exactly the covering range.
  \<^item> \<open>Elf_Loader\<close>: \<^verbatim>\<open>huesos-elf\<close>; which files load, that none makes the loader panic or copy out of
    bounds, where a refused page stops it, and the image in memory byte by byte. The target address
    space is a parameter.
  \<^item> \<open>Device_Lease\<close>: \<^verbatim>\<open>huesos-pci/src/lease.rs\<close>; revoked authority over a device never returns,
    stale events have no effect, a live lease can be failed until its generation is exhausted, and
    what a generation authorises stays the same for its lifetime.
  \<^item> \<open>Zone_Allocator\<close>: \<^verbatim>\<open>huesos-hxfs/src/allocator.rs\<close>; the ranges of blocks that callers hold never
    overlap and stay within the volume, and two ways in which the table of pending discards breaks what callers expect.

  \<^bold>\<open>NVMe driver policy\<close>, \<^verbatim>\<open>huesos-nvme\<close>.
  \<^item> \<open>Nvme_Prp\<close>: \<^verbatim>\<open>prp.rs\<close>; the planned list in closed form and what a controller reads from it.
  \<^item> \<open>Nvme_Queues\<close>: \<^verbatim>\<open>queues.rs\<close>, \<^verbatim>\<open>queue_plan.rs\<close>, \<^verbatim>\<open>buffer_pool.rs\<close>, \<^verbatim>\<open>reliability.rs\<close>; exclusive
    buffers, queue identifiers, exact sizes, and the order of recovery steps.

  \<^bold>\<open>Bounds and fuel.\<close> The recursion of \<open>subtree_usage_index\<close> and the walk of \<open>ancestors_allow\<close> take
  the number of nodes as fuel; children have larger indices than parents in every reachable tree, so
  neither runs out. \<open>plan_pages\<close> takes the number of entries, and each list page consumes at least
  one. The loops of the index tree that follow links take the number of slots, which bounds the
  size of every reachable tree, so that they never run out.
  \<open>pcid_allocate_loop\<close> counts the rounds of the source's bounded loop. The retry loop of
  \<^verbatim>\<open>locate\<close> is bounded in the source itself. Every other loop is structural or has a termination
  proof. Concurrent steps are sequentially consistent; the weaker orderings the source names are
  not modelled.

  \<^bold>\<open>Not modelled.\<close> Code that only drives hardware or a device: \<^verbatim>\<open>huesos-arch\<close>, \<^verbatim>\<open>huesos-boot\<close>,
  \<^verbatim>\<open>huesos-hal\<close>, \<^verbatim>\<open>huesos-fb\<close>, \<^verbatim>\<open>huesos-bootux\<close>, \<^verbatim>\<open>huesos-uacpi\<close>, the register and transport layers
  of \<^verbatim>\<open>huesos-nvme\<close> and \<^verbatim>\<open>huesos-tpm\<close>. Code whose correctness is that of cryptographic primitives:
  the encryption layers of \<^verbatim>\<open>huesos-hxfs\<close>. Code that composes the modelled crates under locks and
  with allocation: \<^verbatim>\<open>huesos-kernel\<close>, \<^verbatim>\<open>huesos-object\<close>, \<^verbatim>\<open>huesos-syscalls\<close>, \<^verbatim>\<open>huesos-userspace\<close>. The
  rest of the file systems, the other binary formats and codecs, the PCI and I/O APIC planners, the
  hardened heap and the asynchronous runtime are separate components with their own state, not
  called by the modelled ones.
\<close>

end
